(* ===== verification/Prelude.thy ===== *)
theory Prelude
  imports Main "HOL-Library.Word" "HOL-Library.Monad_Syntax"
begin

text \<open>
  The machine types of \<^verbatim>\<open>inc/types_def.h\<close>, the failure monad in which the kernel code is
  written, and the facts on options, lists and words that all components share.

  A kernel operation returns \<open>None\<close> exactly where the C code stops being meaningful:
  an \<open>assert\<close> that fails (the kernel panics), a dereference of NULL or of an address that holds no
  object of the expected type, an array index out of range, or a loop that does not end.
  Error codes that the C code returns are ordinary values.
\<close>

section \<open>Machine types\<close>

type_synonym word_t = "32 word"
type_synonym ticks_t = "64 word"
type_synonym byte_t = "8 word"
type_synonym ptr = "32 word"

abbreviation (input) NULL :: ptr where
  "NULL \<equiv> 0"

section \<open>Error codes\<close>

definition EPERM :: int where
  "EPERM = 1"

definition EBADF :: int where
  "EBADF = 9"

definition EAGAIN :: int where
  "EAGAIN = 11"

definition ENOMEM :: int where
  "ENOMEM = 12"

definition EINVAL :: int where
  "EINVAL = 22"

definition EMSGSIZE :: int where
  "EMSGSIZE = 36"

section \<open>Facts of the development\<close>

named_theorems fault_simps \<open>unfolding of the failure monad: assertions, array and heap accesses\<close>
named_theorems config_simps \<open>values of the build configuration\<close>

section \<open>The failure monad\<close>

definition assertK :: "bool \<Rightarrow> unit option" where
  "assertK b = (if b then Some () else None)"

definition arr_get :: "'a list \<Rightarrow> ('l::len) word \<Rightarrow> 'a option" where
  "arr_get xs i = (if unat i < length xs then Some (xs ! unat i) else None)"

definition arr_set :: "'a list \<Rightarrow> ('l::len) word \<Rightarrow> 'a \<Rightarrow> 'a list option" where
  "arr_set xs i v = (if unat i < length xs then Some (xs[unat i := v]) else None)"

lemma assertK_True [simp]: "assertK True = Some ()"
  by (simp add: assertK_def)

lemma assertK_False [simp]: "assertK False = None"
  by (simp add: assertK_def)

lemma assertK_bind [simp]: "(assertK b \<bind> f) = (if b then f () else None)"
  by (simp add: assertK_def)

lemma bind_SomeE: "\<lbrakk>(m \<bind> f) = Some y; \<And>x. \<lbrakk>m = Some x; f x = Some y\<rbrakk> \<Longrightarrow> P\<rbrakk> \<Longrightarrow> P"
  by (cases m) auto

lemma assertK_eq_Some [simp]: "assertK b = Some u \<longleftrightarrow> b"
  by (simp add: assertK_def)

lemma arr_get_Some [simp]: "unat i < length xs \<Longrightarrow> arr_get xs i = Some (xs ! unat i)"
  by (simp add: arr_get_def)

lemma arr_get_None [simp]: "length xs \<le> unat i \<Longrightarrow> arr_get xs i = None"
  by (simp add: arr_get_def)

lemma arr_set_Some [simp]: "unat i < length xs \<Longrightarrow> arr_set xs i v = Some (xs[unat i := v])"
  by (simp add: arr_set_def)

lemma arr_set_None [simp]: "length xs \<le> unat i \<Longrightarrow> arr_set xs i v = None"
  by (simp add: arr_set_def)

lemma bind_eq_SomeE:
  assumes "(m \<bind> f) = Some y"
  obtains x where "m = Some x" "f x = Some y"
  using assms by (cases m) auto

lemmas bind_split_asm = bind_eq_Some_conv

section \<open>Words\<close>

lemma unat_plus_no_overflow:
  fixes a b :: "('l::len) word"
  assumes "unat a + unat b < 2 ^ LENGTH('l)"
  shows "unat (a + b) = unat a + unat b"
  using assms by (simp add: unat_word_ariths)

lemma unat_minus_le:
  fixes a b :: "('l::len) word"
  assumes "b \<le> a"
  shows "unat (a - b) = unat a - unat b"
  using assms by (simp add: unat_sub)

lemma unat_bound32: "unat (w :: 32 word) < 2 ^ 32"
  using unsigned_less[of w, where ?'a = nat] by simp

lemma unat_word_of_nat:
  "n < 2 ^ LENGTH('l) \<Longrightarrow> unat (word_of_nat n :: ('l::len) word) = n"
  by (simp add: unat_of_nat)

lemma word_le_nat: "(a \<le> b) = (unat a \<le> unat (b :: ('l::len) word))"
  by (simp add: word_le_nat_alt)

lemma word_less_nat: "(a < b) = (unat a < unat (b :: ('l::len) word))"
  by (simp add: word_less_nat_alt)

lemma word_eq_nat: "(a = b) = (unat a = unat (b :: ('l::len) word))"
  by (simp add: word_unat_eq_iff)

unbundle bit_operations_syntax

lemma power_of_two_word:
  fixes x :: "32 word"
  assumes x: "x \<noteq> 0" "x AND (x - 1) = 0"
  shows "\<exists>k < 32. x = 2 ^ k"
proof -
  from x have "1 \<le> unat x" using unat_eq_zero[of x] by linarith
  then obtain k where k: "2 ^ k \<le> unat x" "unat x < 2 ^ (k + 1)" using ex_power_ivl1[of 2 "unat x"] by auto
  then have less: "(2 :: nat) ^ k < 2 ^ 32" using unat_bound32[of x] by linarith
  then have k32: "k < 32" by (rule power_less_imp_less_exp[rotated]) simp
  have "(2 :: nat) ^ k < 2 ^ LENGTH(32)" using less by simp
  from unat_word_of_nat[OF this] have p: "unat (2 ^ k :: 32 word) = 2 ^ k" by simp
  have top: "bit y k" if "2 ^ k \<le> unat y" "unat y < 2 ^ (k + 1)" for y :: "32 word"
  proof -
    have "unat y div 2 ^ k = 1" using that by (intro div_nat_eqI) simp_all
    then have "bit (unat y) k" by (simp add: bit_iff_odd)
    then show ?thesis by (simp add: bit_unsigned_iff)
  qed
  have "x = 2 ^ k"
  proof (rule ccontr)
    assume "x \<noteq> 2 ^ k"
    then have "2 ^ k < unat x" using k(1) p by (auto simp: word_unat_eq_iff order_less_le)
    moreover have "unat (x - 1) = unat x - 1" using x(1) by (rule unat_minus_one)
    ultimately have "bit (x - 1) k" "bit x k" using k by (auto intro!: top)
    then have "bit (x AND (x - 1)) k" by (simp add: bit_and_iff)
    then show False using x(2) by simp
  qed
  then show ?thesis using k32 by blast
qed

lemmas word_bits = bit_or_iff bit_and_iff bit_push_bit_iff bit_drop_bit_eq bit_mask_iff bit_unsigned_iff possible_bit_word o_def

lemmas word_nat = word_le_nat word_less_nat word_eq_nat

section \<open>Lists\<close>

lemma map_upt_shift: "map f [Suc 0..<Suc n] = map (\<lambda>i. f (Suc i)) [0..<n]"
  by (simp add: map_Suc_upt [symmetric] del: upt_Suc)

lemma sum_list_map_update:
  fixes f :: "'a \<Rightarrow> nat"
  assumes "i < length xs"
  shows "sum_list (map f (xs[i := v])) + f (xs ! i) = sum_list (map f xs) + f v"
  using assms by (induction xs arbitrary: i) (auto split: nat.splits)

text \<open>Small bounds as alternatives, four at a time.\<close>

lemma less_4_iff: "(n :: nat) < 4 \<longleftrightarrow> n = 3 \<or> n = 2 \<or> n = 1 \<or> n = 0"
  by auto

lemma less_8_iff: "(n :: nat) < 8 \<longleftrightarrow> n < 4 \<or> n = 4 \<or> n = 5 \<or> n = 6 \<or> n = 7"
  by auto

lemma less_12_iff: "(n :: nat) < 12 \<longleftrightarrow> n < 8 \<or> n = 8 \<or> n = 9 \<or> n = 10 \<or> n = 11"
  by auto

lemma less_16_iff: "(n :: nat) < 16 \<longleftrightarrow> n < 12 \<or> n = 12 \<or> n = 13 \<or> n = 14 \<or> n = 15"
  by auto

lemmas less_8_cases = less_8_iff[THEN iffD1, unfolded less_4_iff]
lemmas less_16_cases = less_16_iff[THEN iffD1, unfolded less_12_iff less_8_iff less_4_iff]

end
