(* ===== verification/Sporadic.thy ===== *)
theory Sporadic
  imports Prelude
begin

text \<open>
  The sporadic server of \<^verbatim>\<open>src/model/sporadic.c\<close> and \<^verbatim>\<open>inc/model/sporadic.h\<close>: every
  scheduling context carries a circular buffer of replenishments (refills).  The first part
  translates the code, with the global \<open>current_time\<close> as the argument \<open>ct\<close> and the scheduling
  context it works on as the argument and result \<open>sc\<close>.  The second part abstracts the circular
  buffer to the list of its refills, proves that every operation refines a list operation, that the
  budget of a scheduling context is conserved and that the refills stay ordered by time.
\<close>

section \<open>Data\<close>

record refill =
  refill_time :: ticks_t
  refill_amount :: ticks_t

record thread_sched =
  period :: ticks_t
  consumed :: ticks_t
  refill_max :: word_t
  refill_head :: word_t
  refill_tail :: word_t
  refill_buffer :: "refill list"

definition NUM_SCHED_REFILLS :: nat where
  "NUM_SCHED_REFILLS = 8"

definition MIN_REFILLS :: word_t where
  "MIN_REFILLS = 2"

definition KERNEL_WCET_SCALE :: ticks_t where
  "KERNEL_WCET_SCALE = 1"

definition us_to_ticks :: "ticks_t \<Rightarrow> ticks_t" where
  "us_to_ticks us = us"

definition get_kernel_wcet_us :: ticks_t where
  "get_kernel_wcet_us = 10"

definition get_kernel_wcet_ticks :: ticks_t where
  "get_kernel_wcet_ticks = 10"

definition MIN_BUDGET :: ticks_t where
  "MIN_BUDGET = 2 * get_kernel_wcet_ticks * KERNEL_WCET_SCALE"

section \<open>Accessors of the circular buffer\<close>

definition REFILL_INDEX :: "thread_sched \<Rightarrow> word_t \<Rightarrow> refill option" where
  "REFILL_INDEX sc i = arr_get (refill_buffer sc) i"

definition REFILL_HEAD :: "thread_sched \<Rightarrow> refill option" where
  "REFILL_HEAD sc = REFILL_INDEX sc (refill_head sc)"

definition REFILL_TAIL :: "thread_sched \<Rightarrow> refill option" where
  "REFILL_TAIL sc = REFILL_INDEX sc (refill_tail sc)"

definition set_refill :: "thread_sched \<Rightarrow> word_t \<Rightarrow> refill \<Rightarrow> thread_sched option" where
  "set_refill sc i r = do {
     b \<leftarrow> arr_set (refill_buffer sc) i r;
     Some (sc\<lparr>refill_buffer := b\<rparr>) }"

definition refill_size :: "thread_sched \<Rightarrow> word_t" where
  "refill_size sc =
     (if refill_head sc \<le> refill_tail sc then refill_tail sc - refill_head sc + 1
      else refill_tail sc + 1 + (refill_max sc - refill_head sc))"

definition refill_ready :: "ticks_t \<Rightarrow> thread_sched \<Rightarrow> bool option" where
  "refill_ready ct sc = do {
     h \<leftarrow> REFILL_HEAD sc;
     Some (refill_time h \<le> ct + get_kernel_wcet_ticks) }"

definition refill_next :: "thread_sched \<Rightarrow> word_t \<Rightarrow> word_t" where
  "refill_next sc index = (if index = refill_max sc - 1 then 0 else index + 1)"

definition refill_full :: "thread_sched \<Rightarrow> bool" where
  "refill_full sc = (refill_size sc = refill_max sc)"

definition refill_single :: "thread_sched \<Rightarrow> bool" where
  "refill_single sc = (refill_head sc = refill_tail sc)"

definition refill_capacity :: "thread_sched \<Rightarrow> ticks_t \<Rightarrow> ticks_t option" where
  "refill_capacity sc usage = do {
     h \<leftarrow> REFILL_HEAD sc;
     Some (if usage > refill_amount h then 0 else refill_amount h - usage) }"

definition refill_sufficient :: "thread_sched \<Rightarrow> ticks_t \<Rightarrow> bool option" where
  "refill_sufficient sc usage = do {
     c \<leftarrow> refill_capacity sc usage;
     Some (c \<ge> MIN_BUDGET) }"

definition is_roundrobin :: "thread_sched \<Rightarrow> bool" where
  "is_roundrobin sc = (period sc = 0)"

section \<open>Operations\<close>

partial_function (option) refill_ordered_loop :: "thread_sched \<Rightarrow> word_t \<Rightarrow> word_t \<Rightarrow> bool option" where
  "refill_ordered_loop sc cur nxt =
     (if cur = refill_tail sc then Some True
      else do {
        c \<leftarrow> REFILL_INDEX sc cur;
        n \<leftarrow> REFILL_INDEX sc nxt;
        if \<not> refill_time c \<le> refill_time n then Some False
        else refill_ordered_loop sc nxt (refill_next sc nxt) })"

definition refill_ordered :: "thread_sched \<Rightarrow> bool option" where
  "refill_ordered sc = refill_ordered_loop sc (refill_head sc) (refill_next sc (refill_head sc))"

partial_function (option) refill_sum_loop :: "thread_sched \<Rightarrow> word_t \<Rightarrow> ticks_t \<Rightarrow> ticks_t option" where
  "refill_sum_loop sc cur sm =
     (if cur = refill_tail sc then Some sm
      else do {
        r \<leftarrow> REFILL_INDEX sc (refill_next sc cur);
        refill_sum_loop sc (refill_next sc cur) (sm + refill_amount r) })"

definition refill_sum :: "thread_sched \<Rightarrow> ticks_t option" where
  "refill_sum sc = do {
     h \<leftarrow> REFILL_HEAD sc;
     refill_sum_loop sc (refill_head sc) (refill_amount h) }"

definition refill_pop_head :: "thread_sched \<Rightarrow> (refill \<times> thread_sched) option" where
  "refill_pop_head sc = do {
     assertK (\<not> refill_single sc);
     r \<leftarrow> REFILL_HEAD sc;
     let sc = sc\<lparr>refill_head := refill_next sc (refill_head sc)\<rparr>;
     assertK (refill_head sc < refill_max sc);
     Some (r, sc) }"

definition refill_add_tail :: "thread_sched \<Rightarrow> refill \<Rightarrow> thread_sched option" where
  "refill_add_tail sc r = do {
     assertK (refill_size sc < refill_max sc);
     let new_tail = refill_next sc (refill_tail sc);
     let sc = sc\<lparr>refill_tail := new_tail\<rparr>;
     sc \<leftarrow> set_refill sc (refill_tail sc) r;
     assertK (new_tail < refill_max sc);
     Some sc }"

definition maybe_add_empty_tail :: "ticks_t \<Rightarrow> thread_sched \<Rightarrow> thread_sched option" where
  "maybe_add_empty_tail ct sc =
     (if is_roundrobin sc then do {
        sc \<leftarrow> refill_add_tail sc \<lparr>refill_time = ct, refill_amount = 0\<rparr>;
        assertK (refill_size sc = MIN_REFILLS);
        Some sc }
      else Some sc)"

definition set_head :: "thread_sched \<Rightarrow> (refill \<Rightarrow> refill) \<Rightarrow> thread_sched option" where
  "set_head sc f = do {
     h \<leftarrow> REFILL_HEAD sc;
     set_refill sc (refill_head sc) (f h) }"

definition set_tail :: "thread_sched \<Rightarrow> (refill \<Rightarrow> refill) \<Rightarrow> thread_sched option" where
  "set_tail sc f = do {
     t \<leftarrow> REFILL_TAIL sc;
     set_refill sc (refill_tail sc) (f t) }"

definition refill_new :: "ticks_t \<Rightarrow> thread_sched \<Rightarrow> word_t \<Rightarrow> ticks_t \<Rightarrow> ticks_t \<Rightarrow> thread_sched option" where
  "refill_new ct sc max_refills budget per = do {
     let sc = sc\<lparr>period := per, refill_head := 0, refill_tail := 0, refill_max := max_refills\<rparr>;
     assertK (budget > MIN_BUDGET);
     sc \<leftarrow> set_head sc (\<lambda>h. h\<lparr>refill_amount := budget\<rparr>);
     sc \<leftarrow> set_head sc (\<lambda>h. h\<lparr>refill_time := ct\<rparr>);
     maybe_add_empty_tail ct sc }"

definition refill_update :: "ticks_t \<Rightarrow> thread_sched \<Rightarrow> ticks_t \<Rightarrow> ticks_t \<Rightarrow> word_t \<Rightarrow> thread_sched option" where
  "refill_update ct sc new_period new_budget new_max_refills = do {
     assertK (refill_max sc > 0);
     h \<leftarrow> REFILL_HEAD sc;
     sc \<leftarrow> set_refill sc 0 h;
     let sc = sc\<lparr>refill_head := 0\<rparr>;
     let sc = sc\<lparr>refill_tail := refill_head sc\<rparr>;
     let sc = sc\<lparr>refill_max := new_max_refills\<rparr>;
     let sc = sc\<lparr>period := new_period\<rparr>;
     rdy \<leftarrow> refill_ready ct sc;
     sc \<leftarrow> (if rdy then set_head sc (\<lambda>h. h\<lparr>refill_time := ct\<rparr>) else Some sc);
     h \<leftarrow> REFILL_HEAD sc;
     if refill_amount h \<ge> new_budget then do {
       sc \<leftarrow> set_head sc (\<lambda>h. h\<lparr>refill_amount := new_budget\<rparr>);
       maybe_add_empty_tail ct sc }
     else refill_add_tail sc \<lparr>refill_time = refill_time h + new_period,
                              refill_amount = new_budget - refill_amount h\<rparr> }"

definition schedule_used :: "thread_sched \<Rightarrow> refill \<Rightarrow> thread_sched option" where
  "schedule_used sc new = do {
     t \<leftarrow> REFILL_TAIL sc;
     if refill_amount new < MIN_BUDGET \<and> \<not> refill_single sc then do {
       sc \<leftarrow> set_tail sc (\<lambda>t. t\<lparr>refill_amount := refill_amount t + refill_amount new\<rparr>);
       set_tail sc (\<lambda>t. t\<lparr>refill_time := max (refill_time new) (refill_time t)\<rparr>) }
     else if refill_time new \<le> refill_time t then
       set_tail sc (\<lambda>t. t\<lparr>refill_amount := refill_amount t + refill_amount new\<rparr>)
     else refill_add_tail sc new }"

definition refill_split_check :: "thread_sched \<Rightarrow> ticks_t \<Rightarrow> thread_sched option" where
  "refill_split_check sc usage = do {
     h \<leftarrow> REFILL_HEAD sc;
     assertK (usage > 0);
     assertK (usage \<le> refill_amount h);
     assertK (period sc > 0);
     let remnant = refill_amount h - usage;
     let new = \<lparr>refill_time = refill_time h + period sc, refill_amount = usage\<rparr>;
     if refill_size sc = refill_max sc \<or> remnant < MIN_BUDGET then do {
       sc \<leftarrow> (if refill_single sc
              then set_head sc (\<lambda>_. new\<lparr>refill_amount := refill_amount new + remnant\<rparr>)
              else do {
                (_, sc) \<leftarrow> refill_pop_head sc;
                sc \<leftarrow> set_head sc (\<lambda>h. h\<lparr>refill_amount := refill_amount h + remnant\<rparr>);
                schedule_used sc new });
       ord \<leftarrow> refill_ordered sc;
       assertK ord;
       Some sc }
     else do {
       assertK (remnant \<ge> MIN_BUDGET);
       sc \<leftarrow> set_head sc (\<lambda>h. h\<lparr>refill_amount := remnant\<rparr>);
       schedule_used sc new } }"

partial_function (option) budget_exhaust_loop ::
  "thread_sched \<Rightarrow> ticks_t \<Rightarrow> (thread_sched \<times> ticks_t) option" where
  "budget_exhaust_loop sc usage = do {
     h \<leftarrow> REFILL_HEAD sc;
     if refill_amount h \<le> usage then do {
       sc \<leftarrow> (if refill_single sc
              then set_head sc (\<lambda>h. h\<lparr>refill_time := refill_time h + period sc\<rparr>)
              else do {
                (old_head, sc) \<leftarrow> refill_pop_head sc;
                schedule_used sc (old_head\<lparr>refill_time := refill_time old_head + period sc\<rparr>) });
       budget_exhaust_loop sc (usage - refill_amount h) }
     else Some (sc, usage) }"

definition budget_overrun :: "thread_sched \<Rightarrow> ticks_t \<Rightarrow> thread_sched option" where
  "budget_overrun sc usage =
     (if usage > 0 then do {
        sc \<leftarrow> set_head sc (\<lambda>h. h\<lparr>refill_time := refill_time h + usage\<rparr>);
        if refill_single sc then Some sc
        else do {
          h \<leftarrow> REFILL_HEAD sc;
          n \<leftarrow> REFILL_INDEX sc (refill_next sc (refill_head sc));
          if refill_time h + refill_amount h \<ge> refill_time n then do {
            (r, sc) \<leftarrow> refill_pop_head sc;
            sc \<leftarrow> set_head sc (\<lambda>h. h\<lparr>refill_amount := refill_amount h + refill_amount r\<rparr>);
            set_head sc (\<lambda>h. h\<lparr>refill_time := refill_time r\<rparr>) }
          else Some sc } }
      else Some sc)"

partial_function (option) budget_merge_loop :: "thread_sched \<Rightarrow> thread_sched option" where
  "budget_merge_loop sc = do {
     h \<leftarrow> REFILL_HEAD sc;
     if refill_amount h < MIN_BUDGET \<or> refill_full sc then do {
       (r, sc) \<leftarrow> refill_pop_head sc;
       sc \<leftarrow> set_head sc (\<lambda>h. h\<lparr>refill_amount := refill_amount h + refill_amount r\<rparr>);
       budget_merge_loop sc }
     else Some sc }"

definition budget_charge :: "thread_sched \<Rightarrow> ticks_t \<Rightarrow> ticks_t \<Rightarrow> (thread_sched \<times> ticks_t) option" where
  "budget_charge sc usage capacity =
     (if capacity = 0 then do {
        (sc, usage) \<leftarrow> budget_exhaust_loop sc usage;
        sc \<leftarrow> budget_overrun sc usage;
        Some (sc, usage) }
      else Some (sc, usage))"

definition refill_budget_check :: "ticks_t \<Rightarrow> thread_sched \<Rightarrow> ticks_t \<Rightarrow> ticks_t \<Rightarrow> thread_sched option" where
  "refill_budget_check ct sc usage capacity = do {
     assertK (capacity < MIN_BUDGET \<or> refill_full sc);
     assertK (period sc > 0);
     (sc, usage) \<leftarrow> budget_charge sc usage capacity;
     capacity \<leftarrow> refill_capacity sc usage;
     rdy \<leftarrow> refill_ready ct sc;
     sc \<leftarrow> (if capacity > 0 \<and> rdy then do {
              assertK (capacity < MIN_BUDGET);
              refill_split_check sc usage }
            else Some sc);
     budget_merge_loop sc }"

partial_function (option) noblock_merge_loop :: "ticks_t \<Rightarrow> thread_sched \<Rightarrow> thread_sched option" where
  "noblock_merge_loop ct sc =
     (if refill_single sc then Some sc
      else do {
        h \<leftarrow> REFILL_HEAD sc;
        n \<leftarrow> REFILL_INDEX sc (refill_next sc (refill_head sc));
        if refill_time n \<le> ct + refill_amount h then do {
          (_, sc) \<leftarrow> refill_pop_head sc;
          sc \<leftarrow> set_head sc (\<lambda>r. r\<lparr>refill_amount := refill_amount r + refill_amount h\<rparr>);
          sc \<leftarrow> set_head sc (\<lambda>r. r\<lparr>refill_time := ct\<rparr>);
          noblock_merge_loop ct sc }
        else Some sc })"

definition refill_noblock_check :: "ticks_t \<Rightarrow> thread_sched \<Rightarrow> thread_sched option" where
  "refill_noblock_check ct sc =
     (if is_roundrobin sc then Some sc
      else do {
        rdy \<leftarrow> refill_ready ct sc;
        if rdy then do {
          sc \<leftarrow> set_head sc (\<lambda>h. h\<lparr>refill_time := ct\<rparr>);
          sc \<leftarrow> noblock_merge_loop ct sc;
          suf \<leftarrow> refill_sufficient sc 0;
          assertK suf;
          Some sc }
        else Some sc })"

declare refill_ordered_loop.simps [code] refill_sum_loop.simps [code] budget_exhaust_loop.simps [code]
  budget_merge_loop.simps [code] noblock_merge_loop.simps [code]

section \<open>Abstraction to a list\<close>

definition ring :: "'a list \<Rightarrow> nat \<Rightarrow> nat \<Rightarrow> nat \<Rightarrow> 'a list" where
  "ring buf m h n = map (\<lambda>i. buf ! ((h + i) mod m)) [0..<n]"

definition sc_ok :: "thread_sched \<Rightarrow> bool" where
  "sc_ok sc \<longleftrightarrow> unat (refill_max sc) \<le> NUM_SCHED_REFILLS \<and> refill_head sc < refill_max sc
     \<and> refill_tail sc < refill_max sc \<and> length (refill_buffer sc) = NUM_SCHED_REFILLS"

definition refills :: "thread_sched \<Rightarrow> refill list" where
  "refills sc = ring (refill_buffer sc) (unat (refill_max sc)) (unat (refill_head sc)) (unat (refill_size sc))"

definition sc_rep :: "thread_sched \<Rightarrow> refill list \<Rightarrow> ticks_t \<Rightarrow> ticks_t \<Rightarrow> nat \<Rightarrow> bool" where
  "sc_rep sc rs p c m \<longleftrightarrow>
     sc_ok sc \<and> refills sc = rs \<and> period sc = p \<and> consumed sc = c \<and> unat (refill_max sc) = m"

subsection \<open>The generic circular buffer\<close>

lemma length_ring [simp]: "length (ring buf m h n) = n"
  by (simp add: ring_def)

lemma ring_0 [simp]: "ring buf m h 0 = []"
  by (simp add: ring_def)

lemma ring_nth [simp]: "i < n \<Longrightarrow> ring buf m h n ! i = buf ! ((h + i) mod m)"
  by (simp add: ring_def)

lemma ring_Suc_snoc: "ring buf m h (Suc n) = ring buf m h n @ [buf ! ((h + n) mod m)]"
  by (simp add: ring_def)

lemma ring_Suc_Cons: "h < m \<Longrightarrow> ring buf m h (Suc n) = buf ! h # ring buf m (Suc h mod m) n"
  by (rule nth_equalityI) (auto simp: ring_def nth_Cons mod_simps split: nat.splits simp del: upt_Suc)

lemma slot_inj: "\<lbrakk>h < m; i < m; j < m; (h + i) mod m = (h + j) mod m\<rbrakk> \<Longrightarrow> i = (j::nat)"
  by (auto simp: mod_if split: if_splits)

lemma slot_neq: "\<lbrakk>h < m; i < m; j < m; i \<noteq> j\<rbrakk> \<Longrightarrow> (h + i) mod m \<noteq> (h + j) mod (m::nat)"
  using slot_inj by blast

lemma ring_update:
  assumes "h < m" "i < n" "n \<le> m" "m \<le> length buf"
  shows "ring (buf[(h + i) mod m := v]) m h n = (ring buf m h n)[i := v]"
proof (rule nth_equalityI)
  fix j assume "j < length (ring (buf[(h + i) mod m := v]) m h n)"
  moreover have "(h + i) mod m < length buf"
    using assms mod_less_divisor[of m "h + i"] by linarith
  ultimately show "ring (buf[(h + i) mod m := v]) m h n ! j = (ring buf m h n)[i := v] ! j"
    using assms slot_neq[of h m i j] by (cases "i = j") auto
qed simp

lemma ring_update_out:
  "\<lbrakk>h < m; n < m\<rbrakk> \<Longrightarrow> ring (buf[(h + n) mod m := v]) m h n = ring buf m h n"
  by (rule nth_equalityI) (simp_all add: slot_neq)

subsection \<open>Indices of a well-formed scheduling context\<close>

lemma sc_okD:
  assumes "sc_ok sc"
  shows "0 < unat (refill_max sc)" "unat (refill_max sc) \<le> 8"
    "unat (refill_head sc) < unat (refill_max sc)" "unat (refill_tail sc) < unat (refill_max sc)"
    "length (refill_buffer sc) = 8"
  using assms by (auto simp: sc_ok_def NUM_SCHED_REFILLS_def word_less_nat)

lemma unat_refill_size:
  assumes "sc_ok sc"
  shows "unat (refill_size sc) =
    (if unat (refill_head sc) \<le> unat (refill_tail sc)
     then unat (refill_tail sc) - unat (refill_head sc) + 1
     else unat (refill_tail sc) + 1 + (unat (refill_max sc) - unat (refill_head sc)))"
  using sc_okD[OF assms]
  by (auto simp: refill_size_def word_le_nat unat_sub unat_word_ariths)

lemma refill_size_bounds:
  assumes "sc_ok sc"
  shows "0 < unat (refill_size sc)" "unat (refill_size sc) \<le> unat (refill_max sc)"
  using sc_okD[OF assms] by (auto simp: unat_refill_size[OF assms])

lemma tail_slot:
  assumes "sc_ok sc"
  shows "(unat (refill_head sc) + (unat (refill_size sc) - 1)) mod unat (refill_max sc) = unat (refill_tail sc)"
  using sc_okD[OF assms] by (auto simp: unat_refill_size[OF assms] mod_if)

lemma tail_slot_Suc:
  "\<lbrakk>sc_ok sc; unat (refill_size sc) = Suc n\<rbrakk>
   \<Longrightarrow> (unat (refill_head sc) + n) mod unat (refill_max sc) = unat (refill_tail sc)"
  using tail_slot[of sc] by simp

lemma unat_refill_next:
  assumes "sc_ok sc" "i < refill_max sc"
  shows "unat (refill_next sc i) = Suc (unat i) mod unat (refill_max sc)"
proof -
  have "unat (refill_max sc - 1) = unat (refill_max sc) - 1"
    using sc_okD(1)[OF assms(1)] by (simp add: unat_sub word_le_nat)
  moreover have "unat (i + 1) = Suc (unat i)" if "unat i < 8"
    using that by (simp add: unat_word_ariths)
  ultimately show ?thesis
    using sc_okD[OF assms(1)] assms(2)
    by (auto simp: refill_next_def word_eq_nat word_less_nat mod_if)
qed

lemma refill_next_less:
  "\<lbrakk>sc_ok sc; i < refill_max sc\<rbrakk> \<Longrightarrow> refill_next sc i < refill_max sc"
  using unat_refill_next[of sc i] sc_okD(1)[of sc] by (simp add: word_less_nat)

subsection \<open>Accessors on the list\<close>

lemma length_refills: "length (refills sc) = unat (refill_size sc)"
  by (simp add: refills_def)

lemma refills_ne: "sc_ok sc \<Longrightarrow> refills sc \<noteq> []"
  using refill_size_bounds(1)[of sc] length_refills[of sc] by auto

lemma REFILL_HEAD_refills:
  assumes "sc_ok sc"
  shows "REFILL_HEAD sc = Some (hd (refills sc))"
  using sc_okD[OF assms] refill_size_bounds[OF assms] refills_ne[OF assms]
  by (simp add: REFILL_HEAD_def REFILL_INDEX_def hd_conv_nth refills_def)

lemma REFILL_TAIL_refills:
  assumes "sc_ok sc"
  shows "REFILL_TAIL sc = Some (last (refills sc))"
  using sc_okD[OF assms] refill_size_bounds[OF assms] refills_ne[OF assms] tail_slot[OF assms]
  by (simp add: REFILL_TAIL_def REFILL_INDEX_def last_conv_nth refills_def)

lemma refill_single_refills:
  assumes "sc_ok sc"
  shows "refill_single sc \<longleftrightarrow> length (refills sc) = 1"
  using sc_okD[OF assms]
  by (auto simp: refill_single_def length_refills unat_refill_size[OF assms] word_eq_nat)

lemma refill_full_refills: "refill_full sc \<longleftrightarrow> length (refills sc) = unat (refill_max sc)"
  by (simp add: refill_full_def length_refills word_eq_nat)

lemma REFILL_NEXT_refills:
  assumes "sc_ok sc" "1 < length (refills sc)"
  shows "REFILL_INDEX sc (refill_next sc (refill_head sc)) = Some (refills sc ! 1)"
proof -
  have "refill_head sc < refill_max sc"
    using assms(1) by (simp add: sc_ok_def)
  then have "unat (refill_next sc (refill_head sc)) < length (refill_buffer sc)"
    using refill_next_less[OF assms(1)] sc_okD[OF assms(1)] by (fastforce simp: word_less_nat)
  then show ?thesis
    using unat_refill_next[OF assms(1) \<open>refill_head sc < refill_max sc\<close>] assms(2)
    by (simp add: REFILL_INDEX_def refills_def)
qed

lemma sc_ok_buffer [simp]:
  "sc_ok (sc\<lparr>refill_buffer := b\<rparr>) \<longleftrightarrow> unat (refill_max sc) \<le> NUM_SCHED_REFILLS \<and> refill_head sc < refill_max sc
     \<and> refill_tail sc < refill_max sc \<and> length b = NUM_SCHED_REFILLS"
  by (simp add: sc_ok_def)

lemma refill_size_buffer [simp]: "refill_size (sc\<lparr>refill_buffer := b\<rparr>) = refill_size sc"
  by (simp add: refill_size_def)

subsection \<open>Refinement of the primitive operations\<close>

lemma sc_repD:
  assumes "sc_rep sc rs p c m"
  shows "sc_ok sc" "refills sc = rs" "period sc = p" "consumed sc = c" "unat (refill_max sc) = m"
    "rs \<noteq> []" "length rs \<le> m" "length rs = unat (refill_size sc)" "m \<le> 8"
  using assms refills_ne[of sc] refill_size_bounds[of sc] sc_okD[of sc]
  by (auto simp: sc_rep_def length_refills)

lemma rep_head: "sc_rep sc (r # rs) p c m \<Longrightarrow> REFILL_HEAD sc = Some r"
  using REFILL_HEAD_refills[of sc] by (simp add: sc_rep_def)

lemma rep_tail: "sc_rep sc rs p c m \<Longrightarrow> REFILL_TAIL sc = Some (last rs)"
  using REFILL_TAIL_refills[of sc] by (simp add: sc_rep_def)

lemma rep_single: "sc_rep sc rs p c m \<Longrightarrow> refill_single sc \<longleftrightarrow> length rs = 1"
  using refill_single_refills[of sc] by (simp add: sc_rep_def)

lemma rep_full: "sc_rep sc rs p c m \<Longrightarrow> refill_full sc \<longleftrightarrow> length rs = m"
  using refill_full_refills[of sc] by (simp add: sc_rep_def)

lemma rep_next: "sc_rep sc (r # r' # rs) p c m
  \<Longrightarrow> REFILL_INDEX sc (refill_next sc (refill_head sc)) = Some r'"
  using REFILL_NEXT_refills[of sc] by (simp add: sc_rep_def)

lemma rep_ready: "sc_rep sc (r # rs) p c m
  \<Longrightarrow> refill_ready ct sc = Some (refill_time r \<le> ct + get_kernel_wcet_ticks)"
  by (simp add: refill_ready_def rep_head)

lemma rep_capacity: "sc_rep sc (r # rs) p c m
  \<Longrightarrow> refill_capacity sc u = Some (if u > refill_amount r then 0 else refill_amount r - u)"
  by (simp add: refill_capacity_def rep_head)

lemma rep_period: "sc_rep sc rs p c m \<Longrightarrow> period sc = p"
  by (simp add: sc_rep_def)

lemmas rep_access = rep_head rep_tail rep_single rep_full rep_next rep_ready rep_capacity rep_period

lemma rep_set_slot:
  assumes "sc_rep sc rs p c m" "i < length rs"
    and "unat k = (unat (refill_head sc) + i) mod m"
  shows "\<exists>sc'. set_refill sc k v = Some sc' \<and> sc_rep sc' (rs[i := v]) p c m"
proof -
  note D = sc_repD[OF assms(1)] sc_okD[OF sc_repD(1)[OF assms(1)]]
  let ?sc = "sc\<lparr>refill_buffer := (refill_buffer sc)[unat k := v]\<rparr>"
  have "unat k < m"
    using assms(3) D by simp
  then have "set_refill sc k v = Some ?sc"
    using D by (simp add: set_refill_def)
  moreover have "refills ?sc = rs[i := v]"
    using D assms(2,3) by (simp add: refills_def ring_update flip: D(2))
  moreover have "sc_ok ?sc"
    using D(1) by (simp add: sc_ok_def)
  ultimately show ?thesis
    using D by (simp add: sc_rep_def)
qed

lemma rep_tail_slot:
  "sc_rep sc (rs @ [r]) p c m \<Longrightarrow> unat (refill_tail sc) = (unat (refill_head sc) + length rs) mod m"
  using tail_slot[of sc] sc_repD[of sc "rs @ [r]" p c m]
  by (metis add_diff_cancel_right' length_append_singleton Suc_eq_plus1)

lemma rep_set_head:
  assumes "sc_rep sc (r # rs) p c m"
  shows "\<exists>sc'. set_head sc f = Some sc' \<and> sc_rep sc' (f r # rs) p c m"
  using rep_set_slot[OF assms, of 0 "refill_head sc" "f r"] sc_okD[OF sc_repD(1)[OF assms]] sc_repD(5)[OF assms]
  by (simp add: set_head_def rep_head[OF assms])

lemma rep_set_tail:
  assumes "sc_rep sc (rs @ [r]) p c m"
  shows "\<exists>sc'. set_tail sc f = Some sc' \<and> sc_rep sc' (rs @ [f r]) p c m"
  using rep_set_slot[OF assms, of "length rs" "refill_tail sc" "f r"] rep_tail_slot[OF assms]
  by (simp add: set_tail_def rep_tail[OF assms])

lemma rep_pop_head:
  assumes "sc_rep sc (r # rs) p c m" "rs \<noteq> []"
  shows "\<exists>sc'. refill_pop_head sc = Some (r, sc') \<and> sc_rep sc' rs p c m"
proof -
  note ok = sc_repD(1)[OF assms(1)] and D = sc_repD[OF assms(1)]
  let ?sc = "sc\<lparr>refill_head := refill_next sc (refill_head sc)\<rparr>"
  have less: "refill_next sc (refill_head sc) < refill_max sc"
    using refill_next_less[OF ok] ok by (simp add: sc_ok_def)
  have nxt: "unat (refill_next sc (refill_head sc)) = Suc (unat (refill_head sc)) mod m"
    using unat_refill_next[OF ok] ok D by (simp add: sc_ok_def)
  have ok': "sc_ok ?sc"
    using ok less by (simp add: sc_ok_def)
  have sz: "unat (refill_size ?sc) = length rs"
    using D assms(2) unat_refill_size[OF ok] unat_refill_size[OF ok'] nxt sc_okD[OF ok]
    by (auto simp: mod_if split: if_splits)
  have "refills sc = refill_buffer sc ! unat (refill_head sc) # ring (refill_buffer sc) m (Suc (unat (refill_head sc)) mod m) (length rs)"
    using ring_Suc_Cons[of "unat (refill_head sc)" m "refill_buffer sc" "length rs"] sc_okD[OF ok] D(5)
    by (simp add: refills_def flip: D(8))
  then have "refills ?sc = rs"
    using D by (simp add: refills_def sz nxt)
  then show ?thesis
    using D(1-5) ok' less assms(2) by (simp add: refill_pop_head_def rep_head[OF assms(1)] rep_single[OF assms(1)] sc_rep_def)
qed

lemma rep_add_tail:
  assumes "sc_rep sc rs p c m" "length rs < m"
  shows "\<exists>sc'. refill_add_tail sc r = Some sc' \<and> sc_rep sc' (rs @ [r]) p c m"
proof -
  note ok = sc_repD(1)[OF assms(1)] and D = sc_repD[OF assms(1)]
  let ?sc = "sc\<lparr>refill_tail := refill_next sc (refill_tail sc)\<rparr>"
  have less: "refill_next sc (refill_tail sc) < refill_max sc"
    using refill_next_less[OF ok] ok by (simp add: sc_ok_def)
  have nxt: "unat (refill_next sc (refill_tail sc)) = Suc (unat (refill_tail sc)) mod m"
    using unat_refill_next[OF ok] ok D by (simp add: sc_ok_def)
  have ok': "sc_ok ?sc"
    using ok less by (simp add: sc_ok_def)
  have sz: "unat (refill_size ?sc) = Suc (length rs)"
    using D assms(2) unat_refill_size[OF ok] unat_refill_size[OF ok'] nxt sc_okD[OF ok]
    by (auto simp: mod_if split: if_splits)
  have "refills ?sc = rs @ [refill_buffer sc ! unat (refill_next sc (refill_tail sc))]"
    using D tail_slot[OF ok'] by (simp add: refills_def sz ring_Suc_snoc)
  then have rep: "sc_rep ?sc (rs @ [refill_buffer sc ! unat (refill_next sc (refill_tail sc))]) p c m"
    using D ok' by (simp add: sc_rep_def)
  have "\<exists>sc'. set_refill ?sc (refill_tail ?sc) r = Some sc' \<and> sc_rep sc' (rs @ [r]) p c m"
    using rep_set_slot[OF rep, of "length rs" "refill_tail ?sc" r] rep_tail_slot[OF rep] by simp
  then show ?thesis
    using D assms(2) less sc_repD(5)
    by (fastforce simp: refill_add_tail_def word_less_nat Let_def)
qed

section \<open>List level specification\<close>

definition refill_total :: "refill list \<Rightarrow> nat" where
  "refill_total rs = sum_list (map (\<lambda>r. unat (refill_amount r)) rs)"

definition ordered :: "refill list \<Rightarrow> bool" where
  "ordered rs = sorted (map refill_time rs)"

definition used_list :: "refill \<Rightarrow> refill list \<Rightarrow> refill list" where
  "used_list new rs = (let t = last rs in
     if refill_amount new < MIN_BUDGET \<and> length rs \<noteq> 1
     then butlast rs @ [t\<lparr>refill_amount := refill_amount t + refill_amount new,
                          refill_time := max (refill_time new) (refill_time t)\<rparr>]
     else if refill_time new \<le> refill_time t
     then butlast rs @ [t\<lparr>refill_amount := refill_amount t + refill_amount new\<rparr>]
     else rs @ [new])"

definition rotate_list :: "ticks_t \<Rightarrow> refill list \<Rightarrow> refill list" where
  "rotate_list p rs = (let h = hd rs; h' = h\<lparr>refill_time := refill_time h + p\<rparr> in
     if tl rs = [] then [h'] else used_list h' (tl rs))"

definition split_list :: "nat \<Rightarrow> ticks_t \<Rightarrow> ticks_t \<Rightarrow> refill list \<Rightarrow> refill list" where
  "split_list m p u rs = (let h = hd rs; remnant = refill_amount h - u;
       new = \<lparr>refill_time = refill_time h + p, refill_amount = u\<rparr> in
     if length rs = m \<or> remnant < MIN_BUDGET
     then if tl rs = [] then [new\<lparr>refill_amount := u + remnant\<rparr>]
          else let n = hd (tl rs) in
               used_list new (n\<lparr>refill_amount := refill_amount n + remnant\<rparr> # tl (tl rs))
     else used_list new (h\<lparr>refill_amount := remnant\<rparr> # tl rs))"

lemma refill_total_simps [simp]:
  "refill_total [] = 0"
  "refill_total (r # rs) = unat (refill_amount r) + refill_total rs"
  "refill_total (rs @ rs') = refill_total rs + refill_total rs'"
  by (simp_all add: refill_total_def)

lemma ordered_simps [simp]:
  "ordered []"
  "ordered [r]"
  "ordered (r # r' # rs) \<longleftrightarrow> refill_time r \<le> refill_time r' \<and> ordered (r' # rs)"
  by (auto simp: ordered_def)

lemma ordered_tl: "ordered (r # rs) \<Longrightarrow> ordered rs"
  by (simp add: ordered_def)

lemma ordered_snoc: "ordered (rs @ [r]) \<longleftrightarrow> ordered rs \<and> (\<forall>x \<in> set rs. refill_time x \<le> refill_time r)"
  by (auto simp: ordered_def sorted_append)

lemma ordered_snoc2: "ordered (rs @ [r, r']) \<longleftrightarrow> ordered (rs @ [r]) \<and> refill_time r \<le> refill_time r'"
  by (auto simp: ordered_def sorted_append intro: order_trans)

lemma ordered_hd_amount [simp]:
  "ordered (r\<lparr>refill_amount := a\<rparr> # rs) = ordered (r # rs)"
  by (simp add: ordered_def)

lemma total_pos_ne: "0 < refill_total rs \<Longrightarrow> rs \<noteq> []"
  by auto

lemma used_list_ne [simp]: "used_list new rs \<noteq> []"
  by (simp add: used_list_def Let_def)

lemma used_list_total:
  assumes "rs \<noteq> []" "unat (refill_amount new) + refill_total rs < 2 ^ 64"
  shows "refill_total (used_list new rs) = unat (refill_amount new) + refill_total rs"
proof -
  obtain ys t where rs: "rs = ys @ [t]"
    using assms(1) by (metis append_butlast_last_id)
  have "unat (refill_amount t + refill_amount new) = unat (refill_amount t) + unat (refill_amount new)"
    using assms(2) by (intro unat_plus_no_overflow) (simp add: rs)
  then show ?thesis
    by (simp add: used_list_def rs Let_def)
qed

lemma used_list_ordered:
  assumes "rs \<noteq> []" "ordered rs"
  shows "ordered (used_list new rs)"
proof -
  obtain ys t where "rs = ys @ [t]"
    using assms(1) by (metis append_butlast_last_id)
  then show ?thesis
    using assms(2)
    by (auto simp: used_list_def Let_def ordered_snoc ordered_snoc2 le_max_iff_disj)
qed

lemma used_list_length: "rs \<noteq> [] \<Longrightarrow> length (used_list new rs) \<le> Suc (length rs)"
  by (simp add: used_list_def Let_def)

lemma used_list_small:
  "\<lbrakk>refill_amount new < MIN_BUDGET; length rs \<noteq> 1; rs \<noteq> []\<rbrakk> \<Longrightarrow> length (used_list new rs) = length rs"
  by (simp add: used_list_def Let_def)

section \<open>Refinement of the compound operations\<close>

lemma rep_schedule_used:
  assumes "sc_rep sc rs p c m" "length rs < m"
  shows "\<exists>sc'. schedule_used sc new = Some sc' \<and> sc_rep sc' (used_list new rs) p c m"
proof -
  obtain ys t where rs: "rs = ys @ [t]"
    using sc_repD(6)[OF assms(1)] by (metis append_butlast_last_id)
  note rep = assms(1)[unfolded rs]
  obtain sc1 where sc1: "set_tail sc (\<lambda>t. t\<lparr>refill_amount := refill_amount t + refill_amount new\<rparr>) = Some sc1"
      "sc_rep sc1 (ys @ [t\<lparr>refill_amount := refill_amount t + refill_amount new\<rparr>]) p c m"
    using rep_set_tail[OF rep] by blast
  obtain sc2 where sc2: "set_tail sc1 (\<lambda>t. t\<lparr>refill_time := max (refill_time new) (refill_time t)\<rparr>) = Some sc2"
      "sc_rep sc2 (ys @ [t\<lparr>refill_amount := refill_amount t + refill_amount new,
                          refill_time := max (refill_time new) (refill_time t)\<rparr>]) p c m"
    using rep_set_tail[OF sc1(2), of "\<lambda>t. t\<lparr>refill_time := max (refill_time new) (refill_time t)\<rparr>"] by auto
  obtain sc3 where "refill_add_tail sc new = Some sc3" "sc_rep sc3 (rs @ [new]) p c m"
    using rep_add_tail[OF assms] by blast
  then show ?thesis
    using sc1 sc2 by (simp add: schedule_used_def rep_tail[OF rep] rep_single[OF rep] used_list_def rs Let_def)
qed

lemma rep_read:
  assumes "sc_rep sc rs p c m" "j < length rs" "unat k = (unat (refill_head sc) + j) mod m"
  shows "REFILL_INDEX sc k = Some (rs ! j)"
proof -
  note D = sc_repD[OF assms(1)] sc_okD[OF sc_repD(1)[OF assms(1)]]
  have "unat k < m"
    using assms(3) D by simp
  moreover have "rs ! j = refill_buffer sc ! unat k"
    using assms(2,3) D by (metis refills_def ring_nth)
  ultimately show ?thesis
    using D by (simp add: REFILL_INDEX_def)
qed

lemma rep_ordered_loop:
  assumes "sc_rep sc rs p c m" "i < length rs"
    and "unat k = (unat (refill_head sc) + i) mod m"
  shows "refill_ordered_loop sc k (refill_next sc k) = Some (ordered (drop i rs))"
  using assms(2,3)
proof (induction "length rs - i" arbitrary: i k)
  case (Suc n)
  note D = sc_repD[OF assms(1)] sc_okD[OF sc_repD(1)[OF assms(1)]]
  have k: "unat k < m" "k < refill_max sc"
    using Suc.prems D by (simp_all add: word_less_nat)
  have nxt: "unat (refill_next sc k) = (unat (refill_head sc) + Suc i) mod m"
    using unat_refill_next[OF D(1) k(2)] Suc.prems D by (simp add: mod_Suc_eq)
  show ?case
  proof (cases "Suc i = length rs")
    case True
    then have "k = refill_tail sc"
      using Suc.prems(2) D(5,8) tail_slot_Suc[OF D(1), of i] by (simp add: word_eq_nat)
    moreover have "drop i rs = [rs ! i]"
      using True by (metis Cons_nth_drop_Suc Suc.prems(1) drop_all order_refl)
    ultimately show ?thesis
      by (subst refill_ordered_loop.simps) simp
  next
    case False
    then have lt: "Suc i < length rs"
      using Suc.prems by simp
    then have "k \<noteq> refill_tail sc"
      using Suc.prems D tail_slot[OF D(1)] slot_neq[of "unat (refill_head sc)" m i "length rs - 1"]
      by (simp add: word_eq_nat)
    moreover have "drop i rs = rs ! i # rs ! Suc i # drop (Suc (Suc i)) rs"
      "drop (Suc i) rs = rs ! Suc i # drop (Suc (Suc i)) rs"
      using lt by (simp_all add: Cons_nth_drop_Suc)
    ultimately show ?thesis
      using Suc.hyps(1)[OF _ lt nxt] Suc.hyps(2) rep_read[OF assms(1) Suc.prems] rep_read[OF assms(1) lt nxt] lt
      by (subst refill_ordered_loop.simps) simp
  qed
qed simp

lemma rep_ordered:
  assumes "sc_rep sc rs p c m"
  shows "refill_ordered sc = Some (ordered rs)"
  using rep_ordered_loop[OF assms, of 0 "refill_head sc"] sc_repD(5,6)[OF assms] sc_okD[OF sc_repD(1)[OF assms]]
  by (simp add: refill_ordered_def)

lemma rep_split_check:
  assumes rep: "sc_rep sc rs p c m" and u: "0 < u" "u \<le> refill_amount (hd rs)" and "0 < p" "ordered rs"
  shows "\<exists>sc'. refill_split_check sc u = Some sc' \<and> sc_rep sc' (split_list m p u rs) p c m"
proof -
  obtain h rs' where rs: "rs = h # rs'"
    using sc_repD(6)[OF rep] by (cases rs) auto
  note rep = rep[unfolded rs]
  let ?new = "\<lparr>refill_time = refill_time h + p, refill_amount = u\<rparr>"
  note simps = refill_split_check_def rep_head[OF rep] rep_single[OF rep] rep_period[OF rep]
    split_list_def rs Let_def
  have full: "refill_size sc = refill_max sc \<longleftrightarrow> length rs = m"
    using rep_full[OF rep] by (simp add: refill_full_def rs)
  consider (split) "length rs \<noteq> m" "\<not> refill_amount h - u < MIN_BUDGET"
    | (single) "length rs = m \<or> refill_amount h - u < MIN_BUDGET" "rs' = []"
    | (merge) n rs'' where "length rs = m \<or> refill_amount h - u < MIN_BUDGET" "rs' = n # rs''"
    by (cases rs') auto
  then show ?thesis
  proof cases
    case split
    obtain sc1 where sc1: "set_head sc (\<lambda>h. h\<lparr>refill_amount := refill_amount (hd rs) - u\<rparr>) = Some sc1"
      "sc_rep sc1 (h\<lparr>refill_amount := refill_amount h - u\<rparr> # rs') p c m"
      using rep_set_head[OF rep] rs by fastforce
    then show ?thesis
      using split u \<open>0 < p\<close> rep_schedule_used[OF sc1(2), of ?new] sc_repD(7)[OF rep] full
      by (auto simp: simps)
  next
    case single
    obtain sc1 where sc1: "set_head sc (\<lambda>_. ?new\<lparr>refill_amount := u + (refill_amount h - u)\<rparr>) = Some sc1"
      "sc_rep sc1 [?new\<lparr>refill_amount := u + (refill_amount h - u)\<rparr>] p c m"
      using rep_set_head[OF rep] single by blast
    then show ?thesis
      using single u \<open>0 < p\<close> rep_ordered[OF sc1(2)] full by (auto simp: simps)
  next
    case merge
    obtain sc1 where sc1: "refill_pop_head sc = Some (h, sc1)" "sc_rep sc1 rs' p c m"
      using rep_pop_head[OF rep] merge by blast
    obtain sc2 where sc2: "set_head sc1 (\<lambda>r. r\<lparr>refill_amount := refill_amount r + (refill_amount h - u)\<rparr>) = Some sc2"
      "sc_rep sc2 (n\<lparr>refill_amount := refill_amount n + (refill_amount h - u)\<rparr> # rs'') p c m"
      using rep_set_head sc1(2) merge by blast
    obtain sc3 where sc3: "schedule_used sc2 ?new = Some sc3"
      "sc_rep sc3 (used_list ?new (n\<lparr>refill_amount := refill_amount n + (refill_amount h - u)\<rparr> # rs'')) p c m"
      using rep_schedule_used[OF sc2(2), of ?new] sc_repD(7)[OF rep] merge by auto
    have "ordered (used_list ?new (n\<lparr>refill_amount := refill_amount n + (refill_amount h - u)\<rparr> # rs''))"
      using \<open>ordered rs\<close> merge rs by (intro used_list_ordered) auto
    then show ?thesis
      using merge u \<open>0 < p\<close> rep_ordered[OF sc3(2)] full sc1 sc2 sc3 by (auto simp: simps)
  qed
qed

lemma split_list_total:
  assumes "rs \<noteq> []" "u \<le> refill_amount (hd rs)" "refill_total rs < 2 ^ 64"
  shows "refill_total (split_list m p u rs) = refill_total rs"
proof -
  obtain h rs' where rs: "rs = h # rs'"
    using assms(1) by (cases rs) auto
  have rem: "unat (refill_amount h - u) = unat (refill_amount h) - unat u" "unat u \<le> unat (refill_amount h)"
    using assms(2) by (auto simp: rs word_le_nat unat_sub)
  have add: "unat (refill_amount n + (refill_amount h - u)) = unat (refill_amount n) + (unat (refill_amount h) - unat u)"
    if "rs' = n # xs" for n xs
    using that assms(3) rem by (subst unat_plus_no_overflow) (auto simp: rs)
  show ?thesis
    using assms(3) rem add
    by (cases rs') (auto simp: split_list_def rs Let_def used_list_total)
qed

lemma split_list_ordered:
  assumes "rs \<noteq> []" "ordered rs"
  shows "ordered (split_list m p u rs)"
  using assms by (cases rs; cases "tl rs") (auto simp: split_list_def Let_def intro!: used_list_ordered dest: ordered_tl)

subsection \<open>Charging usage\<close>

lemma rep_exhaust_step:
  assumes rep: "sc_rep sc (h # rs) p c m"
  shows "\<exists>sc'. (if refill_single sc
              then set_head sc (\<lambda>h. h\<lparr>refill_time := refill_time h + period sc\<rparr>)
              else do {
                (old_head, sc) \<leftarrow> refill_pop_head sc;
                schedule_used sc (old_head\<lparr>refill_time := refill_time old_head + period sc\<rparr>) }) = Some sc'
       \<and> sc_rep sc' (rotate_list p (h # rs)) p c m"
proof (cases "rs = []")
  case True
  then show ?thesis
    using rep_set_head[OF rep, of "\<lambda>h. h\<lparr>refill_time := refill_time h + p\<rparr>"]
    by (simp add: rep_single[OF rep] rep_period[OF rep] rotate_list_def Let_def)
next
  case False
  obtain sc1 where sc1: "refill_pop_head sc = Some (h, sc1)" "sc_rep sc1 rs p c m"
    using rep_pop_head[OF rep False] by blast
  then show ?thesis
    using False rep_schedule_used[OF sc1(2)] sc_repD(7)[OF rep]
    by (simp add: rep_single[OF rep] rep_period[OF sc1(2)] rotate_list_def Let_def)
qed

lemma rotate_list_total:
  "\<lbrakk>rs \<noteq> []; refill_total rs < 2 ^ 64\<rbrakk> \<Longrightarrow> refill_total (rotate_list p rs) = refill_total rs"
  by (cases rs) (auto simp: rotate_list_def Let_def used_list_total)

lemma rotate_list_ordered: "\<lbrakk>rs \<noteq> []; ordered rs\<rbrakk> \<Longrightarrow> ordered (rotate_list p rs)"
  by (cases rs) (auto simp: rotate_list_def Let_def intro!: used_list_ordered dest: ordered_tl)

definition exhaust_measure :: "refill list \<Rightarrow> ticks_t \<Rightarrow> nat" where
  "exhaust_measure rs u = 20 * unat u + 2 * length rs + (if refill_amount (hd rs) = 0 then 1 else 0)"

lemma MIN_BUDGET_pos [simp]: "0 < MIN_BUDGET"
  by (simp add: MIN_BUDGET_def get_kernel_wcet_ticks_def KERNEL_WCET_SCALE_def)

lemma exhaust_measure_decreases:
  assumes "refill_amount h \<le> u" "0 < refill_total (h # rs)" "length (h # rs) \<le> 8"
    and "length (rotate_list p (h # rs)) \<le> 8"
  shows "exhaust_measure (rotate_list p (h # rs)) (u - refill_amount h) < exhaust_measure (h # rs) u"
proof (cases "refill_amount h = 0")
  case True
  show ?thesis
  proof (cases "length rs = 1")
    case True
    then obtain x where "rs = [x]"
      by (auto simp: length_Suc_conv)
    then show ?thesis
      using assms(2) \<open>refill_amount h = 0\<close>
      by (auto simp: exhaust_measure_def rotate_list_def used_list_def Let_def unat_gt_0)
  next
    case False
    moreover have "rs \<noteq> []"
      using assms(2) \<open>refill_amount h = 0\<close> by auto
    ultimately show ?thesis
      using \<open>refill_amount h = 0\<close>
      by (simp add: exhaust_measure_def rotate_list_def Let_def used_list_small)
  qed
next
  case False
  have "unat (u - refill_amount h) < unat u"
    using assms(1) False by (metis unat_sub word_le_nat diff_less unat_gt_0 le_zero_eq linorder_not_less)
  then show ?thesis
    using assms(4) by (auto simp: exhaust_measure_def)
qed

lemma rep_exhaust_loop:
  assumes "sc_rep sc rs p c m" "0 < refill_total rs" "refill_total rs < 2 ^ 64"
  shows "\<exists>sc' rs' u'. budget_exhaust_loop sc u = Some (sc', u') \<and> sc_rep sc' rs' p c m
    \<and> refill_total rs' = refill_total rs \<and> u' \<le> u \<and> u' < refill_amount (hd rs')
    \<and> (ordered rs \<longrightarrow> ordered rs')"
  using assms
proof (induction "exhaust_measure rs u" arbitrary: rs u sc rule: less_induct)
  case less
  obtain h ys where rs: "rs = h # ys"
    using sc_repD(6)[OF less.prems(1)] by (cases rs) auto
  note rep = less.prems(1)[unfolded rs]
  show ?case
  proof (cases "refill_amount h \<le> u")
    case False
    then show ?thesis
      using less.prems rs by (subst budget_exhaust_loop.simps) (auto simp: rep_head[OF rep])
  next
    case True
    let ?rs = "rotate_list p rs"
    obtain sc1 where sc1: "(if refill_single sc
              then set_head sc (\<lambda>h. h\<lparr>refill_time := refill_time h + period sc\<rparr>)
              else do {
                (old_head, sc) \<leftarrow> refill_pop_head sc;
                schedule_used sc (old_head\<lparr>refill_time := refill_time old_head + period sc\<rparr>) }) = Some sc1"
      "sc_rep sc1 ?rs p c m"
      using rep_exhaust_step[OF rep] rs by blast
    have tot: "refill_total ?rs = refill_total rs"
      using rotate_list_total less.prems(3) rs by blast
    have "exhaust_measure ?rs (u - refill_amount h) < exhaust_measure rs u"
      using exhaust_measure_decreases[OF True] less.prems(2) rs sc_repD(7,9)[OF rep] sc_repD(7,9)[OF sc1(2)] by simp
    from less.hyps[OF this sc1(2)] obtain sc' rs' u' where
      "budget_exhaust_loop sc1 (u - refill_amount h) = Some (sc', u')" "sc_rep sc' rs' p c m"
      "refill_total rs' = refill_total rs" "u' \<le> u - refill_amount h" "u' < refill_amount (hd rs')"
      "ordered ?rs \<longrightarrow> ordered rs'"
      using less.prems tot by auto
    moreover have "u - refill_amount h \<le> u"
      using True by (simp add: word_sub_le)
    moreover have "ordered rs \<Longrightarrow> ordered ?rs"
      using rotate_list_ordered rs by blast
    ultimately show ?thesis
      using True sc1 rs
      by (intro exI[of _ sc'] exI[of _ rs'] exI[of _ u'], subst budget_exhaust_loop.simps)
        (auto simp: rep_head[OF rep])
  qed
qed

lemma rep_budget_overrun:
  assumes rep: "sc_rep sc rs p c m" and tot: "refill_total rs < 2 ^ 64"
  shows "\<exists>sc' rs'. budget_overrun sc u = Some sc' \<and> sc_rep sc' rs' p c m \<and> refill_total rs' = refill_total rs
    \<and> refill_amount (hd rs) \<le> refill_amount (hd rs')
    \<and> (refill_time (hd rs') = refill_time (hd rs) + u)"
proof (cases "u = 0")
  case True
  then show ?thesis
    using rep by (auto simp: budget_overrun_def)
next
  case False
  then have True: "0 < u"
    by (simp add: word_gt_0)
  obtain h ys where rs: "rs = h # ys"
    using sc_repD(6)[OF rep] by (cases rs) auto
  let ?h = "h\<lparr>refill_time := refill_time h + u\<rparr>"
  obtain sc1 where sc1: "set_head sc (\<lambda>h. h\<lparr>refill_time := refill_time h + u\<rparr>) = Some sc1"
    "sc_rep sc1 (?h # ys) p c m"
    using rep_set_head rep rs by blast
  show ?thesis
  proof (cases ys)
    case Nil
    then show ?thesis
      using True sc1 rs rep_single[OF sc1(2)] by (auto simp: budget_overrun_def)
  next
    case (Cons n zs)
    obtain sc2 where sc2: "refill_pop_head sc1 = Some (?h, sc2)" "sc_rep sc2 ys p c m"
      using rep_pop_head[OF sc1(2)] Cons by blast
    obtain sc3 where sc3: "set_head sc2 (\<lambda>r. r\<lparr>refill_amount := refill_amount r + refill_amount ?h\<rparr>) = Some sc3"
      "sc_rep sc3 (n\<lparr>refill_amount := refill_amount n + refill_amount h\<rparr> # zs) p c m"
      using rep_set_head[OF sc2(2)[unfolded Cons], of "\<lambda>r. r\<lparr>refill_amount := refill_amount r + refill_amount ?h\<rparr>"]
      by auto
    obtain sc4 where sc4: "set_head sc3 (\<lambda>r. r\<lparr>refill_time := refill_time ?h\<rparr>) = Some sc4"
      "sc_rep sc4 (n\<lparr>refill_amount := refill_amount n + refill_amount h, refill_time := refill_time h + u\<rparr> # zs) p c m"
      using rep_set_head[OF sc3(2), of "\<lambda>r. r\<lparr>refill_time := refill_time ?h\<rparr>"] by auto
    have add: "unat (refill_amount n + refill_amount h) = unat (refill_amount n) + unat (refill_amount h)"
      using tot by (intro unat_plus_no_overflow) (simp add: rs Cons)
    show ?thesis
      using True sc1(1) sc2(1) sc3(1) sc4 rep_head[OF sc1(2)] rep_single[OF sc1(2)] rep_next[OF sc1(2)[unfolded Cons]]
        sc1(2) add rs Cons
      by (auto simp: budget_overrun_def word_le_nat split: if_splits)
  qed
qed

lemma rep_merge_step:
  assumes rep: "sc_rep sc (r # n # rs) p c m"
  shows "\<exists>sc'. do { (r, sc) \<leftarrow> refill_pop_head sc;
       set_head sc (\<lambda>h. h\<lparr>refill_amount := refill_amount h + refill_amount r\<rparr>) } = Some sc'
     \<and> sc_rep sc' (n\<lparr>refill_amount := refill_amount n + refill_amount r\<rparr> # rs) p c m"
proof -
  obtain sc1 where sc1: "refill_pop_head sc = Some (r, sc1)" "sc_rep sc1 (n # rs) p c m"
    using rep_pop_head[OF rep] by blast
  then show ?thesis
    using rep_set_head[OF sc1(2), of "\<lambda>h. h\<lparr>refill_amount := refill_amount h + refill_amount r\<rparr>"] by simp
qed

lemma rep_merge_loop:
  assumes "sc_rep sc rs p c m" "2 \<le> m" "unat MIN_BUDGET \<le> refill_total rs" "refill_total rs < 2 ^ 64"
  shows "\<exists>sc' rs'. budget_merge_loop sc = Some sc' \<and> sc_rep sc' rs' p c m
    \<and> refill_total rs' = refill_total rs \<and> MIN_BUDGET \<le> refill_amount (hd rs') \<and> length rs' < m
    \<and> (ordered rs \<longrightarrow> ordered rs')"
  using assms
proof (induction "length rs" arbitrary: rs sc rule: less_induct)
  case less
  obtain h ys where rs: "rs = h # ys"
    using sc_repD(6)[OF less.prems(1)] by (cases rs) auto
  note rep = less.prems(1)[unfolded rs]
  show ?case
  proof (cases "refill_amount h < MIN_BUDGET \<or> length rs = m")
    case False
    then show ?thesis
      using less.prems(1) rs sc_repD(7)[OF rep] rep_full[OF rep]
      by (subst budget_merge_loop.simps) (auto simp: rep_head[OF rep])
  next
    case True
    then obtain n zs where ys: "ys = n # zs"
      using less.prems(2,3) rs by (cases ys) (auto simp: word_less_nat)
    let ?n = "n\<lparr>refill_amount := refill_amount n + refill_amount h\<rparr>"
    obtain sc1 where sc1: "do { (r, sc) \<leftarrow> refill_pop_head sc;
       set_head sc (\<lambda>h. h\<lparr>refill_amount := refill_amount h + refill_amount r\<rparr>) } = Some sc1"
      "sc_rep sc1 (?n # zs) p c m"
      using rep_merge_step[OF rep[unfolded ys]] by blast
    have "refill_total (?n # zs) = refill_total rs"
      using less.prems(4) rs ys by (simp add: unat_plus_no_overflow)
    then obtain sc' rs' where
      "budget_merge_loop sc1 = Some sc'" "sc_rep sc' rs' p c m" "refill_total rs' = refill_total rs"
      "MIN_BUDGET \<le> refill_amount (hd rs')" "length rs' < m" "ordered (?n # zs) \<longrightarrow> ordered rs'"
      using less.hyps[OF _ sc1(2)] less.prems rs ys by auto
    then show ?thesis
      using True sc1 rs ys rep_full[OF rep]
      by (subst budget_merge_loop.simps) (auto simp: rep_head[OF rep] bind_eq_Some_conv split: prod.splits)
  qed
qed

lemma sc_rep_self: "sc_ok sc \<Longrightarrow> sc_rep sc (refills sc) (period sc) (consumed sc) (unat (refill_max sc))"
  by (simp add: sc_rep_def)

lemma rep_budget_charge:
  assumes "sc_rep sc rs p c m" "0 < refill_total rs" "refill_total rs < 2 ^ 64"
    and "capacity \<noteq> 0 \<Longrightarrow> usage < refill_amount (hd rs)"
  shows "\<exists>sc' rs' u. budget_charge sc usage capacity = Some (sc', u) \<and> sc_rep sc' rs' p c m
    \<and> refill_total rs' = refill_total rs \<and> u \<le> usage \<and> u < refill_amount (hd rs')"
proof (cases "capacity = 0")
  case True
  obtain sc1 rs1 u where 1: "budget_exhaust_loop sc usage = Some (sc1, u)" "sc_rep sc1 rs1 p c m"
    "refill_total rs1 = refill_total rs" "u \<le> usage" "u < refill_amount (hd rs1)"
    using rep_exhaust_loop[OF assms(1-3)] by blast
  then obtain sc2 rs2 where "budget_overrun sc1 u = Some sc2" "sc_rep sc2 rs2 p c m"
    "refill_total rs2 = refill_total rs" "refill_amount (hd rs1) \<le> refill_amount (hd rs2)"
    using rep_budget_overrun[OF 1(2)] assms(3) by fastforce
  with 1 True show ?thesis
    by (auto simp: budget_charge_def intro: order_less_le_trans)
qed (use assms in \<open>auto simp: budget_charge_def\<close>)

lemma rep_budget_check:
  assumes rep: "sc_rep sc rs p c m" and m: "2 \<le> m" and p: "0 < p"
    and tot: "unat MIN_BUDGET \<le> refill_total rs" "refill_total rs < 2 ^ 64"
    and cap: "refill_capacity sc usage = Some capacity" "capacity < MIN_BUDGET" "0 < usage"
    and ord: "ordered rs"
    and charge: "capacity = 0 \<Longrightarrow> (budget_charge sc usage capacity \<bind> (\<lambda>(sc1, u). refill_ready ct sc1)) = Some False"
  shows "\<exists>sc' rs'. refill_budget_check ct sc usage capacity = Some sc' \<and> sc_rep sc' rs' p c m
    \<and> refill_total rs' = refill_total rs \<and> MIN_BUDGET \<le> refill_amount (hd rs') \<and> length rs' < m"
proof -
  obtain h ys where rs: "rs = h # ys"
    using sc_repD(6)[OF rep] by (cases rs) auto
  have less: "usage < refill_amount (hd rs)" if "capacity \<noteq> 0"
    using that cap(1) rep_capacity[OF rep[unfolded rs], of usage] by (auto simp: rs split: if_splits)
  have pos: "0 < refill_total rs"
    using tot(1) MIN_BUDGET_pos by (simp add: word_less_nat)
  obtain sc1 rs1 u where 1: "budget_charge sc usage capacity = Some (sc1, u)" "sc_rep sc1 rs1 p c m"
    "refill_total rs1 = refill_total rs" "u < refill_amount (hd rs1)"
    using rep_budget_charge[OF rep pos tot(2) less] by blast
  obtain h1 ys1 where rs1: "rs1 = h1 # ys1"
    using sc_repD(6)[OF 1(2)] by (cases rs1) auto
  note rep1 = 1(2)[unfolded rs1]
  let ?rdy = "refill_time h1 \<le> ct + get_kernel_wcet_ticks"
  obtain sc2 rs2 where 2: "(if ?rdy then do {
              assertK (refill_amount h1 - u < MIN_BUDGET);
              refill_split_check sc1 u }
            else Some sc1) = Some sc2" "sc_rep sc2 rs2 p c m" "refill_total rs2 = refill_total rs"
  proof (cases ?rdy)
    case True
    with charge 1(1) rep_ready[OF rep1, of ct] have "capacity \<noteq> 0"
      by auto
    then have "sc1 = sc" "u = usage" "rs1 = rs"
      using 1(1) sc_repD(2)[OF rep] sc_repD(2)[OF 1(2)] by (auto simp: budget_charge_def)
    moreover have "refill_amount h1 - u = capacity"
      using cap(1) less[OF \<open>capacity \<noteq> 0\<close>] rep_capacity[OF rep1, of u] calculation rs1 by auto
    ultimately show ?thesis
      using that rep_split_check[OF rep cap(3) _ p ord] split_list_total[of rs usage m p] order_less_imp_le[OF less[OF \<open>capacity \<noteq> 0\<close>]]
        True cap(2) tot(2) sc_repD(6)[OF rep] by auto
  qed (use 1 that in auto)
  obtain sc3 rs3 where "budget_merge_loop sc2 = Some sc3" "sc_rep sc3 rs3 p c m"
    "refill_total rs3 = refill_total rs" "MIN_BUDGET \<le> refill_amount (hd rs3)" "length rs3 < m"
    using rep_merge_loop[OF 2(2) m] tot 2(3) by auto
  moreover have "0 < refill_amount h1 - u"
    using 1(4) rs1 by (simp add: word_gt_0)
  ultimately show ?thesis
    using 1(1,4) 2(1) cap(2) p rs1 rep_capacity[OF rep1, of u] rep_ready[OF rep1, of ct]
    by (auto simp: refill_budget_check_def rep_period[OF rep] split: if_splits)
qed

lemma rep_noblock_loop:
  assumes "sc_rep sc rs p c m" "unat ct + refill_total rs < 2 ^ 64" "ordered rs"
    and "MIN_BUDGET \<le> refill_amount (hd rs)" "refill_time (hd rs) = ct"
  shows "\<exists>sc' rs'. noblock_merge_loop ct sc = Some sc' \<and> sc_rep sc' rs' p c m
    \<and> refill_total rs' = refill_total rs \<and> ordered rs' \<and> MIN_BUDGET \<le> refill_amount (hd rs')
    \<and> refill_time (hd rs') = ct \<and> (\<forall>r \<in> set (tl rs'). ct + refill_amount (hd rs') < refill_time r)"
  using assms
proof (induction "length rs" arbitrary: rs sc rule: less_induct)
  case less
  obtain h ys where rs: "rs = h # ys"
    using sc_repD(6)[OF less.prems(1)] by (cases rs) auto
  note rep = less.prems(1)[unfolded rs]
  show ?case
  proof (cases ys)
    case Nil
    then show ?thesis
      using less.prems rs rep_single[OF rep] by (subst noblock_merge_loop.simps) auto
  next
    case (Cons n zs)
    note rd = rep_head[OF rep] rep_next[OF rep[unfolded Cons]]
    have notsingle: "\<not> refill_single sc"
      using rep_single[OF rep] Cons by simp
    show ?thesis
    proof (cases "refill_time n \<le> ct + refill_amount h")
      case False
      moreover have "\<forall>r \<in> set ys. refill_time n \<le> refill_time r"
        using less.prems(3) rs Cons by (auto simp: ordered_def)
      ultimately show ?thesis
        using less.prems rs Cons notsingle rd by (subst noblock_merge_loop.simps) fastforce
    next
      case True
      obtain sc1 where sc1: "refill_pop_head sc = Some (h, sc1)" "sc_rep sc1 ys p c m"
        using rep_pop_head[OF rep] Cons by blast
      let ?f = "\<lambda>r. r\<lparr>refill_amount := refill_amount r + refill_amount h\<rparr>"
      obtain sc2 where sc2: "set_head sc1 ?f = Some sc2" "sc_rep sc2 (?f n # zs) p c m"
        using rep_set_head[OF sc1(2)[unfolded Cons], of ?f] by blast
      let ?g = "\<lambda>r. r\<lparr>refill_time := ct\<rparr>"
      obtain sc3 where sc3: "set_head sc2 ?g = Some sc3" "sc_rep sc3 (?g (?f n) # zs) p c m"
        using rep_set_head[OF sc2(2), of ?g] by blast
      have add: "unat (refill_amount n + refill_amount h) = unat (refill_amount n) + unat (refill_amount h)"
        using less.prems(2) rs Cons by (intro unat_plus_no_overflow) simp
      have "ordered (?g (?f n) # zs)"
        using less.prems(3,5) rs Cons by (cases zs) auto
      moreover have "MIN_BUDGET \<le> refill_amount (hd (?g (?f n) # zs))"
        using less.prems(4) add rs by (simp add: word_le_nat)
      moreover have tot: "refill_total (?g (?f n) # zs) = refill_total rs"
        using add rs Cons by simp
      moreover have "noblock_merge_loop ct sc = noblock_merge_loop ct sc3"
        using True notsingle rd sc1(1) sc2(1) sc3(1) by (subst noblock_merge_loop.simps) simp
      ultimately show ?thesis
        using less.hyps[OF _ sc3(2)] less.prems(2) rs Cons by (simp only: tot) simp
    qed
  qed
qed

lemma rep_noblock_check:
  assumes rep: "sc_rep sc rs p c m" and p: "p \<noteq> 0" and tot: "unat ct + refill_total rs < 2 ^ 64"
    and ord: "ordered rs" and suf: "MIN_BUDGET \<le> refill_amount (hd rs)"
    and rdy: "refill_ready ct sc = Some True" and future: "\<forall>r \<in> set (tl rs). ct \<le> refill_time r"
  shows "\<exists>sc' rs'. refill_noblock_check ct sc = Some sc' \<and> sc_rep sc' rs' p c m
    \<and> refill_total rs' = refill_total rs \<and> ordered rs' \<and> MIN_BUDGET \<le> refill_amount (hd rs')
    \<and> refill_time (hd rs') = ct \<and> (\<forall>r \<in> set (tl rs'). ct + refill_amount (hd rs') < refill_time r)"
proof -
  obtain h ys where rs: "rs = h # ys"
    using sc_repD(6)[OF rep] by (cases rs) auto
  obtain sc1 where sc1: "set_head sc (\<lambda>h. h\<lparr>refill_time := ct\<rparr>) = Some sc1"
    "sc_rep sc1 (h\<lparr>refill_time := ct\<rparr> # ys) p c m"
    using rep_set_head[OF rep[unfolded rs]] by blast
  have "ordered (h\<lparr>refill_time := ct\<rparr> # ys)"
    using ord future rs by (cases ys) auto
  then obtain sc2 rs2 where 2: "noblock_merge_loop ct sc1 = Some sc2" "sc_rep sc2 rs2 p c m"
    "refill_total rs2 = refill_total rs" "ordered rs2" "MIN_BUDGET \<le> refill_amount (hd rs2)"
    "refill_time (hd rs2) = ct" "\<forall>r \<in> set (tl rs2). ct + refill_amount (hd rs2) < refill_time r"
    using rep_noblock_loop[OF sc1(2), of ct] tot suf rs by auto
  obtain h2 ys2 where rs2: "rs2 = h2 # ys2"
    using sc_repD(6)[OF 2(2)] by (cases rs2) auto
  have "refill_sufficient sc2 0 = Some True"
    using 2(5) rep_capacity[OF 2(2)[unfolded rs2], of 0] rs2 by (simp add: refill_sufficient_def)
  then show ?thesis
    using p rdy sc1 2 by (auto simp: refill_noblock_check_def is_roundrobin_def rep_period[OF rep])
qed

lemma rep_truncated:
  assumes "length (refill_buffer sc) = NUM_SCHED_REFILLS" "refill_head sc = 0" "refill_tail sc = 0"
    and "0 < refill_max sc" "unat (refill_max sc) \<le> NUM_SCHED_REFILLS"
  shows "sc_rep sc [refill_buffer sc ! 0] (period sc) (consumed sc) (unat (refill_max sc))"
proof -
  have "sc_ok sc"
    using assms by (simp add: sc_ok_def)
  then show ?thesis
    using assms(2,3) by (simp add: sc_rep_def refills_def refill_size_def ring_def)
qed

lemma rep_empty_tail:
  assumes rep: "sc_rep sc [h] p c m" and m: "2 \<le> m"
  shows "\<exists>sc' rs. maybe_add_empty_tail ct sc = Some sc' \<and> sc_rep sc' rs p c m
    \<and> rs = (if p = 0 then [h, \<lparr>refill_time = ct, refill_amount = 0\<rparr>] else [h])"
proof (cases "p = 0")
  case True
  obtain sc1 where sc1: "refill_add_tail sc \<lparr>refill_time = ct, refill_amount = 0\<rparr> = Some sc1"
    "sc_rep sc1 [h, \<lparr>refill_time = ct, refill_amount = 0\<rparr>] p c m"
    using rep_add_tail[OF rep, of "\<lparr>refill_time = ct, refill_amount = 0\<rparr>"] m by auto
  then have "refill_size sc1 = MIN_REFILLS"
    using sc_repD(8)[OF sc1(2)] by (simp add: MIN_REFILLS_def word_eq_nat)
  then show ?thesis
    using sc1 True by (simp add: maybe_add_empty_tail_def is_roundrobin_def rep_period[OF rep])
qed (use rep in \<open>auto simp: maybe_add_empty_tail_def is_roundrobin_def rep_period[OF rep]\<close>)

lemma rep_refill_new:
  assumes "length (refill_buffer sc) = NUM_SCHED_REFILLS" "2 \<le> max_refills"
    and "unat max_refills \<le> NUM_SCHED_REFILLS" "MIN_BUDGET < budget"
  shows "\<exists>sc' rs. refill_new ct sc max_refills budget p = Some sc' \<and> sc_rep sc' rs p (consumed sc) (unat max_refills)
    \<and> map refill_amount rs = (if p = 0 then [budget, 0] else [budget]) \<and> (\<forall>r \<in> set rs. refill_time r = ct)"
proof -
  let ?sc = "sc\<lparr>period := p, refill_head := 0, refill_tail := 0, refill_max := max_refills\<rparr>"
  have m: "2 \<le> unat max_refills" "0 < max_refills"
    using assms(2) by (auto simp: word_le_nat word_less_nat)
  have rep: "sc_rep ?sc [refill_buffer sc ! 0] p (consumed sc) (unat max_refills)"
    using rep_truncated[of ?sc] assms(1,3) m(2) by simp
  let ?f = "\<lambda>h. h\<lparr>refill_amount := budget\<rparr>" and ?g = "\<lambda>h. h\<lparr>refill_time := ct\<rparr>"
  obtain sc1 where sc1: "set_head ?sc ?f = Some sc1"
    "sc_rep sc1 [?f (refill_buffer sc ! 0)] p (consumed sc) (unat max_refills)"
    using rep_set_head[OF rep, of ?f] by blast
  obtain sc2 where sc2: "set_head sc1 ?g = Some sc2"
    "sc_rep sc2 [?g (?f (refill_buffer sc ! 0))] p (consumed sc) (unat max_refills)"
    using rep_set_head[OF sc1(2), of ?g] by blast
  obtain sc3 rs where sc3: "maybe_add_empty_tail ct sc2 = Some sc3" "sc_rep sc3 rs p (consumed sc) (unat max_refills)"
    "rs = (if p = 0 then [?g (?f (refill_buffer sc ! 0)), \<lparr>refill_time = ct, refill_amount = 0\<rparr>]
           else [?g (?f (refill_buffer sc ! 0))])"
    using rep_empty_tail[OF sc2(2) m(1), of ct] by blast
  then show ?thesis
    using sc1 sc2 assms(4)
    by (intro exI[of _ sc3] exI[of _ rs]) (auto simp: refill_new_def Let_def)
qed

lemma rep_refill_update:
  assumes rep: "sc_rep sc rs p c m" and max: "2 \<le> max_refills" "unat max_refills \<le> NUM_SCHED_REFILLS"
  shows "\<exists>sc' rs'. refill_update ct sc new_period new_budget max_refills = Some sc'
    \<and> sc_rep sc' rs' new_period c (unat max_refills) \<and> refill_total rs' = unat new_budget
    \<and> length rs' \<le> 2 \<and> refill_amount (hd rs') \<le> refill_amount (hd rs)"
proof -
  obtain h ys where rs: "rs = h # ys"
    using sc_repD(6)[OF rep] by (cases rs) auto
  note D = sc_repD[OF rep] sc_okD[OF sc_repD(1)[OF rep]] and rep = rep[unfolded rs]
  have m: "2 \<le> unat max_refills" "0 < max_refills"
    using max(1) by (auto simp: word_le_nat word_less_nat)
  let ?b = "(refill_buffer sc)[0 := h]"
  let ?sc = "sc\<lparr>refill_buffer := ?b, refill_head := 0, refill_tail := 0, refill_max := max_refills, period := new_period\<rparr>"
  have set0: "set_refill sc 0 h = Some (sc\<lparr>refill_buffer := ?b\<rparr>)"
    using D by (simp add: set_refill_def)
  have "refill_buffer ?sc ! 0 = h"
    using D by simp
  then have rep0: "sc_rep ?sc [h] new_period c (unat max_refills)"
    using rep_truncated[of ?sc] max m D by (simp add: NUM_SCHED_REFILLS_def)
  let ?rdy = "refill_time h \<le> ct + get_kernel_wcet_ticks"
  let ?g = "\<lambda>h. h\<lparr>refill_time := ct\<rparr>"
  obtain sc1 h1 where sc1: "(if ?rdy then set_head ?sc ?g else Some ?sc) = Some sc1"
    "sc_rep sc1 [h1] new_period c (unat max_refills)" "refill_amount h1 = refill_amount h"
    using rep_set_head[OF rep0, of ?g] rep0 by (cases ?rdy) auto
  let ?f = "\<lambda>h. h\<lparr>refill_amount := new_budget\<rparr>"
  obtain sc2 where sc2: "set_head sc1 ?f = Some sc2" "sc_rep sc2 [?f h1] new_period c (unat max_refills)"
    using rep_set_head[OF sc1(2), of ?f] by blast
  let ?new = "\<lparr>refill_time = refill_time h1 + new_period, refill_amount = new_budget - refill_amount h\<rparr>"
  obtain sc3 where sc3: "refill_add_tail sc1 ?new = Some sc3"
    "sc_rep sc3 [h1, ?new] new_period c (unat max_refills)"
    using rep_add_tail[OF sc1(2), of ?new] m(1) by auto
  have start: "refill_update ct sc new_period new_budget max_refills =
    (if new_budget \<le> refill_amount h then maybe_add_empty_tail ct sc2 else Some sc3)"
    using sc1 sc2(1) sc3(1) set0 D rep_ready[OF rep0, of ct] rep_head[OF sc1(2)]
    by (simp add: refill_update_def rep_head[OF rep] Let_def word_less_nat split: if_splits)
  show ?thesis
  proof (cases "new_budget \<le> refill_amount h")
    case True
    obtain sc4 rs4 where sc4: "maybe_add_empty_tail ct sc2 = Some sc4" "sc_rep sc4 rs4 new_period c (unat max_refills)"
      "rs4 = (if new_period = 0 then [?f h1, \<lparr>refill_time = ct, refill_amount = 0\<rparr>] else [?f h1])"
      using rep_empty_tail[OF sc2(2) m(1), of ct] by blast
    then show ?thesis
      using start True rs by (intro exI[of _ sc4] exI[of _ rs4]) auto
  next
    case False
    then show ?thesis
      using start sc3(2) rs sc1(3) by (auto simp: unat_sub word_le_nat)
  qed
qed

lemma rep_sum_loop:
  assumes "sc_rep sc rs p c m" "i < length rs"
    and "unat k = (unat (refill_head sc) + i) mod m"
  shows "refill_sum_loop sc k sm = Some (sm + sum_list (map refill_amount (drop (Suc i) rs)))"
  using assms(2,3)
proof (induction "length rs - i" arbitrary: i k sm)
  case (Suc n)
  note D = sc_repD[OF assms(1)] sc_okD[OF sc_repD(1)[OF assms(1)]]
  have k: "k < refill_max sc"
    using Suc.prems D by (simp add: word_less_nat)
  have nxt: "unat (refill_next sc k) = (unat (refill_head sc) + Suc i) mod m"
    using unat_refill_next[OF D(1) k] Suc.prems D by (simp add: mod_Suc_eq)
  show ?case
  proof (cases "Suc i = length rs")
    case True
    then have "k = refill_tail sc"
      using Suc.prems(2) D(5,8) tail_slot_Suc[OF D(1), of i] by (simp add: word_eq_nat)
    then show ?thesis
      using True by (subst refill_sum_loop.simps) simp
  next
    case False
    then have lt: "Suc i < length rs"
      using Suc.prems by simp
    then have "k \<noteq> refill_tail sc"
      using Suc.prems D tail_slot[OF D(1)] slot_neq[of "unat (refill_head sc)" m i "length rs - 1"]
      by (simp add: word_eq_nat)
    moreover have "drop (Suc i) rs = rs ! Suc i # drop (Suc (Suc i)) rs"
      using lt by (simp add: Cons_nth_drop_Suc)
    ultimately show ?thesis
      using Suc.hyps(1)[OF _ lt nxt] Suc.hyps(2) rep_read[OF assms(1) lt nxt]
      by (subst refill_sum_loop.simps) (simp add: add.assoc)
  qed
qed simp

lemma rep_sum:
  assumes "sc_rep sc rs p c m"
  shows "refill_sum sc = Some (word_of_nat (refill_total rs))"
proof -
  obtain h ys where rs: "rs = h # ys"
    using sc_repD(6)[OF assms] by (cases rs) auto
  have "refill_sum sc = Some (sum_list (map refill_amount rs))"
    using rep_sum_loop[OF assms, of 0 "refill_head sc"] sc_repD(5)[OF assms] sc_okD(3)[OF sc_repD(1)[OF assms]]
    by (simp add: refill_sum_def rep_head[OF assms[unfolded rs]] rs)
  moreover have "sum_list (map refill_amount xs) = word_of_nat (refill_total xs)" for xs
    by (induction xs) simp_all
  ultimately show ?thesis
    by simp
qed

section \<open>Properties\<close>

definition budget_ok :: "thread_sched \<Rightarrow> bool" where
  "budget_ok sc \<longleftrightarrow> sc_ok sc \<and> 2 \<le> refill_max sc \<and> ordered (refills sc)
     \<and> unat MIN_BUDGET \<le> refill_total (refills sc) \<and> refill_total (refills sc) < 2 ^ 64"

definition sc_example :: "nat \<Rightarrow> refill list \<Rightarrow> thread_sched" where
  "sc_example m rs = \<lparr>period = 1000, consumed = 0, refill_max = word_of_nat m, refill_head = 0,
     refill_tail = word_of_nat (length rs - 1),
     refill_buffer = rs @ replicate (8 - length rs) \<lparr>refill_time = 0, refill_amount = 0\<rparr>\<rparr>"


lemmas sporadic_eval = sc_example_def REFILL_HEAD_def REFILL_TAIL_def REFILL_INDEX_def set_refill_def
  refill_size_def refill_ready_def refill_next_def refill_full_def refill_single_def refill_capacity_def
  refill_sufficient_def refill_pop_head_def refill_add_tail_def set_head_def set_tail_def schedule_used_def
  budget_overrun_def MIN_BUDGET_def get_kernel_wcet_ticks_def KERNEL_WCET_SCALE_def

lemma upt_two: "[0..<2] = [0, 1::nat]"
  by (simp add: numeral_2_eq_2)

lemmas sc_ok_eval = budget_ok_def sc_ok_def refills_def ring_def NUM_SCHED_REFILLS_def word_less_nat word_le_nat

text \<open>
  C1: charging usage to a scheduling context whose head refill is exhausted (or left with less than
  the minimum budget) always returns, keeps the circular buffer well formed, conserves the sum of
  all refills, and leaves a head refill of at least \<open>MIN_BUDGET\<close> and a free slot.  The hypothesis on
  readiness excludes the assertion of line 275: once the budget is exhausted, the next
  replenishment must lie in the future.
\<close>
theorem refill_budget_check_conserves:
  assumes "budget_ok sc" "0 < period sc" "0 < usage"
    and "refill_capacity sc usage = Some capacity" "capacity < MIN_BUDGET"
    and "capacity = 0 \<Longrightarrow> (budget_charge sc usage capacity \<bind> (\<lambda>(sc1, u). refill_ready ct sc1)) = Some False"
  shows "\<exists>sc'. refill_budget_check ct sc usage capacity = Some sc' \<and> sc_ok sc'
    \<and> refill_total (refills sc') = refill_total (refills sc) \<and> refill_sufficient sc' 0 = Some True
    \<and> \<not> refill_full sc' \<and> period sc' = period sc \<and> consumed sc' = consumed sc"
proof -
  have m: "2 \<le> unat (refill_max sc)"
    using assms(1) by (simp add: budget_ok_def word_le_nat)
  obtain sc' rs' where 1: "refill_budget_check ct sc usage capacity = Some sc'"
    "sc_rep sc' rs' (period sc) (consumed sc) (unat (refill_max sc))"
    "refill_total rs' = refill_total (refills sc)" "MIN_BUDGET \<le> refill_amount (hd rs')"
    "length rs' < unat (refill_max sc)"
    using rep_budget_check[OF sc_rep_self m assms(2) _ _ assms(4,5,3) _ assms(6)] assms(1)
    by (auto simp: budget_ok_def)
  then obtain h ys where "rs' = h # ys"
    using sc_repD(6)[OF 1(2)] by (cases rs') auto
  then show ?thesis
    using 1 sc_repD[OF 1(2)] rep_capacity[of sc' h ys _ _ _ 0] rep_full[OF 1(2)]
    by (auto simp: refill_sufficient_def)
qed


theorem refill_budget_check_conserves_witness:
  "\<exists>sc'. refill_budget_check 110 (sc_example 8 [\<lparr>refill_time = 0, refill_amount = 100\<rparr>]) 100 0 = Some sc'
    \<and> refill_total (refills sc') = 100"
proof -
  let ?sc = "sc_example 8 [\<lparr>refill_time = 0, refill_amount = 100\<rparr>]"
  have "budget_ok ?sc"
    by (simp add: sc_ok_eval sporadic_eval)
  moreover have "0 < period ?sc" "(0::ticks_t) < MIN_BUDGET" "refill_capacity ?sc 100 = Some 0" "(0::ticks_t) < 100"
    by (simp_all add: sporadic_eval)
  moreover have "(budget_charge ?sc 100 0 \<bind> (\<lambda>(sc1, u). refill_ready 110 sc1)) = Some False"
    by (simp add: budget_charge_def, subst budget_exhaust_loop.simps, simp add: sporadic_eval,
        subst budget_exhaust_loop.simps, simp add: sporadic_eval)
  moreover have "refill_total (refills ?sc) = 100"
    by (simp add: refills_def ring_def sporadic_eval)
  ultimately show ?thesis
    using refill_budget_check_conserves[of ?sc 100 0 110] by auto
qed

text \<open>
  C15: the charging loop of \<open>refill_budget_check\<close> terminates for every usage, however many periods it
  spans, as soon as the scheduling context has some budget; it conserves the budget and ends with a
  head refill that covers the remaining usage.
\<close>
theorem budget_charge_terminates:
  assumes "sc_ok sc" "0 < refill_total (refills sc)" "refill_total (refills sc) < 2 ^ 64"
  shows "\<exists>sc' u. budget_charge sc usage 0 = Some (sc', u) \<and> sc_ok sc' \<and> u \<le> usage
    \<and> u < refill_amount (hd (refills sc')) \<and> refill_total (refills sc') = refill_total (refills sc)"
  using rep_budget_charge[OF sc_rep_self[OF assms(1)] assms(2,3), of 0 usage] sc_repD(1,2) by blast

theorem budget_charge_terminates_witness:
  "\<exists>sc' u. budget_charge (sc_example 4 [\<lparr>refill_time = 0, refill_amount = 30\<rparr>, \<lparr>refill_time = 5, refill_amount = 0\<rparr>])
      1000000 0 = Some (sc', u) \<and> refill_total (refills sc') = 30"
  using budget_charge_terminates
    [of "sc_example 4 [\<lparr>refill_time = 0, refill_amount = 30\<rparr>, \<lparr>refill_time = 5, refill_amount = 0\<rparr>]" 1000000]
  by (auto simp: sc_ok_eval sporadic_eval upt_two)

text \<open>
  C24: splitting the head refill at preemption returns for every positive usage the head can pay
  for, conserves the budget and keeps the refills ordered by time, so the assertion
  \<open>refill_ordered\<close> at the end of its merging branch never fails.
\<close>
theorem refill_split_check_conserves:
  assumes "sc_ok sc" "ordered (refills sc)" "refill_total (refills sc) < 2 ^ 64" "0 < period sc"
    and "0 < usage" "usage \<le> refill_amount (hd (refills sc))"
  shows "\<exists>sc'. refill_split_check sc usage = Some sc' \<and> sc_ok sc' \<and> ordered (refills sc')
    \<and> refill_total (refills sc') = refill_total (refills sc) \<and> refill_ordered sc' = Some True"
proof -
  note rep = sc_rep_self[OF assms(1)]
  obtain sc' where sc': "refill_split_check sc usage = Some sc'"
    "sc_rep sc' (split_list (unat (refill_max sc)) (period sc) usage (refills sc)) (period sc) (consumed sc) (unat (refill_max sc))"
    using rep_split_check[OF rep assms(5,6,4,2)] by blast
  then show ?thesis
    using split_list_ordered[OF sc_repD(6)[OF rep] assms(2)] split_list_total[OF sc_repD(6)[OF rep] assms(6,3)]
      rep_ordered[OF sc'(2)] sc_repD(1,2)[OF sc'(2)] by auto
qed

theorem refill_split_check_conserves_witness:
  "\<exists>sc'. refill_split_check (sc_example 8 [\<lparr>refill_time = 0, refill_amount = 100\<rparr>]) 30 = Some sc'
    \<and> refill_total (refills sc') = 100"
  using refill_split_check_conserves[of "sc_example 8 [\<lparr>refill_time = 0, refill_amount = 100\<rparr>]" 30]
  by (auto simp: sc_ok_eval sporadic_eval upt_two)



text \<open>
  reconfiguring an active scheduling context gives exactly the new budget, spread over at most
  two refills, and never increases what can be consumed immediately.
\<close>
theorem refill_update_bandwidth:
  assumes "sc_ok sc" "2 \<le> new_max_refills" "unat new_max_refills \<le> NUM_SCHED_REFILLS"
  shows "\<exists>sc'. refill_update ct sc new_period new_budget new_max_refills = Some sc' \<and> sc_ok sc'
    \<and> refill_total (refills sc') = unat new_budget \<and> length (refills sc') \<le> 2 \<and> period sc' = new_period
    \<and> refill_amount (hd (refills sc')) \<le> refill_amount (hd (refills sc))"
  using rep_refill_update[OF sc_rep_self[OF assms(1)] assms(2,3)] unfolding sc_rep_def by blast

theorem refill_update_bandwidth_witness:
  "\<exists>sc'. refill_update 7 (sc_example 8 [\<lparr>refill_time = 0, refill_amount = 100\<rparr>]) 500 250 4 = Some sc'
    \<and> refill_total (refills sc') = 250"
  using refill_update_bandwidth[of "sc_example 8 [\<lparr>refill_time = 0, refill_amount = 100\<rparr>]" 4 7 500 250]
  by (auto simp: sc_ok_eval sporadic_eval)

text \<open>
  \<open>refill_new\<close> returns for every budget above the minimum and at least two refills, and the new
  scheduling context is well formed with exactly the budget available from now on.
\<close>
theorem refill_new_budget:
  assumes "length (refill_buffer sc) = NUM_SCHED_REFILLS" "2 \<le> max_refills"
    and "unat max_refills \<le> NUM_SCHED_REFILLS" "MIN_BUDGET < budget"
  shows "\<exists>sc'. refill_new ct sc max_refills budget p = Some sc' \<and> sc_ok sc' \<and> ordered (refills sc')
    \<and> refill_total (refills sc') = unat budget \<and> refill_ready ct sc' = Some (ct \<le> ct + get_kernel_wcet_ticks)"
proof -
  obtain sc' rs where 1: "refill_new ct sc max_refills budget p = Some sc'"
    "sc_rep sc' rs p (consumed sc) (unat max_refills)"
    "map refill_amount rs = (if p = 0 then [budget, 0] else [budget])" "\<forall>r \<in> set rs. refill_time r = ct"
    using rep_refill_new[OF assms] by blast
  have "refill_total rs = unat budget"
    using 1(3) by (auto simp: refill_total_def comp_def split: if_splits)
  moreover have "ordered rs" "rs \<noteq> []"
    using 1(3,4) by (auto simp: ordered_def sorted_iff_nth_mono split: if_splits)
  moreover have "refill_ready ct sc' = Some (ct \<le> ct + get_kernel_wcet_ticks)"
    using 1(2,4) \<open>rs \<noteq> []\<close> by (simp add: refill_ready_def REFILL_HEAD_refills sc_rep_def)
  ultimately show ?thesis
    using 1 by (auto simp: sc_rep_def)
qed

theorem refill_new_budget_witness:
  "\<exists>sc'. refill_new 3 (sc_example 8 []) 2 200 0 = Some sc' \<and> refill_total (refills sc') = 200"
  using refill_new_budget[of "sc_example 8 []" 2 200 3 0]
  by (auto simp: sporadic_eval NUM_SCHED_REFILLS_def)

text \<open>
  a full refill buffer with enough capacity left makes the budget check panic.  The entry
  assertion of \<open>refill_budget_check\<close> admits this call (\<open>capacity < MIN_BUDGET || refill_full\<close>), but
  the assertion of line 275 refuses it whenever the head refill is ready.
\<close>
theorem refill_budget_check_full_panics:
  assumes "MIN_BUDGET \<le> capacity" "refill_capacity sc usage = Some capacity" "refill_ready ct sc = Some True"
  shows "refill_budget_check ct sc usage capacity = None"
proof -
  have "capacity \<noteq> 0" "0 < capacity"
    using assms(1) MIN_BUDGET_pos by (metis order_less_le_trans order_less_irrefl)+
  moreover have "\<not> capacity < MIN_BUDGET"
    using assms(1) by simp
  ultimately show ?thesis
    using assms by (simp add: refill_budget_check_def budget_charge_def)
qed

theorem refill_budget_check_full_panics_witness:
  "refill_full (sc_example 2 [\<lparr>refill_time = 0, refill_amount = 100\<rparr>, \<lparr>refill_time = 500, refill_amount = 50\<rparr>])
   \<and> refill_budget_check 40 (sc_example 2 [\<lparr>refill_time = 0, refill_amount = 100\<rparr>, \<lparr>refill_time = 500, refill_amount = 50\<rparr>]) 30 70 = None"
  using refill_budget_check_full_panics
    [of 70 "sc_example 2 [\<lparr>refill_time = 0, refill_amount = 100\<rparr>, \<lparr>refill_time = 500, refill_amount = 50\<rparr>]" 30 40]
  by (simp add: sporadic_eval)

end
