(* ===== verification/Time_Conv.thy ===== *)
theory Time_Conv
  imports Prelude
begin

text \<open>
  The time unit conversions of \<^verbatim>\<open>inc/kernel/time.h\<close>: the conversion gadget \<open>tmcvt\<close>, which selects
  between three algorithms, and the 84 generated wrappers, at the configured tick rate and hardware
  clock.  The three algorithms are shown to compute the same rounded quotient.
\<close>

section \<open>Model\<close>

definition Hms :: "32 word" where
  "Hms = 1000"

definition Hus :: "32 word" where
  "Hus = 1000000"

definition Hns :: "32 word" where
  "Hns = 1000000000"

definition sys_clock_hw_cycles_per_sec :: "32 word" where
  "sys_clock_hw_cycles_per_sec = 180000000"

definition Hcyc :: "32 word" where
  "Hcyc = sys_clock_hw_cycles_per_sec"

definition Hticks :: "32 word" where
  "Hticks = 100"

definition CCYC :: bool where
  "CCYC = True"

definition tmcvt :: "64 word \<Rightarrow> 32 word \<Rightarrow> 32 word \<Rightarrow> bool \<Rightarrow> bool \<Rightarrow> bool \<Rightarrow> bool \<Rightarrow> 64 word" where
  "tmcvt t from_hz to_hz const_hz result32 round_up round_off =
     (let mul_ratio = (const_hz \<and> to_hz > from_hz \<and> to_hz mod from_hz = 0);
          div_ratio = (const_hz \<and> from_hz > to_hz \<and> from_hz mod to_hz = 0)
      in if from_hz = to_hz then (if result32 then ucast (ucast t :: 32 word) else t)
      else let off = (if mul_ratio then 0
                      else let rdivisor = (if div_ratio then from_hz div to_hz else from_hz)
                           in if round_up then ucast (rdivisor - 1)
                              else if round_off then ucast (rdivisor div 2) else 0)
      in if div_ratio
         then let t = t + off
              in if result32 then ucast ((ucast t :: 32 word) div (from_hz div to_hz))
                 else t div ucast (from_hz div to_hz)
         else if mul_ratio
         then if result32 then ucast ((ucast t :: 32 word) * (to_hz div from_hz))
              else t * ucast (to_hz div from_hz)
         else if result32 then ucast (ucast ((t * ucast to_hz + off) div ucast from_hz) :: 32 word)
         else (t * ucast to_hz + off) div ucast from_hz)"

definition k_ms_to_cyc_floor32 :: "32 word \<Rightarrow> 32 word" where
  "k_ms_to_cyc_floor32 t = ucast (tmcvt (ucast t) Hms Hcyc CCYC True False False)"

definition k_ms_to_cyc_floor64 :: "64 word \<Rightarrow> 64 word" where
  "k_ms_to_cyc_floor64 t = tmcvt t Hms Hcyc CCYC False False False"

definition k_ms_to_cyc_near32 :: "32 word \<Rightarrow> 32 word" where
  "k_ms_to_cyc_near32 t = ucast (tmcvt (ucast t) Hms Hcyc CCYC True False True)"

definition k_ms_to_cyc_near64 :: "64 word \<Rightarrow> 64 word" where
  "k_ms_to_cyc_near64 t = tmcvt t Hms Hcyc CCYC False False True"

definition k_ms_to_cyc_ceil32 :: "32 word \<Rightarrow> 32 word" where
  "k_ms_to_cyc_ceil32 t = ucast (tmcvt (ucast t) Hms Hcyc CCYC True True False)"

definition k_ms_to_cyc_ceil64 :: "64 word \<Rightarrow> 64 word" where
  "k_ms_to_cyc_ceil64 t = tmcvt t Hms Hcyc CCYC False True False"

definition k_ms_to_ticks_floor32 :: "32 word \<Rightarrow> 32 word" where
  "k_ms_to_ticks_floor32 t = ucast (tmcvt (ucast t) Hms Hticks True True False False)"

definition k_ms_to_ticks_floor64 :: "64 word \<Rightarrow> 64 word" where
  "k_ms_to_ticks_floor64 t = tmcvt t Hms Hticks True False False False"

definition k_ms_to_ticks_near32 :: "32 word \<Rightarrow> 32 word" where
  "k_ms_to_ticks_near32 t = ucast (tmcvt (ucast t) Hms Hticks True True False True)"

definition k_ms_to_ticks_near64 :: "64 word \<Rightarrow> 64 word" where
  "k_ms_to_ticks_near64 t = tmcvt t Hms Hticks True False False True"

definition k_ms_to_ticks_ceil32 :: "32 word \<Rightarrow> 32 word" where
  "k_ms_to_ticks_ceil32 t = ucast (tmcvt (ucast t) Hms Hticks True True True False)"

definition k_ms_to_ticks_ceil64 :: "64 word \<Rightarrow> 64 word" where
  "k_ms_to_ticks_ceil64 t = tmcvt t Hms Hticks True False True False"

definition k_us_to_cyc_floor32 :: "32 word \<Rightarrow> 32 word" where
  "k_us_to_cyc_floor32 t = ucast (tmcvt (ucast t) Hus Hcyc CCYC True False False)"

definition k_us_to_cyc_floor64 :: "64 word \<Rightarrow> 64 word" where
  "k_us_to_cyc_floor64 t = tmcvt t Hus Hcyc CCYC False False False"

definition k_us_to_cyc_near32 :: "32 word \<Rightarrow> 32 word" where
  "k_us_to_cyc_near32 t = ucast (tmcvt (ucast t) Hus Hcyc CCYC True False True)"

definition k_us_to_cyc_near64 :: "64 word \<Rightarrow> 64 word" where
  "k_us_to_cyc_near64 t = tmcvt t Hus Hcyc CCYC False False True"

definition k_us_to_cyc_ceil32 :: "32 word \<Rightarrow> 32 word" where
  "k_us_to_cyc_ceil32 t = ucast (tmcvt (ucast t) Hus Hcyc CCYC True True False)"

definition k_us_to_cyc_ceil64 :: "64 word \<Rightarrow> 64 word" where
  "k_us_to_cyc_ceil64 t = tmcvt t Hus Hcyc CCYC False True False"

definition k_us_to_ticks_floor32 :: "32 word \<Rightarrow> 32 word" where
  "k_us_to_ticks_floor32 t = ucast (tmcvt (ucast t) Hus Hticks True True False False)"

definition k_us_to_ticks_floor64 :: "64 word \<Rightarrow> 64 word" where
  "k_us_to_ticks_floor64 t = tmcvt t Hus Hticks True False False False"

definition k_us_to_ticks_near32 :: "32 word \<Rightarrow> 32 word" where
  "k_us_to_ticks_near32 t = ucast (tmcvt (ucast t) Hus Hticks True True False True)"

definition k_us_to_ticks_near64 :: "64 word \<Rightarrow> 64 word" where
  "k_us_to_ticks_near64 t = tmcvt t Hus Hticks True False False True"

definition k_us_to_ticks_ceil32 :: "32 word \<Rightarrow> 32 word" where
  "k_us_to_ticks_ceil32 t = ucast (tmcvt (ucast t) Hus Hticks True True True False)"

definition k_us_to_ticks_ceil64 :: "64 word \<Rightarrow> 64 word" where
  "k_us_to_ticks_ceil64 t = tmcvt t Hus Hticks True False True False"

definition k_ns_to_cyc_floor32 :: "32 word \<Rightarrow> 32 word" where
  "k_ns_to_cyc_floor32 t = ucast (tmcvt (ucast t) Hns Hcyc CCYC True False False)"

definition k_ns_to_cyc_floor64 :: "64 word \<Rightarrow> 64 word" where
  "k_ns_to_cyc_floor64 t = tmcvt t Hns Hcyc CCYC False False False"

definition k_ns_to_cyc_near32 :: "32 word \<Rightarrow> 32 word" where
  "k_ns_to_cyc_near32 t = ucast (tmcvt (ucast t) Hns Hcyc CCYC True False True)"

definition k_ns_to_cyc_near64 :: "64 word \<Rightarrow> 64 word" where
  "k_ns_to_cyc_near64 t = tmcvt t Hns Hcyc CCYC False False True"

definition k_ns_to_cyc_ceil32 :: "32 word \<Rightarrow> 32 word" where
  "k_ns_to_cyc_ceil32 t = ucast (tmcvt (ucast t) Hns Hcyc CCYC True True False)"

definition k_ns_to_cyc_ceil64 :: "64 word \<Rightarrow> 64 word" where
  "k_ns_to_cyc_ceil64 t = tmcvt t Hns Hcyc CCYC False True False"

definition k_ns_to_ticks_floor32 :: "32 word \<Rightarrow> 32 word" where
  "k_ns_to_ticks_floor32 t = ucast (tmcvt (ucast t) Hns Hticks True True False False)"

definition k_ns_to_ticks_floor64 :: "64 word \<Rightarrow> 64 word" where
  "k_ns_to_ticks_floor64 t = tmcvt t Hns Hticks True False False False"

definition k_ns_to_ticks_near32 :: "32 word \<Rightarrow> 32 word" where
  "k_ns_to_ticks_near32 t = ucast (tmcvt (ucast t) Hns Hticks True True False True)"

definition k_ns_to_ticks_near64 :: "64 word \<Rightarrow> 64 word" where
  "k_ns_to_ticks_near64 t = tmcvt t Hns Hticks True False False True"

definition k_ns_to_ticks_ceil32 :: "32 word \<Rightarrow> 32 word" where
  "k_ns_to_ticks_ceil32 t = ucast (tmcvt (ucast t) Hns Hticks True True True False)"

definition k_ns_to_ticks_ceil64 :: "64 word \<Rightarrow> 64 word" where
  "k_ns_to_ticks_ceil64 t = tmcvt t Hns Hticks True False True False"

definition k_cyc_to_ms_floor32 :: "32 word \<Rightarrow> 32 word" where
  "k_cyc_to_ms_floor32 t = ucast (tmcvt (ucast t) Hcyc Hms CCYC True False False)"

definition k_cyc_to_ms_floor64 :: "64 word \<Rightarrow> 64 word" where
  "k_cyc_to_ms_floor64 t = tmcvt t Hcyc Hms CCYC False False False"

definition k_cyc_to_ms_near32 :: "32 word \<Rightarrow> 32 word" where
  "k_cyc_to_ms_near32 t = ucast (tmcvt (ucast t) Hcyc Hms CCYC True False True)"

definition k_cyc_to_ms_near64 :: "64 word \<Rightarrow> 64 word" where
  "k_cyc_to_ms_near64 t = tmcvt t Hcyc Hms CCYC False False True"

definition k_cyc_to_ms_ceil32 :: "32 word \<Rightarrow> 32 word" where
  "k_cyc_to_ms_ceil32 t = ucast (tmcvt (ucast t) Hcyc Hms CCYC True True False)"

definition k_cyc_to_ms_ceil64 :: "64 word \<Rightarrow> 64 word" where
  "k_cyc_to_ms_ceil64 t = tmcvt t Hcyc Hms CCYC False True False"

definition k_cyc_to_us_floor32 :: "32 word \<Rightarrow> 32 word" where
  "k_cyc_to_us_floor32 t = ucast (tmcvt (ucast t) Hcyc Hus CCYC True False False)"

definition k_cyc_to_us_floor64 :: "64 word \<Rightarrow> 64 word" where
  "k_cyc_to_us_floor64 t = tmcvt t Hcyc Hus CCYC False False False"

definition k_cyc_to_us_near32 :: "32 word \<Rightarrow> 32 word" where
  "k_cyc_to_us_near32 t = ucast (tmcvt (ucast t) Hcyc Hus CCYC True False True)"

definition k_cyc_to_us_near64 :: "64 word \<Rightarrow> 64 word" where
  "k_cyc_to_us_near64 t = tmcvt t Hcyc Hus CCYC False False True"

definition k_cyc_to_us_ceil32 :: "32 word \<Rightarrow> 32 word" where
  "k_cyc_to_us_ceil32 t = ucast (tmcvt (ucast t) Hcyc Hus CCYC True True False)"

definition k_cyc_to_us_ceil64 :: "64 word \<Rightarrow> 64 word" where
  "k_cyc_to_us_ceil64 t = tmcvt t Hcyc Hus CCYC False True False"

definition k_cyc_to_ns_floor32 :: "32 word \<Rightarrow> 32 word" where
  "k_cyc_to_ns_floor32 t = ucast (tmcvt (ucast t) Hcyc Hns CCYC True False False)"

definition k_cyc_to_ns_floor64 :: "64 word \<Rightarrow> 64 word" where
  "k_cyc_to_ns_floor64 t = tmcvt t Hcyc Hns CCYC False False False"

definition k_cyc_to_ns_near32 :: "32 word \<Rightarrow> 32 word" where
  "k_cyc_to_ns_near32 t = ucast (tmcvt (ucast t) Hcyc Hns CCYC True False True)"

definition k_cyc_to_ns_near64 :: "64 word \<Rightarrow> 64 word" where
  "k_cyc_to_ns_near64 t = tmcvt t Hcyc Hns CCYC False False True"

definition k_cyc_to_ns_ceil32 :: "32 word \<Rightarrow> 32 word" where
  "k_cyc_to_ns_ceil32 t = ucast (tmcvt (ucast t) Hcyc Hns CCYC True True False)"

definition k_cyc_to_ns_ceil64 :: "64 word \<Rightarrow> 64 word" where
  "k_cyc_to_ns_ceil64 t = tmcvt t Hcyc Hns CCYC False True False"

definition k_cyc_to_ticks_floor32 :: "32 word \<Rightarrow> 32 word" where
  "k_cyc_to_ticks_floor32 t = ucast (tmcvt (ucast t) Hcyc Hticks CCYC True False False)"

definition k_cyc_to_ticks_floor64 :: "64 word \<Rightarrow> 64 word" where
  "k_cyc_to_ticks_floor64 t = tmcvt t Hcyc Hticks CCYC False False False"

definition k_cyc_to_ticks_near32 :: "32 word \<Rightarrow> 32 word" where
  "k_cyc_to_ticks_near32 t = ucast (tmcvt (ucast t) Hcyc Hticks CCYC True False True)"

definition k_cyc_to_ticks_near64 :: "64 word \<Rightarrow> 64 word" where
  "k_cyc_to_ticks_near64 t = tmcvt t Hcyc Hticks CCYC False False True"

definition k_cyc_to_ticks_ceil32 :: "32 word \<Rightarrow> 32 word" where
  "k_cyc_to_ticks_ceil32 t = ucast (tmcvt (ucast t) Hcyc Hticks CCYC True True False)"

definition k_cyc_to_ticks_ceil64 :: "64 word \<Rightarrow> 64 word" where
  "k_cyc_to_ticks_ceil64 t = tmcvt t Hcyc Hticks CCYC False True False"

definition k_ticks_to_ms_floor32 :: "32 word \<Rightarrow> 32 word" where
  "k_ticks_to_ms_floor32 t = ucast (tmcvt (ucast t) Hticks Hms True True False False)"

definition k_ticks_to_ms_floor64 :: "64 word \<Rightarrow> 64 word" where
  "k_ticks_to_ms_floor64 t = tmcvt t Hticks Hms True False False False"

definition k_ticks_to_ms_near32 :: "32 word \<Rightarrow> 32 word" where
  "k_ticks_to_ms_near32 t = ucast (tmcvt (ucast t) Hticks Hms True True False True)"

definition k_ticks_to_ms_near64 :: "64 word \<Rightarrow> 64 word" where
  "k_ticks_to_ms_near64 t = tmcvt t Hticks Hms True False False True"

definition k_ticks_to_ms_ceil32 :: "32 word \<Rightarrow> 32 word" where
  "k_ticks_to_ms_ceil32 t = ucast (tmcvt (ucast t) Hticks Hms True True True False)"

definition k_ticks_to_ms_ceil64 :: "64 word \<Rightarrow> 64 word" where
  "k_ticks_to_ms_ceil64 t = tmcvt t Hticks Hms True False True False"

definition k_ticks_to_us_floor32 :: "32 word \<Rightarrow> 32 word" where
  "k_ticks_to_us_floor32 t = ucast (tmcvt (ucast t) Hticks Hus True True False False)"

definition k_ticks_to_us_floor64 :: "64 word \<Rightarrow> 64 word" where
  "k_ticks_to_us_floor64 t = tmcvt t Hticks Hus True False False False"

definition k_ticks_to_us_near32 :: "32 word \<Rightarrow> 32 word" where
  "k_ticks_to_us_near32 t = ucast (tmcvt (ucast t) Hticks Hus True True False True)"

definition k_ticks_to_us_near64 :: "64 word \<Rightarrow> 64 word" where
  "k_ticks_to_us_near64 t = tmcvt t Hticks Hus True False False True"

definition k_ticks_to_us_ceil32 :: "32 word \<Rightarrow> 32 word" where
  "k_ticks_to_us_ceil32 t = ucast (tmcvt (ucast t) Hticks Hus True True True False)"

definition k_ticks_to_us_ceil64 :: "64 word \<Rightarrow> 64 word" where
  "k_ticks_to_us_ceil64 t = tmcvt t Hticks Hus True False True False"

definition k_ticks_to_ns_floor32 :: "32 word \<Rightarrow> 32 word" where
  "k_ticks_to_ns_floor32 t = ucast (tmcvt (ucast t) Hticks Hns True True False False)"

definition k_ticks_to_ns_floor64 :: "64 word \<Rightarrow> 64 word" where
  "k_ticks_to_ns_floor64 t = tmcvt t Hticks Hns True False False False"

definition k_ticks_to_ns_near32 :: "32 word \<Rightarrow> 32 word" where
  "k_ticks_to_ns_near32 t = ucast (tmcvt (ucast t) Hticks Hns True True False True)"

definition k_ticks_to_ns_near64 :: "64 word \<Rightarrow> 64 word" where
  "k_ticks_to_ns_near64 t = tmcvt t Hticks Hns True False False True"

definition k_ticks_to_ns_ceil32 :: "32 word \<Rightarrow> 32 word" where
  "k_ticks_to_ns_ceil32 t = ucast (tmcvt (ucast t) Hticks Hns True True True False)"

definition k_ticks_to_ns_ceil64 :: "64 word \<Rightarrow> 64 word" where
  "k_ticks_to_ns_ceil64 t = tmcvt t Hticks Hns True False True False"

definition k_ticks_to_cyc_floor32 :: "32 word \<Rightarrow> 32 word" where
  "k_ticks_to_cyc_floor32 t = ucast (tmcvt (ucast t) Hticks Hcyc CCYC True False False)"

definition k_ticks_to_cyc_floor64 :: "64 word \<Rightarrow> 64 word" where
  "k_ticks_to_cyc_floor64 t = tmcvt t Hticks Hcyc CCYC False False False"

definition k_ticks_to_cyc_near32 :: "32 word \<Rightarrow> 32 word" where
  "k_ticks_to_cyc_near32 t = ucast (tmcvt (ucast t) Hticks Hcyc CCYC True False True)"

definition k_ticks_to_cyc_near64 :: "64 word \<Rightarrow> 64 word" where
  "k_ticks_to_cyc_near64 t = tmcvt t Hticks Hcyc CCYC False False True"

definition k_ticks_to_cyc_ceil32 :: "32 word \<Rightarrow> 32 word" where
  "k_ticks_to_cyc_ceil32 t = ucast (tmcvt (ucast t) Hticks Hcyc CCYC True True False)"

definition k_ticks_to_cyc_ceil64 :: "64 word \<Rightarrow> 64 word" where
  "k_ticks_to_cyc_ceil64 t = tmcvt t Hticks Hcyc CCYC False True False"

section \<open>Exactness\<close>

definition round_off_nat :: "nat \<Rightarrow> bool \<Rightarrow> bool \<Rightarrow> nat" where
  "round_off_nat f up off = (if up then f - 1 else if off then f div 2 else 0)"

definition conv_nat :: "nat \<Rightarrow> nat \<Rightarrow> nat \<Rightarrow> bool \<Rightarrow> bool \<Rightarrow> nat" where
  "conv_nat t f h up off = (t * h + round_off_nat f up off) div f"

lemma conv_mul_ratio:
  assumes "0 < f"
  shows "conv_nat t f (k * f) up off = t * k"
proof -
  have "round_off_nat f up off < f"
    using assms by (simp add: round_off_nat_def)
  moreover have "(t * k * f + r) div f = t * k + r div f" for r
    using assms by simp
  ultimately show ?thesis
    by (simp add: conv_nat_def mult.assoc [symmetric])
qed

lemma conv_div_ratio:
  assumes "0 < h" "0 < d"
  shows "conv_nat t (d * h) h up off = (t + round_off_nat d up off) div d"
proof -
  have *: "(d * h - 1) div h = d - 1"
    using assms by (intro div_nat_eqI) (cases d; simp add: mult.commute)+
  have "(d * h div 2) div h = d div 2"
    using assms(1) by (metis div_mult2_eq div_mult_self_is_m mult.commute)
  with * have "round_off_nat (d * h) up off div h = round_off_nat d up off"
    by (simp add: round_off_nat_def)
  then have "(t * h + round_off_nat (d * h) up off) div h = t + round_off_nat d up off"
    using assms(1) by simp
  then show ?thesis
    by (simp add: conv_nat_def mult.commute[of d h] div_mult2_eq)
qed

lemma unat_ucast_32_64 [simp]: "unat (ucast (x :: 32 word) :: 64 word) = unat x"
proof -
  have "unat x < 2 ^ 32"
    by (rule order_less_le_trans[OF unsigned_less]) simp
  then show ?thesis
    by (simp add: unsigned_ucast_eq take_bit_nat_eq_self)
qed

lemma unat_mult_no_overflow:
  fixes a b :: "('l::len) word"
  assumes "unat a * unat b < 2 ^ LENGTH('l)"
  shows "unat (a * b) = unat a * unat b"
  using assms by (simp add: unat_word_ariths)

lemma unat_off: "0 < d \<Longrightarrow> unat (if up then d - 1 else if off then d div 2 else (0 :: 32 word)) = round_off_nat (unat d) up off"
  by (auto simp: round_off_nat_def unat_div unat_sub word_le_nat word_less_nat)

lemma tmcvt_exact:
  assumes f: "0 < f" and h: "0 < h" and bound: "unat t * unat h + unat f < 2 ^ 64"
  shows "unat (tmcvt t f h c False up off) = conv_nat (unat t) (unat f) (unat h) up off"
proof -
  have pos: "0 < unat f" "0 < unat h"
    using f h by (simp_all add: word_less_nat)
  let ?mul = "c \<and> h > f \<and> h mod f = 0" and ?div = "c \<and> f > h \<and> f mod h = 0"
  consider (eq) "f = h" | (mul) "f \<noteq> h" "?mul" | (dv) "f \<noteq> h" "\<not> ?mul" "?div" | (full) "f \<noteq> h" "\<not> ?mul" "\<not> ?div"
    by blast
  then show ?thesis
  proof cases
    case eq
    then show ?thesis
      using conv_mul_ratio[OF pos(1), of "unat t" 1] by (simp add: tmcvt_def)
  next
    case mul
    then have nd: "\<not> h < f"
      by auto
    have k: "unat h = unat (h div f) * unat f"
      using mul
      by (metis add.right_neutral div_mult_mod_eq unat_0 unat_div unat_mod)
    have "unat t * unat (h div f) \<le> unat t * unat h"
      using k pos by (metis mult_le_mono2 nat_mult_1_right Suc_leI One_nat_def)
    then have "unat t * unat (h div f) < 2 ^ 64"
      using bound by linarith
    then have "unat (t * ucast (h div f)) = unat t * unat (h div f)"
      using unat_mult_no_overflow[of t "ucast (h div f)"] by simp
    then show ?thesis
      using mul conv_mul_ratio[OF pos(1), of "unat t" "unat (h div f)" up off] k nd by (simp add: tmcvt_def Let_def)
  next
    case dv
    then have k: "unat f = unat (f div h) * unat h" and d: "0 < f div h"
      using pos by (metis add.right_neutral div_mult_mod_eq unat_0 unat_div unat_mod)
        (metis dv(3) unat_div div_greater_zero_iff less_imp_le_nat pos(2) unat_0 word_less_nat)
    let ?o = "if up then f div h - 1 else if off then f div h div 2 else (0 :: 32 word)"
    have nm: "\<not> f < h"
      using dv by auto
    have o: "unat ?o = round_off_nat (unat (f div h)) up off"
      by (rule unat_off[OF d])
    have "round_off_nat (unat (f div h)) up off \<le> unat (f div h)" "unat (f div h) \<le> unat f"
      by (auto simp: round_off_nat_def unat_div)
    then have "round_off_nat (unat (f div h)) up off \<le> unat f" "unat t \<le> unat t * unat h"
      using pos by (auto intro: le_trans)
    then have "unat t + unat ?o < 2 ^ 64"
      using bound o by linarith
    then have "unat (t + ucast ?o) = unat t + unat ?o"
      using unat_plus_no_overflow[of t "ucast ?o"] by simp
    moreover have "unat (x div ucast (f div h)) = unat x div unat (f div h)" for x :: "64 word"
      using unat_div[of x "ucast (f div h)"] by simp
    moreover have "tmcvt t f h c False up off = (t + ucast ?o) div ucast (f div h)"
      using dv nm by (cases up; cases off) (simp_all add: tmcvt_def)
    ultimately have "unat (tmcvt t f h c False up off) = (unat t + unat ?o) div unat (f div h)"
      by simp
    also have "\<dots> = conv_nat (unat t) (unat (f div h) * unat h) (unat h) up off"
      unfolding o using pos d by (intro conv_div_ratio[symmetric]) (auto simp: word_less_nat)
    finally show ?thesis
      using k by simp
  next
    case full
    let ?o = "if up then f - 1 else if off then f div 2 else (0 :: 32 word)"
    have o: "unat ?o = round_off_nat (unat f) up off"
      by (rule unat_off[OF f])
    then have "unat ?o \<le> unat f"
      by (simp add: round_off_nat_def)
    moreover have "unat (t * ucast h) = unat t * unat h"
      using bound by (subst unat_mult_no_overflow) auto
    ultimately have "unat (t * ucast h + ucast ?o) = unat t * unat h + unat ?o"
      using bound by (intro unat_plus_no_overflow[THEN trans]) auto
    moreover have "tmcvt t f h c False up off = (t * ucast h + ucast ?o) div ucast f"
      unfolding tmcvt_def Let_def by (simp only: full if_False) (cases up; cases off; simp)
    ultimately show ?thesis
      using o by (simp add: unat_div conv_nat_def)
  qed
qed

section \<open>Properties\<close>

text \<open>
  whichever of the three algorithms the frequencies select, a 64 bit conversion computes the
  exact quotient \<open>t * to_hz / from_hz\<close> rounded as requested, as long as the exact product fits 64 bits.
\<close>
theorem tmcvt_rounds:
  assumes "0 < from_hz" "0 < to_hz" "unat t * unat to_hz + unat from_hz < 2 ^ 64"
  shows "unat (tmcvt t from_hz to_hz const_hz False round_up round_off) =
    (unat t * unat to_hz + (if round_up then unat from_hz - 1 else if round_off then unat from_hz div 2 else 0))
      div unat from_hz"
  using tmcvt_exact[OF assms] by (simp add: conv_nat_def round_off_nat_def)

theorem tmcvt_rounds_witness:
  "unat (tmcvt 15 1000 100 True False True False) = 2 \<and> unat (tmcvt 15 180000000 1000 True False False False) = 0"
  using tmcvt_rounds[of 1000 100 15 True True False] tmcvt_rounds[of 180000000 1000 15 True False False]
  by (simp add: word_less_nat)

text \<open>
  converting ticks to microseconds and back loses nothing, for every tick count below
  \<open>2 ^ 64 / 10 ^ 6\<close>.
\<close>
theorem ticks_us_roundtrip:
  assumes "unat t < 2 ^ 64 div 1000000 - 10"
  shows "k_us_to_ticks_ceil64 (k_ticks_to_us_floor64 t) = t"
proof -
  have 1: "unat (k_ticks_to_us_floor64 t) = unat t * 10000"
    using tmcvt_exact[of Hticks Hus t True False False] assms conv_mul_ratio[of 100 "unat t" 10000 False False]
    by (simp add: k_ticks_to_us_floor64_def Hticks_def Hus_def word_less_nat)
  have "unat (k_us_to_ticks_ceil64 (k_ticks_to_us_floor64 t)) = conv_nat (unat t * 10000) (10000 * 100) 100 True False"
    using tmcvt_exact[of Hus Hticks "k_ticks_to_us_floor64 t" True True False] assms 1
    by (simp add: k_us_to_ticks_ceil64_def Hticks_def Hus_def word_less_nat)
  also have "\<dots> = unat t"
    by (subst conv_div_ratio) (simp_all add: round_off_nat_def)
  finally show ?thesis
    by (simp add: word_eq_nat)
qed

theorem ticks_us_roundtrip_witness:
  "k_us_to_ticks_ceil64 (k_ticks_to_us_floor64 123456789) = 123456789"
  using ticks_us_roundtrip[of 123456789] by simp

text \<open>
  the 32 bit conversions that round up wrap around: the rounding offset is added in 64 bits and
  the sum is truncated to 32 bits before the division, so the largest argument gives 0 ticks instead
  of being rounded up.
\<close>
theorem us_to_ticks_ceil32_wraps:
  "k_us_to_ticks_ceil32 (2 ^ 32 - 1) = 0 \<and> k_us_to_ticks_ceil32 (2 ^ 32 - 10000) = 429496"
  by (simp add: k_us_to_ticks_ceil32_def tmcvt_def Hus_def Hticks_def word_less_nat)

end
