(* ===== verification/Sys_Dlist.thy ===== *)
theory Sys_Dlist
  imports Prelude "HOL-Library.Multiset"
begin

text \<open>
  The circular doubly linked lists of \<^verbatim>\<open>inc/sys/dlist.h\<close>.  A list header and a list node are the
  same struct, so the heap maps addresses to one kind of cell: for the header, \<open>dn_next\<close> is the
  member \<open>head\<close> and \<open>dn_prev\<close> the member \<open>tail\<close>.  \<open>dlist h l xs\<close> states that the header at \<open>l\<close>
  represents the list of node addresses \<open>xs\<close>; each operation is related to the list operation it
  performs.
\<close>

section \<open>Nodes\<close>

record sys_dnode =
  dn_next :: ptr
  dn_prev :: ptr

type_synonym dheap = "ptr \<Rightarrow> sys_dnode option"

definition dnode_at :: "ptr \<Rightarrow> dheap \<Rightarrow> sys_dnode option" where
  "dnode_at p h = (if p = NULL then None else h p)"

definition dnode_upd :: "ptr \<Rightarrow> (sys_dnode \<Rightarrow> sys_dnode) \<Rightarrow> dheap \<Rightarrow> dheap option" where
  "dnode_upd p f h = do {
     n \<leftarrow> dnode_at p h;
     Some (h(p \<mapsto> f n)) }"

section \<open>Operations\<close>

definition sys_dlist_init :: "ptr \<Rightarrow> dheap \<Rightarrow> dheap option" where
  "sys_dlist_init l h = do {
     h \<leftarrow> dnode_upd l (dn_next_update (\<lambda>_. l)) h;
     dnode_upd l (dn_prev_update (\<lambda>_. l)) h }"

definition sys_dnode_init :: "ptr \<Rightarrow> dheap \<Rightarrow> dheap option" where
  "sys_dnode_init n h = do {
     h \<leftarrow> dnode_upd n (dn_next_update (\<lambda>_. NULL)) h;
     dnode_upd n (dn_prev_update (\<lambda>_. NULL)) h }"

definition sys_dnode_is_llinked :: "ptr \<Rightarrow> ptr \<Rightarrow> dheap \<Rightarrow> bool option" where
  "sys_dnode_is_llinked l n h = do {
     nd \<leftarrow> dnode_at n h;
     ls \<leftarrow> dnode_at l h;
     Some (dn_next nd = dn_prev ls) }"

definition sys_dnode_is_linked :: "ptr \<Rightarrow> dheap \<Rightarrow> bool option" where
  "sys_dnode_is_linked n h = do {
     nd \<leftarrow> dnode_at n h;
     Some (dn_next nd \<noteq> NULL) }"

definition sys_dlist_is_head :: "ptr \<Rightarrow> ptr \<Rightarrow> dheap \<Rightarrow> bool option" where
  "sys_dlist_is_head l n h = do {
     ls \<leftarrow> dnode_at l h;
     Some (dn_next ls = n) }"

definition sys_dlist_is_tail :: "ptr \<Rightarrow> ptr \<Rightarrow> dheap \<Rightarrow> bool option" where
  "sys_dlist_is_tail l n h = do {
     ls \<leftarrow> dnode_at l h;
     Some (dn_prev ls = n) }"

definition sys_dlist_is_empty :: "ptr \<Rightarrow> dheap \<Rightarrow> bool option" where
  "sys_dlist_is_empty l h = do {
     ls \<leftarrow> dnode_at l h;
     Some (dn_next ls = l) }"

definition sys_dlist_has_multiple_nodes :: "ptr \<Rightarrow> dheap \<Rightarrow> bool option" where
  "sys_dlist_has_multiple_nodes l h = do {
     ls \<leftarrow> dnode_at l h;
     Some (dn_next ls \<noteq> dn_prev ls) }"

definition sys_dlist_peek_head :: "ptr \<Rightarrow> dheap \<Rightarrow> ptr option" where
  "sys_dlist_peek_head l h = do {
     e \<leftarrow> sys_dlist_is_empty l h;
     if e then Some NULL else do {
       ls \<leftarrow> dnode_at l h;
       Some (dn_next ls) } }"

definition sys_dlist_peek_head_not_empty :: "ptr \<Rightarrow> dheap \<Rightarrow> ptr option" where
  "sys_dlist_peek_head_not_empty l h = do {
     ls \<leftarrow> dnode_at l h;
     Some (dn_next ls) }"

definition sys_dlist_peek_next_no_check :: "ptr \<Rightarrow> ptr \<Rightarrow> dheap \<Rightarrow> ptr option" where
  "sys_dlist_peek_next_no_check l n h = do {
     ls \<leftarrow> dnode_at l h;
     if n = dn_prev ls then Some NULL else do {
       nd \<leftarrow> dnode_at n h;
       Some (dn_next nd) } }"

definition sys_dlist_peek_next :: "ptr \<Rightarrow> ptr \<Rightarrow> dheap \<Rightarrow> ptr option" where
  "sys_dlist_peek_next l n h =
     (if n \<noteq> NULL then sys_dlist_peek_next_no_check l n h else Some NULL)"

definition sys_dlist_peek_prev_no_check :: "ptr \<Rightarrow> ptr \<Rightarrow> dheap \<Rightarrow> ptr option" where
  "sys_dlist_peek_prev_no_check l n h = do {
     ls \<leftarrow> dnode_at l h;
     if n = dn_next ls then Some NULL else do {
       nd \<leftarrow> dnode_at n h;
       Some (dn_prev nd) } }"

definition sys_dlist_peek_prev :: "ptr \<Rightarrow> ptr \<Rightarrow> dheap \<Rightarrow> ptr option" where
  "sys_dlist_peek_prev l n h =
     (if n \<noteq> NULL then sys_dlist_peek_prev_no_check l n h else Some NULL)"

definition sys_dlist_peek_tail :: "ptr \<Rightarrow> dheap \<Rightarrow> ptr option" where
  "sys_dlist_peek_tail l h = do {
     e \<leftarrow> sys_dlist_is_empty l h;
     if e then Some NULL else do {
       ls \<leftarrow> dnode_at l h;
       Some (dn_prev ls) } }"

definition sys_dlist_append :: "ptr \<Rightarrow> ptr \<Rightarrow> dheap \<Rightarrow> dheap option" where
  "sys_dlist_append l n h = do {
     h \<leftarrow> dnode_upd n (dn_next_update (\<lambda>_. l)) h;
     ls \<leftarrow> dnode_at l h;
     h \<leftarrow> dnode_upd n (dn_prev_update (\<lambda>_. dn_prev ls)) h;
     ls \<leftarrow> dnode_at l h;
     h \<leftarrow> dnode_upd (dn_prev ls) (dn_next_update (\<lambda>_. n)) h;
     dnode_upd l (dn_prev_update (\<lambda>_. n)) h }"

definition sys_dlist_prepend :: "ptr \<Rightarrow> ptr \<Rightarrow> dheap \<Rightarrow> dheap option" where
  "sys_dlist_prepend l n h = do {
     ls \<leftarrow> dnode_at l h;
     h \<leftarrow> dnode_upd n (dn_next_update (\<lambda>_. dn_next ls)) h;
     h \<leftarrow> dnode_upd n (dn_prev_update (\<lambda>_. l)) h;
     ls \<leftarrow> dnode_at l h;
     h \<leftarrow> dnode_upd (dn_next ls) (dn_prev_update (\<lambda>_. n)) h;
     dnode_upd l (dn_next_update (\<lambda>_. n)) h }"

definition sys_dlist_insert :: "ptr \<Rightarrow> ptr \<Rightarrow> dheap \<Rightarrow> dheap option" where
  "sys_dlist_insert successor n h = do {
     sc \<leftarrow> dnode_at successor h;
     h \<leftarrow> dnode_upd n (dn_next_update (\<lambda>_. dn_next sc)) h;
     h \<leftarrow> dnode_upd n (dn_prev_update (\<lambda>_. successor)) h;
     sc \<leftarrow> dnode_at successor h;
     h \<leftarrow> dnode_upd (dn_next sc) (dn_prev_update (\<lambda>_. n)) h;
     dnode_upd successor (dn_next_update (\<lambda>_. n)) h }"

partial_function (option) dlist_insert_pos :: "ptr \<Rightarrow> (ptr \<Rightarrow> bool) \<Rightarrow> ptr \<Rightarrow> dheap \<Rightarrow> ptr option" where
  "dlist_insert_pos l cond pos h =
     (if pos \<noteq> NULL \<and> \<not> cond pos then do {
        pos \<leftarrow> sys_dlist_peek_next l pos h;
        dlist_insert_pos l cond pos h }
      else Some pos)"

declare dlist_insert_pos.simps [code]

definition sys_dlist_insert_at :: "ptr \<Rightarrow> ptr \<Rightarrow> (ptr \<Rightarrow> bool) \<Rightarrow> dheap \<Rightarrow> dheap option" where
  "sys_dlist_insert_at l n cond h = do {
     e \<leftarrow> sys_dlist_is_empty l h;
     if e then sys_dlist_append l n h
     else do {
       pos \<leftarrow> sys_dlist_peek_head l h;
       pos \<leftarrow> dlist_insert_pos l cond pos h;
       if pos \<noteq> NULL then sys_dlist_insert pos n h
       else sys_dlist_append l n h } }"

definition sys_dlist_remove :: "ptr \<Rightarrow> dheap \<Rightarrow> dheap option" where
  "sys_dlist_remove n h = do {
     nd \<leftarrow> dnode_at n h;
     h \<leftarrow> dnode_upd (dn_prev nd) (dn_next_update (\<lambda>_. dn_next nd)) h;
     nd \<leftarrow> dnode_at n h;
     h \<leftarrow> dnode_upd (dn_next nd) (dn_prev_update (\<lambda>_. dn_prev nd)) h;
     sys_dnode_init n h }"

definition sys_dlist_get :: "ptr \<Rightarrow> dheap \<Rightarrow> (ptr \<times> dheap) option" where
  "sys_dlist_get l h = do {
     e \<leftarrow> sys_dlist_is_empty l h;
     if e then Some (NULL, h)
     else do {
       ls \<leftarrow> dnode_at l h;
       h \<leftarrow> sys_dlist_remove (dn_next ls) h;
       Some (dn_next ls, h) } }"

section \<open>Abstraction to lists\<close>

fun dlinks :: "dheap \<Rightarrow> ptr list \<Rightarrow> bool" where
  "dlinks h (a # b # xs) \<longleftrightarrow>
     map_option dn_next (h a) = Some b \<and> map_option dn_prev (h b) = Some a \<and> dlinks h (b # xs)"
| "dlinks h _ \<longleftrightarrow> True"

definition dlist :: "dheap \<Rightarrow> ptr \<Rightarrow> ptr list \<Rightarrow> bool" where
  "dlist h l xs \<longleftrightarrow> distinct (l # xs) \<and> NULL \<notin> set (l # xs) \<and> dlinks h (l # xs @ [l])"

text \<open>The heaps after linking \<open>n\<close> between the neighbours \<open>a\<close> and \<open>b\<close>, and after bypassing it.\<close>

definition dlinked :: "ptr \<Rightarrow> ptr \<Rightarrow> ptr \<Rightarrow> dheap \<Rightarrow> dheap" where
  "dlinked a n b h = (\<lambda>p. if p = n then Some \<lparr>dn_next = b, dn_prev = a\<rparr>
     else map_option (\<lambda>c. \<lparr>dn_next = if p = a then n else dn_next c, dn_prev = if p = b then n else dn_prev c\<rparr>) (h p))"

definition dbypassed :: "ptr \<Rightarrow> ptr \<Rightarrow> ptr \<Rightarrow> dheap \<Rightarrow> dheap" where
  "dbypassed a n b h = (\<lambda>p. if p = n then Some \<lparr>dn_next = NULL, dn_prev = NULL\<rparr>
     else map_option (\<lambda>c. \<lparr>dn_next = if p = a then b else dn_next c, dn_prev = if p = b then a else dn_prev c\<rparr>) (h p))"

lemma dnode_eta [simp]: "map_option (\<lambda>c. \<lparr>dn_next = dn_next c, dn_prev = dn_prev c\<rparr>) x = (x :: sys_dnode option)"
  by (cases x) simp_all

lemma dlinks_split:
  "dlinks h (us @ a # b # vs) \<longleftrightarrow> dlinks h (us @ [a]) \<and> map_option dn_next (h a) = Some b
     \<and> map_option dn_prev (h b) = Some a \<and> dlinks h (b # vs)"
  by (induction us rule: induct_list012) auto

lemma dlinks_cong:
  assumes "dlinks h zs"
    and "\<And>p. p \<in> set (butlast zs) \<Longrightarrow> map_option dn_next (h' p) = map_option dn_next (h p)"
    and "\<And>p. p \<in> set (tl zs) \<Longrightarrow> map_option dn_prev (h' p) = map_option dn_prev (h p)"
  shows "dlinks h' zs"
  using assms by (induction h zs rule: dlinks.induct) auto

lemma dlinks_dom:
  "dlinks h (us @ a # b # vs) \<Longrightarrow> \<exists>ca cb. h a = Some ca \<and> dn_next ca = b \<and> h b = Some cb \<and> dn_prev cb = a"
  by (auto simp: dlinks_split)

lemma dlinked_fields:
  "map_option dn_next (dlinked a n b h p) =
     (if p = n then Some b else if p = a then map_option (\<lambda>_. n) (h p) else map_option dn_next (h p))"
  "map_option dn_prev (dlinked a n b h p) =
     (if p = n then Some a else if p = b then map_option (\<lambda>_. n) (h p) else map_option dn_prev (h p))"
  unfolding fun_cong[OF dlinked_def] by (cases "h p"; auto)+

lemma dbypassed_fields:
  "map_option dn_next (dbypassed a n b h p) =
     (if p = n then Some NULL else if p = a then map_option (\<lambda>_. b) (h p) else map_option dn_next (h p))"
  "map_option dn_prev (dbypassed a n b h p) =
     (if p = n then Some NULL else if p = b then map_option (\<lambda>_. a) (h p) else map_option dn_prev (h p))"
  unfolding fun_cong[OF dbypassed_def] by (cases "h p"; auto)+

lemma dlinks_cong_off:
  assumes "dlinks h zs" "n \<notin> set zs" "a \<notin> set (butlast zs)" "b \<notin> set (tl zs)"
    and "\<And>p. p \<noteq> n \<Longrightarrow> p \<noteq> a \<Longrightarrow> map_option dn_next (h' p) = map_option dn_next (h p)"
    and "\<And>p. p \<noteq> n \<Longrightarrow> p \<noteq> b \<Longrightarrow> map_option dn_prev (h' p) = map_option dn_prev (h p)"
  shows "dlinks h' zs"
proof (rule dlinks_cong[OF assms(1)])
  show "map_option dn_next (h' p) = map_option dn_next (h p)" if "p \<in> set (butlast zs)" for p
    using that assms(2,3) in_set_butlastD[OF that] by (intro assms(5)) auto
  show "map_option dn_prev (h' p) = map_option dn_prev (h p)" if "p \<in> set (tl zs)" for p
    using that assms(2,4) list.set_sel(2)[of zs p] by (intro assms(6)) (cases zs; auto)+
qed

lemma dlinked_links:
  assumes "dlinks h (us @ a # b # vs)" "n \<notin> set (us @ a # b # vs)"
    and "distinct (us @ a # butlast (b # vs))" "distinct (tl (us @ [a]) @ b # vs)"
  shows "dlinks (dlinked a n b h) (us @ a # n # b # vs)"
proof -
  have L: "dlinks h (us @ [a])" "dlinks h (b # vs)" "map_option (\<lambda>_. n) (h a) = Some n" "map_option (\<lambda>_. n) (h b) = Some n"
    using assms(1) unfolding dlinks_split by auto
  have N: "n \<noteq> a" "n \<noteq> b" "n \<notin> set (us @ [a])" "n \<notin> set (b # vs)"
    using assms(2) by auto
  have D: "a \<notin> set (butlast (us @ [a]))" "b \<notin> set (tl (us @ [a]))" "a \<notin> set (butlast (b # vs))" "b \<notin> set (tl (b # vs))"
    using assms(3,4) by auto
  have "dlinks (dlinked a n b h) (us @ [a])" "dlinks (dlinked a n b h) (b # vs)"
    by (rule dlinks_cong_off[OF L(1) N(3) D(1,2)] dlinks_cong_off[OF L(2) N(4) D(3,4)]; simp add: dlinked_fields)+
  then show ?thesis
    unfolding dlinks_split[of _ us a n] using L(3,4) N by (simp add: dlinked_fields)
qed

lemma dbypassed_links:
  assumes "dlinks h (us @ a # n # b # vs)" "n \<notin> set (us @ a # b # vs)"
    and "distinct (us @ a # butlast (b # vs))" "distinct (tl (us @ [a]) @ b # vs)"
  shows "dlinks (dbypassed a n b h) (us @ a # b # vs)"
proof -
  have L: "dlinks h (us @ [a])" "dlinks h (b # vs)" "map_option (\<lambda>_. b) (h a) = Some b" "map_option (\<lambda>_. a) (h b) = Some a"
    using assms(1) unfolding dlinks_split by auto
  have N: "n \<noteq> a" "n \<noteq> b" "n \<notin> set (us @ [a])" "n \<notin> set (b # vs)"
    using assms(2) by auto
  have D: "a \<notin> set (butlast (us @ [a]))" "b \<notin> set (tl (us @ [a]))" "a \<notin> set (butlast (b # vs))" "b \<notin> set (tl (b # vs))"
    using assms(3,4) by auto
  have "dlinks (dbypassed a n b h) (us @ [a])" "dlinks (dbypassed a n b h) (b # vs)"
    by (rule dlinks_cong_off[OF L(1) N(3) D(1,2)] dlinks_cong_off[OF L(2) N(4) D(3,4)]; simp add: dbypassed_fields)+
  then show ?thesis
    unfolding dlinks_split[of _ us a b] using L(3,4) N by (simp add: dbypassed_fields)
qed


section \<open>Each operation on represented lists\<close>

lemma dlistD:
  assumes "dlist h l xs"
  shows "l \<noteq> NULL" "l \<notin> set xs" "NULL \<notin> set xs" "distinct xs" "dlinks h (l # xs @ [l])"
  using assms by (auto simp: dlist_def)

lemma dlist_adjacent:
  assumes "dlist h l xs" "l # xs @ [l] = us @ a # b # vs"
  shows "a \<noteq> NULL" "b \<noteq> NULL" "\<exists>c. h a = Some c \<and> dn_next c = b" "\<exists>c. h b = Some c \<and> dn_prev c = a"
proof -
  have "a \<in> set (l # xs @ [l])" "b \<in> set (l # xs @ [l])"
    unfolding assms(2) by auto
  then show "a \<noteq> NULL" "b \<noteq> NULL"
    using dlistD(1,3)[OF assms(1)] by auto
  show "\<exists>c. h a = Some c \<and> dn_next c = b" "\<exists>c. h b = Some c \<and> dn_prev c = a"
    using dlinks_dom[of h us a b vs] dlistD(5)[OF assms(1)] unfolding assms(2) by auto
qed

lemma dlist_cycle_distinct:
  assumes "distinct (l # xs)" "l # xs @ [l] = us @ a # b # vs"
  shows "distinct (us @ a # butlast (b # vs))" "distinct (tl (us @ [a]) @ b # vs)"
proof -
  have "butlast (us @ a # b # vs) = l # xs" "tl (us @ a # b # vs) = xs @ [l]"
    unfolding assms(2)[symmetric] by (simp_all add: butlast_append)
  moreover have "butlast (us @ a # b # vs) = us @ a # butlast (b # vs)"
    "tl (us @ a # b # vs) = tl (us @ [a]) @ b # vs"
    by (simp_all add: butlast_append tl_append split: list.split)
  ultimately show "distinct (us @ a # butlast (b # vs))" "distinct (tl (us @ [a]) @ b # vs)"
    using assms(1) by (metis, metis distinct1_rotate rotate1.simps(2))
qed

lemma dlist_perm:
  assumes "l # ys @ [l] = us @ a # n # b # vs" "l # xs @ [l] = us @ a # b # vs"
  shows "distinct (l # ys) = distinct (n # l # xs)" "set (l # ys) = set (n # l # xs)"
proof -
  have "mset (l # ys @ [l]) = mset (n # l # xs @ [l])"
    unfolding assms by simp
  then have "mset (l # ys) = mset (n # l # xs)"
    by simp
  then show "distinct (l # ys) = distinct (n # l # xs)" "set (l # ys) = set (n # l # xs)"
    by (rule mset_eq_imp_distinct_iff, rule mset_eq_setD)
qed

lemma dlist_link:
  assumes "dlist h l xs" "l # xs @ [l] = us @ a # b # vs" "n \<notin> set (l # xs)" "n \<noteq> NULL"
    and "l # ys @ [l] = us @ a # n # b # vs"
  shows "dlist (dlinked a n b h) l ys"
proof -
  have "n \<notin> set (us @ a # b # vs)"
    using assms(3) unfolding assms(2)[symmetric] by auto
  then have "dlinks (dlinked a n b h) (l # ys @ [l])"
    unfolding assms(5) using dlistD(5)[OF assms(1)] dlist_cycle_distinct[OF _ assms(2)] assms(1,2)
    by (intro dlinked_links) (simp_all add: dlist_def)
  moreover have "distinct (l # ys)" "NULL \<notin> set (l # ys)"
    unfolding dlist_perm[OF assms(5,2)] using assms(1,3,4) by (auto simp: dlist_def)
  ultimately show ?thesis
    by (simp add: dlist_def)
qed

lemma dlist_bypass:
  assumes "dlist h l ys" "l # ys @ [l] = us @ a # n # b # vs" "n \<noteq> l"
    and "l # xs @ [l] = us @ a # b # vs"
  shows "dlist (dbypassed a n b h) l xs"
proof -
  have D: "distinct (n # l # xs)" "NULL \<notin> set (n # l # xs)"
    unfolding dlist_perm[OF assms(2,4), symmetric] using assms(1) by (auto simp: dlist_def)
  then have "n \<notin> set (us @ a # b # vs)"
    unfolding assms(4)[symmetric] by auto
  then have "dlinks (dbypassed a n b h) (l # xs @ [l])"
    unfolding assms(4) using dlistD(5)[OF assms(1)] dlist_cycle_distinct[OF _ assms(4)] D assms(2)
    by (intro dbypassed_links) simp_all
  then show ?thesis
    using D by (simp add: dlist_def)
qed


lemma dlist_init:
  assumes "h l = Some c" "l \<noteq> NULL"
  shows "\<exists>h'. sys_dlist_init l h = Some h' \<and> dlist h' l []"
  using assms by (simp add: sys_dlist_init_def dnode_upd_def dnode_at_def dlist_def)

lemma dlist_is_empty:
  assumes "dlist h l xs"
  shows "sys_dlist_is_empty l h = Some (xs = [])"
  using dlist_adjacent(1,3)[OF assms, of "[]" l "hd (xs @ [l])" "tl (xs @ [l])"] dlistD(2)[OF assms]
  by (cases xs) (auto simp: sys_dlist_is_empty_def dnode_at_def)

lemma dlist_peek_head:
  assumes "dlist h l xs"
  shows "sys_dlist_peek_head l h = Some (if xs = [] then NULL else hd xs)"
  using dlist_adjacent(1,3)[OF assms, of "[]" l "hd (xs @ [l])" "tl (xs @ [l])"] dlist_is_empty[OF assms]
  by (cases xs) (auto simp: sys_dlist_peek_head_def dnode_at_def)

lemma dlist_last_cell:
  assumes "dlist h l xs"
  shows "\<exists>c. h l = Some c \<and> dn_prev c = last (l # xs)" "\<exists>c. h (last (l # xs)) = Some c \<and> dn_next c = l"
    "last (l # xs) \<noteq> NULL"
proof -
  have "l # xs @ [l] = butlast (l # xs) @ last (l # xs) # l # []"
    using append_butlast_last_id[of "l # xs"] by (metis append.assoc append_Cons append_Nil list.distinct(1))
  from dlist_adjacent[OF assms this]
  show "\<exists>c. h l = Some c \<and> dn_prev c = last (l # xs)" "\<exists>c. h (last (l # xs)) = Some c \<and> dn_next c = l"
    "last (l # xs) \<noteq> NULL" by auto
qed

lemma dlist_peek_tail:
  assumes "dlist h l xs"
  shows "sys_dlist_peek_tail l h = Some (if xs = [] then NULL else last xs)"
  using dlist_last_cell[OF assms] dlist_is_empty[OF assms] dlistD(1)[OF assms]
  by (auto simp: sys_dlist_peek_tail_def dnode_at_def)

lemma dlist_peek_next:
  assumes "dlist h l (us @ n # vs)"
  shows "sys_dlist_peek_next l n h = Some (if vs = [] then NULL else hd vs)"
proof -
  have n: "n \<noteq> NULL" and last: "\<exists>c. h l = Some c \<and> dn_prev c = last (n # vs)"
    using dlistD(3)[OF assms] dlist_last_cell(1)[OF assms] by auto
  have "\<exists>c. h n = Some c \<and> dn_next c = hd (vs @ [l])"
    using dlist_adjacent(3)[OF assms, of "l # us" n "hd (vs @ [l])" "tl (vs @ [l])"] by (cases vs) auto
  moreover have "vs \<noteq> [] \<Longrightarrow> n \<noteq> last vs"
    using dlistD(4)[OF assms] last_in_set[of vs] by auto
  ultimately show ?thesis
    using n last dlistD(1)[OF assms]
    by (auto simp: sys_dlist_peek_next_def sys_dlist_peek_next_no_check_def dnode_at_def split: if_splits)
qed

lemma dlist_peek_prev:
  assumes "dlist h l (us @ n # vs)"
  shows "sys_dlist_peek_prev l n h = Some (if us = [] then NULL else last us)"
proof -
  have n: "n \<noteq> NULL" 
    using dlistD(3)[OF assms] by auto
  have first: "\<exists>c. h l = Some c \<and> dn_next c = hd (us @ [n])"
    using dlist_adjacent(3)[OF assms, of "[]" l "hd (us @ [n])"] by (cases us) auto
  have "l # (us @ n # vs) @ [l] = butlast (l # us) @ last (l # us) # n # vs @ [l]"
    using append_butlast_last_id[of "l # us"] by (metis append.assoc append_Cons append_Nil list.distinct(1))
  from dlist_adjacent(4)[OF assms this] have "\<exists>c. h n = Some c \<and> dn_prev c = last (l # us)" .
  moreover have "us \<noteq> [] \<Longrightarrow> n \<noteq> hd us"
    using dlistD(4)[OF assms] hd_in_set[of us] by auto
  ultimately show ?thesis
    using n first dlistD(1)[OF assms]
    by (cases us) (auto simp: sys_dlist_peek_prev_def sys_dlist_peek_prev_no_check_def dnode_at_def split: if_splits)
qed

lemma dlist_append:
  assumes "dlist h l xs" "h n = Some c" "n \<noteq> NULL" "n \<notin> set (l # xs)"
  shows "\<exists>h'. sys_dlist_append l n h = Some h' \<and> dlist h' l (xs @ [n]) \<and> (\<forall>p. p \<notin> set (n # l # xs) \<longrightarrow> h' p = h p)"
proof -
  define a where "a = last (l # xs)"
  obtain cl ca where c: "h l = Some cl" "dn_prev cl = a" "h a = Some ca" "a \<noteq> NULL"
    using dlist_last_cell[OF assms(1)] unfolding a_def by auto
  have a: "a \<in> set (l # xs)" "a \<noteq> n"
    using last_in_set[of "l # xs"] assms(4) unfolding a_def by auto
  have "sys_dlist_append l n h = Some (dlinked a n l h)"
    using c assms(2-4) a(2) dlistD(1)[OF assms(1)]
    by (auto simp: sys_dlist_append_def dnode_upd_def dnode_at_def fun_cong[OF dlinked_def] fun_eq_iff)
  moreover have "dlist (dlinked a n l h) l (xs @ [n])"
    using append_butlast_last_id[of "l # xs"] unfolding a_def
    by (intro dlist_link[OF assms(1) _ assms(4,3), of "butlast (l # xs)" _ _ "[]"]) 
       (metis append.assoc append_Cons append_Nil list.distinct(1))+
  moreover have "dlinked a n l h p = h p" if "p \<notin> set (n # l # xs)" for p
    using that a(1) by (cases "h p") (auto simp: dlinked_def)
  ultimately show ?thesis by blast
qed


lemma dlinked_other: "p \<notin> {a, n, b} \<Longrightarrow> dlinked a n b h p = h p"
  by (cases "h p") (auto simp: dlinked_def)

lemma dbypassed_other: "p \<notin> {a, n, b} \<Longrightarrow> dbypassed a n b h p = h p"
  by (cases "h p") (auto simp: dbypassed_def)

lemma dlist_insert_after:
  assumes "dlist h l xs" "l # xs @ [l] = us @ a # b # vs" "h n = Some c" "n \<noteq> NULL" "n \<notin> set (l # xs)"
    and "l # ys @ [l] = us @ a # n # b # vs"
  shows "\<exists>h'. sys_dlist_insert a n h = Some h' \<and> dlist h' l ys \<and> (\<forall>p. p \<notin> set (n # l # xs) \<longrightarrow> h' p = h p)"
proof -
  obtain ca cb where c: "h a = Some ca" "dn_next ca = b" "h b = Some cb" "a \<noteq> NULL" "b \<noteq> NULL"
    using dlist_adjacent[OF assms(1,2)] by auto
  have "a \<in> set (l # xs @ [l])" "b \<in> set (l # xs @ [l])"
    unfolding assms(2) by auto
  then have in_xs: "a \<in> set (l # xs)" "b \<in> set (l # xs)" and n: "a \<noteq> n" "b \<noteq> n"
    using assms(5) by auto
  have "sys_dlist_insert a n h = Some (dlinked a n b h)"
    using c assms(3,4) n
    by (auto simp: sys_dlist_insert_def dnode_upd_def dnode_at_def fun_cong[OF dlinked_def] fun_eq_iff)
  moreover have "dlist (dlinked a n b h) l ys"
    by (rule dlist_link[OF assms(1,2,5,4,6)])
  moreover have "\<forall>p. p \<notin> set (n # l # xs) \<longrightarrow> dlinked a n b h p = h p"
    using in_xs by (auto intro!: dlinked_other)
  ultimately show ?thesis by blast
qed

lemma dlist_insert:
  assumes "dlist h l (us @ a # vs)" "h n = Some c" "n \<noteq> NULL" "n \<notin> set (l # us @ a # vs)"
  shows "\<exists>h'. sys_dlist_insert a n h = Some h' \<and> dlist h' l (us @ a # n # vs) \<and> (\<forall>p. p \<notin> set (n # l # us @ a # vs) \<longrightarrow> h' p = h p)"
  by (rule dlist_insert_after[OF assms(1) _ assms(2-4), of "l # us" a "hd (vs @ [l])" "tl (vs @ [l])"]) (cases vs; simp)+

lemma prepend_is_insert: "sys_dlist_prepend = sys_dlist_insert"
  by (simp add: fun_eq_iff sys_dlist_prepend_def sys_dlist_insert_def)

lemma dlist_prepend:
  assumes "dlist h l xs" "h n = Some c" "n \<noteq> NULL" "n \<notin> set (l # xs)"
  shows "\<exists>h'. sys_dlist_prepend l n h = Some h' \<and> dlist h' l (n # xs) \<and> (\<forall>p. p \<notin> set (n # l # xs) \<longrightarrow> h' p = h p)"
  unfolding prepend_is_insert
  by (rule dlist_insert_after[OF assms(1) _ assms(2-4), of "[]" l "hd (xs @ [l])" "tl (xs @ [l])"]) (cases xs; simp)+

lemma dlist_remove:
  assumes "dlist h l (us @ n # vs)"
  shows "\<exists>h'. sys_dlist_remove n h = Some h' \<and> dlist h' l (us @ vs) \<and> sys_dnode_is_linked n h' = Some False
    \<and> (\<forall>p. p \<notin> set (l # us @ n # vs) \<longrightarrow> h' p = h p)"
proof -
  define a b where ab: "a = last (l # us)" "b = hd (vs @ [l])"
  have cyc: "l # (us @ n # vs) @ [l] = butlast (l # us) @ a # n # b # tl (vs @ [l])"
    "l # (us @ vs) @ [l] = butlast (l # us) @ a # b # tl (vs @ [l])"
    using append_butlast_last_id[of "l # us"] list.collapse[of "vs @ [l]"] unfolding ab
    by (simp_all del: list.collapse last.simps butlast.simps)
  have n: "n \<noteq> l" "n \<notin> set us" "n \<notin> set vs" "n \<noteq> NULL"
    using dlistD[OF assms] by auto
  have in_xs: "a \<in> set (l # us)" "b \<in> set (vs @ [l])"
    unfolding ab by (rule last_in_set hd_in_set; simp)+
  then have "a \<noteq> n" "b \<noteq> n"
    using n by auto
  moreover obtain cn where "h n = Some cn" "dn_prev cn = a" "dn_next cn = b"
    using dlist_adjacent(4)[OF assms cyc(1)] dlist_adjacent(3)[OF assms, of "butlast (l # us) @ [a]" n b "tl (vs @ [l])"] cyc(1)
    by fastforce
  moreover obtain ca cb where "h a = Some ca" "a \<noteq> NULL" "h b = Some cb" "b \<noteq> NULL"
    using dlist_adjacent(1,3)[OF assms cyc(1)] dlist_adjacent(2,4)[OF assms, of "butlast (l # us) @ [a]" n b "tl (vs @ [l])"] cyc(1)
    by fastforce
  ultimately have "sys_dlist_remove n h = Some (dbypassed a n b h)"
    using n(4) by (auto simp: sys_dlist_remove_def sys_dnode_init_def dnode_upd_def dnode_at_def fun_cong[OF dbypassed_def] fun_eq_iff)
  moreover have "dlist (dbypassed a n b h) l (us @ vs)"
    by (rule dlist_bypass[OF assms cyc(1) n(1) cyc(2)])
  moreover have "sys_dnode_is_linked n (dbypassed a n b h) = Some False"
    using n(4) by (simp add: sys_dnode_is_linked_def dnode_at_def dbypassed_def)
  moreover have "\<forall>p. p \<notin> set (l # us @ n # vs) \<longrightarrow> dbypassed a n b h p = h p"
    using in_xs by (auto intro!: dbypassed_other)
  ultimately show ?thesis by blast
qed

lemma dlist_get:
  assumes "dlist h l xs"
  shows "\<exists>h'. sys_dlist_get l h = Some (if xs = [] then NULL else hd xs, h') \<and> dlist h' l (tl xs)
    \<and> (\<forall>p. p \<notin> set (l # xs) \<longrightarrow> h' p = h p)"
proof (cases xs)
  case Nil
  then show ?thesis
    using assms dlist_is_empty[OF assms] by (simp add: sys_dlist_get_def)
next
  case (Cons x ys)
  then have "\<exists>c. h l = Some c \<and> dn_next c = x"
    using dlist_adjacent(3)[OF assms, of "[]" l x] by simp
  then show ?thesis
    using Cons assms dlist_is_empty[OF assms] dlist_remove[of h l "[]" x ys] dlistD(1)[OF assms]
    by (auto simp: sys_dlist_get_def dnode_at_def)
qed

lemma dlist_insert_pos:
  assumes "dlist h l (us @ vs)"
  shows "dlist_insert_pos l cond (if vs = [] then NULL else hd vs) h =
    Some (case dropWhile (\<lambda>p. \<not> cond p) vs of [] \<Rightarrow> NULL | p # _ \<Rightarrow> p)"
  using assms
proof (induction vs arbitrary: us)
  case Nil
  then show ?case by (simp add: dlist_insert_pos.simps)
next
  case (Cons v vs)
  then have "v \<noteq> NULL" "sys_dlist_peek_next l v h = Some (if vs = [] then NULL else hd vs)"
    using dlistD(3)[OF Cons.prems] dlist_peek_next[of h l us v vs] by auto
  then show ?case
    using Cons.IH[of "us @ [v]"] Cons.prems by (subst dlist_insert_pos.simps) simp
qed


text \<open>
  Insertion by a condition: the new node lands behind the first node that satisfies the condition,
  and at the end when none does.
\<close>

definition insert_behind :: "('a \<Rightarrow> bool) \<Rightarrow> 'a \<Rightarrow> 'a list \<Rightarrow> 'a list" where
  "insert_behind P n xs = takeWhile (\<lambda>p. \<not> P p) xs @
     (case dropWhile (\<lambda>p. \<not> P p) xs of [] \<Rightarrow> [n] | p # ps \<Rightarrow> p # n # ps)"

lemma dlist_insert_at:
  assumes "dlist h l xs" "h n = Some c" "n \<noteq> NULL" "n \<notin> set (l # xs)"
  shows "\<exists>h'. sys_dlist_insert_at l n cond h = Some h' \<and> dlist h' l (insert_behind cond n xs)
    \<and> (\<forall>p. p \<notin> set (n # l # xs) \<longrightarrow> h' p = h p)"
proof (cases "dropWhile (\<lambda>p. \<not> cond p) xs")
  case Nil
  then have "takeWhile (\<lambda>p. \<not> cond p) xs = xs"
    by (metis append_Nil2 takeWhile_dropWhile_id)
  then have "insert_behind cond n xs = xs @ [n]"
    unfolding insert_behind_def Nil by simp
  moreover have "dlist_insert_pos l cond (if xs = [] then NULL else hd xs) h = Some NULL"
    using dlist_insert_pos[of h l "[]" xs cond] assms(1) unfolding Nil by simp
  then have "sys_dlist_insert_at l n cond h = sys_dlist_append l n h"
    using dlist_peek_head[OF assms(1)] dlist_is_empty[OF assms(1)] by (simp add: sys_dlist_insert_at_def split: if_splits)
  ultimately show ?thesis
    using dlist_append[OF assms] by simp
next
  case (Cons p ps)
  define us where "us = takeWhile (\<lambda>p. \<not> cond p) xs"
  have xs: "xs = us @ p # ps"
    using takeWhile_dropWhile_id[of "\<lambda>p. \<not> cond p" xs] Cons unfolding us_def by simp
  have "xs \<noteq> []" "p \<noteq> NULL"
    using dlistD(3)[OF assms(1)] unfolding xs by auto
  then have "sys_dlist_insert_at l n cond h = sys_dlist_insert p n h"
    using Cons dlist_insert_pos[of h l "[]" xs cond] dlist_peek_head[OF assms(1)] dlist_is_empty[OF assms(1)] assms(1)
    by (simp add: sys_dlist_insert_at_def)
  moreover have "insert_behind cond n xs = us @ p # n # ps"
    using Cons by (simp add: insert_behind_def us_def)
  ultimately show ?thesis
    using dlist_insert[of h l us p ps n c] assms unfolding xs by simp
qed

section \<open>Node queues\<close>

text \<open>
  Intrusive lists are used as queues: \<open>put\<close> links a free node behind the others and \<open>get\<close> unlinks the
  first one.  What a client may rely on is that nodes come out in the order they were put in.
\<close>

primrec put_all :: "('p \<Rightarrow> 's \<Rightarrow> 's option) \<Rightarrow> 'p list \<Rightarrow> 's \<Rightarrow> 's option" where
  "put_all put [] s = Some s"
| "put_all put (p # ps) s = do { s \<leftarrow> put p s; put_all put ps s }"

primrec get_all :: "('s \<Rightarrow> ('p \<times> 's) option) \<Rightarrow> nat \<Rightarrow> 's \<Rightarrow> ('p list \<times> 's) option" where
  "get_all get 0 s = Some ([], s)"
| "get_all get (Suc n) s = do { (p, s) \<leftarrow> get s; (ps, s) \<leftarrow> get_all get n s; Some (p # ps, s) }"

locale node_queue =
  fixes Rep :: "'s \<Rightarrow> 'p list \<Rightarrow> bool"
    and free :: "'p \<Rightarrow> 's \<Rightarrow> bool"
    and put :: "'p \<Rightarrow> 's \<Rightarrow> 's option"
    and get :: "'s \<Rightarrow> ('p \<times> 's) option"
  assumes put: "\<lbrakk>Rep s xs; free p s; p \<notin> set xs\<rbrakk> \<Longrightarrow> \<exists>s'. put p s = Some s' \<and> Rep s' (xs @ [p]) \<and> (\<forall>q. free q s \<longrightarrow> free q s')"
    and get: "Rep s (p # xs) \<Longrightarrow> \<exists>s'. get s = Some (p, s') \<and> Rep s' xs"
begin

lemma put_all_appends:
  assumes "Rep s xs" "distinct (xs @ ps)" "\<And>p. p \<in> set ps \<Longrightarrow> free p s"
  shows "\<exists>s'. put_all put ps s = Some s' \<and> Rep s' (xs @ ps)"
  using assms
proof (induction ps arbitrary: s xs)
  case (Cons p ps)
  then obtain s1 where s1: "put p s = Some s1" "Rep s1 (xs @ [p])" "\<And>q. free q s \<Longrightarrow> free q s1"
    using put[of s xs p] by auto
  then show ?case
    using Cons.IH[of s1 "xs @ [p]"] Cons.prems by simp
qed simp

lemma get_all_drains:
  assumes "Rep s xs"
  shows "\<exists>s'. get_all get (length xs) s = Some (xs, s') \<and> Rep s' []"
  using assms
proof (induction xs arbitrary: s)
  case (Cons p xs)
  then show ?case
    using get[OF Cons.prems] by fastforce
qed simp

lemma first_in_first_out:
  assumes "Rep s xs" "distinct (xs @ ps)" "\<And>p. p \<in> set ps \<Longrightarrow> free p s"
  shows "\<exists>s'. (put_all put ps s \<bind> get_all get (length (xs @ ps))) = Some (xs @ ps, s') \<and> Rep s' []"
proof -
  obtain s1 where s1: "put_all put ps s = Some s1" "Rep s1 (xs @ ps)"
    using put_all_appends[OF assms] by blast
  then show ?thesis
    using get_all_drains[OF s1(2)] by simp
qed

end

lemma dlist_dom:
  assumes "dlist h l xs" "p \<in> set (l # xs)"
  shows "h p \<noteq> None"
proof -
  obtain us vs where uv: "l # xs = us @ p # vs"
    using split_list[OF assms(2)] by blast
  then have "l # xs @ [l] = us @ p # hd (vs @ [l]) # tl (vs @ [l])"
    by (metis append.assoc append_Cons append_is_Nil_conv list.collapse list.distinct(1))
  then show ?thesis
    using dlist_adjacent(3)[OF assms(1)] by fastforce
qed

lemma dlist_linked:
  assumes "dlist h l xs" "p \<in> set xs"
  shows "sys_dnode_is_linked p h = Some True"
proof -
  obtain us vs where xs: "xs = us @ p # vs"
    using split_list[OF assms(2)] by blast
  have "l # xs @ [l] = (l # us) @ p # hd (vs @ [l]) # tl (vs @ [l])"
    by (cases vs) (simp_all add: xs)
  from dlist_adjacent[OF assms(1) this] show ?thesis
    by (auto simp: sys_dnode_is_linked_def dnode_at_def)
qed

interpretation dl: node_queue "\<lambda>h xs. dlist h l xs" "\<lambda>p h. p \<noteq> NULL \<and> p \<noteq> l \<and> h p \<noteq> None" "sys_dlist_append l" "sys_dlist_get l"
  for l :: ptr
proof unfold_locales
  fix h :: dheap and xs p
  assume A: "dlist h l xs" "p \<noteq> NULL \<and> p \<noteq> l \<and> h p \<noteq> None" "p \<notin> set xs"
  then obtain h' where h': "sys_dlist_append l p h = Some h'" "dlist h' l (xs @ [p])" "\<forall>q. q \<notin> set (p # l # xs) \<longrightarrow> h' q = h q"
    using dlist_append[of h l xs p] by auto
  have "h' q \<noteq> None" if "h q \<noteq> None" for q
    using that h'(3) dlist_dom[OF h'(2), of q] by (cases "q \<in> set (l # xs @ [p])") auto
  then show "\<exists>s'. sys_dlist_append l p h = Some s' \<and> dlist s' l (xs @ [p]) \<and>
      (\<forall>q. q \<noteq> NULL \<and> q \<noteq> l \<and> h q \<noteq> None \<longrightarrow> q \<noteq> NULL \<and> q \<noteq> l \<and> s' q \<noteq> None)"
    using h'(1,2) by blast
next
  fix h :: dheap and p xs
  assume "dlist h l (p # xs)"
  then show "\<exists>s'. sys_dlist_get l h = Some (p, s') \<and> dlist s' l xs"
    using dlist_get[of h l "p # xs"] by auto
qed

section \<open>Properties\<close>

definition dheap_ex :: dheap where
  "dheap_ex = [1 \<mapsto> \<lparr>dn_next = 2, dn_prev = 2\<rparr>, 2 \<mapsto> \<lparr>dn_next = 1, dn_prev = 1\<rparr>,
     3 \<mapsto> \<lparr>dn_next = 0, dn_prev = 0\<rparr>, 4 \<mapsto> \<lparr>dn_next = 0, dn_prev = 0\<rparr>]"

lemma dheap_ex_dlist: "dlist dheap_ex 1 [2]"
  by (simp add: dlist_def dheap_ex_def)

text \<open>
  C39: nodes appended to a list come out of \<^verbatim>\<open>sys_dlist_get\<close> in the order in which they were in the list
  and were appended, and the list is empty afterwards.
\<close>

theorem sys_dlist_fifo:
  assumes "dlist h l xs" "distinct (xs @ ps)" "\<forall>p \<in> set ps. p \<noteq> NULL \<and> p \<noteq> l \<and> h p \<noteq> None"
  shows "\<exists>h'. (put_all (sys_dlist_append l) ps h \<bind> get_all (sys_dlist_get l) (length (xs @ ps))) = Some (xs @ ps, h')
    \<and> dlist h' l []"
  using assms by (intro dl.first_in_first_out) auto

theorem sys_dlist_fifo_witness:
  "\<exists>h'. (put_all (sys_dlist_append 1) [3, 4] dheap_ex \<bind> get_all (sys_dlist_get 1) 3) = Some ([2, 3, 4], h') \<and> dlist h' 1 []"
  using sys_dlist_fifo[OF dheap_ex_dlist, of "[3, 4]"] by (simp add: dheap_ex_def numeral_3_eq_3)

text \<open>
  \<^verbatim>\<open>sys_dlist_insert_at\<close> ends on every list and links the node directly behind the first node that
  satisfies the condition (the comment of the function promises the place before it), or last when no node
  satisfies it.
\<close>

theorem sys_dlist_insert_at_behind:
  assumes "dlist h l xs" "h n = Some c" "n \<noteq> NULL" "n \<notin> set (l # xs)"
  shows "\<exists>h'. sys_dlist_insert_at l n cond h = Some h' \<and> dlist h' l (insert_behind cond n xs)"
  using dlist_insert_at[OF assms] by blast

theorem sys_dlist_insert_at_behind_witness:
  "\<exists>h'. sys_dlist_insert_at 1 3 (\<lambda>p. p = 2) dheap_ex = Some h' \<and> dlist h' 1 [2, 3]"
  using sys_dlist_insert_at_behind[OF dheap_ex_dlist, of 3 "\<lparr>dn_next = 0, dn_prev = 0\<rparr>" "\<lambda>p. p = 2"]
  by (simp add: dheap_ex_def insert_behind_def)

text \<open>
  removing a node keeps the order of the others and leaves the node unlinked; the removed node can be linked
  again at the place it was taken from.
\<close>

theorem sys_dlist_remove_insert:
  assumes "dlist h l (us @ a # n # vs)"
  shows "\<exists>h1 h2. sys_dlist_remove n h = Some h1 \<and> dlist h1 l (us @ a # vs) \<and> sys_dnode_is_linked n h1 = Some False
    \<and> sys_dlist_insert a n h1 = Some h2 \<and> dlist h2 l (us @ a # n # vs)"
proof -
  obtain h1 where h1: "sys_dlist_remove n h = Some h1" "dlist h1 l (us @ a # vs)" "sys_dnode_is_linked n h1 = Some False"
    using dlist_remove[of h l "us @ [a]" n vs] assms by auto
  obtain c where "h1 n = Some c" "n \<noteq> NULL"
    using h1(3) by (auto simp: sys_dnode_is_linked_def dnode_at_def bind_eq_Some_conv split: if_splits)
  moreover have "n \<notin> set (l # us @ a # vs)"
    using dlistD(2,4)[OF assms] by auto
  ultimately show ?thesis
    using h1 dlist_insert[OF h1(2)] by blast
qed

theorem sys_dlist_remove_insert_witness:
  "\<exists>h h1 h2. sys_dlist_append 1 3 dheap_ex = Some h \<and> sys_dlist_remove 3 h = Some h1 \<and> sys_dlist_insert 2 3 h1 = Some h2
    \<and> dlist h2 1 [2, 3]"
  using dlist_append[OF dheap_ex_dlist, of 3] sys_dlist_remove_insert[of _ 1 "[]" 2 3 "[]"]
  by (simp add: dheap_ex_def) blast

end
