(* ===== verification/Systick.thy ===== *)
theory Systick
  imports Time_Conv
begin

text \<open>
  The system timer driver \<^verbatim>\<open>src/drivers/timer/cortex_m_systick.c\<close>.  The registers of the 24 bit SysTick
  counter are fields of the state: \<open>val_a\<close>, \<open>countflag\<close> and \<open>val_c\<close> are what the three reads of
  \<open>elapsed\<close> return, and reading the control register clears \<open>countflag\<close>.  Whether the kernel is
  tickless is an argument, the value of the configuration switch.
\<close>

unbundle bit_operations_syntax

record systick =
  lastload_cycle :: word_t
  current_cycle :: word_t
  announced_cycle :: word_t
  overflowed_cycle :: word_t
  st_load :: word_t
  st_enabled :: bool
  val_a :: word_t
  countflag :: bool
  val_c :: word_t

definition MAX_COUNTS :: word_t where
  "MAX_COUNTS = 0x00ffffff"

definition CLOSING_COUNTS :: word_t where
  "CLOSING_COUNTS = 0xff000000"

definition FOREVER :: word_t where
  "FOREVER = - 1"

definition CYC_PER_TICK :: word_t where
  "CYC_PER_TICK = sys_clock_hw_cycles_per_sec div Hticks"

definition MAX_TICKS :: word_t where
  "MAX_TICKS = MAX_COUNTS div CYC_PER_TICK - 1"

definition MAX_CYCLES :: word_t where
  "MAX_CYCLES = MAX_TICKS * CYC_PER_TICK"

definition MIN_DELAY :: word_t where
  "MIN_DELAY = (if 1024 > CYC_PER_TICK div 16 then 1024 else CYC_PER_TICK div 16)"

definition smax :: "word_t \<Rightarrow> word_t \<Rightarrow> word_t" where
  "smax a b = (if b <s a then a else b)"

definition smin :: "word_t \<Rightarrow> word_t \<Rightarrow> word_t" where
  "smin a b = (if a <s b then a else b)"

definition elapsed :: "systick \<Rightarrow> word_t \<times> systick" where
  "elapsed st = (let wrapped = (countflag st \<or> val_a st < val_c st);
     st = st\<lparr>countflag := False\<rparr>;
     st = (if wrapped then st\<lparr>overflowed_cycle := overflowed_cycle st + lastload_cycle st\<rparr> else st)
     in (lastload_cycle st - val_c st + overflowed_cycle st, st))"

text \<open>\<open>clock_isr_ticks\<close> is \<^verbatim>\<open>clock_isr\<close> up to the announcement: the ticks given to \<^verbatim>\<open>update_timelist\<close>.\<close>

definition clock_isr_ticks :: "bool \<Rightarrow> systick \<Rightarrow> word_t \<times> systick" where
  "clock_isr_ticks TICKLESS st = (let
     (_, st) = elapsed st;
     st = st\<lparr>current_cycle := current_cycle st + overflowed_cycle st, overflowed_cycle := 0\<rparr>
     in if TICKLESS then
          let dticks = (current_cycle st - announced_cycle st) div CYC_PER_TICK
          in (dticks, st\<lparr>announced_cycle := announced_cycle st + dticks * CYC_PER_TICK\<rparr>)
        else (1, st))"

definition clock_init :: "systick \<Rightarrow> systick" where
  "clock_init st = st\<lparr>lastload_cycle := CYC_PER_TICK - 1, overflowed_cycle := 0,
     st_load := CYC_PER_TICK - 1, val_a := 0, val_c := 0, countflag := False, st_enabled := True\<rparr>"

definition timeout_delay :: "word_t \<Rightarrow> word_t \<Rightarrow> word_t" where
  "timeout_delay ticks unannounced =
     (let delay = ticks * CYC_PER_TICK;
          delay = delay + unannounced;
          delay = ((delay + CYC_PER_TICK - 1) div CYC_PER_TICK) * CYC_PER_TICK;
          delay = delay - unannounced;
          delay = (if delay > MIN_DELAY then delay else MIN_DELAY)
      in if delay > MAX_CYCLES then MAX_CYCLES else delay)"

definition clock_set_timeout :: "bool \<Rightarrow> bool \<Rightarrow> word_t \<Rightarrow> bool \<Rightarrow> systick \<Rightarrow> systick" where
  "clock_set_timeout TICKLESS TICKLESS_IDLE ticks idle st =
     (if TICKLESS_IDLE \<and> idle \<and> ticks = FOREVER then st\<lparr>st_enabled := False, lastload_cycle := CLOSING_COUNTS\<rparr>
      else if TICKLESS then
        let ticks = (if ticks = FOREVER then MAX_TICKS else ticks);
            ticks = smax (smin (ticks - 1) MAX_TICKS) 0;
            (pending, st) = elapsed st;
            st = st\<lparr>current_cycle := current_cycle st + pending, overflowed_cycle := 0\<rparr>;
            unannounced = current_cycle st - announced_cycle st;
            st = (if unannounced <s 0 then st\<lparr>lastload_cycle := MIN_DELAY\<rparr>
                  else st\<lparr>lastload_cycle := timeout_delay ticks unannounced\<rparr>)
        in st\<lparr>st_load := lastload_cycle st - 1, val_a := 0, val_c := 0, countflag := False\<rparr>
      else st)"

definition clock_elapsed :: "bool \<Rightarrow> systick \<Rightarrow> word_t \<times> systick" where
  "clock_elapsed TICKLESS st =
     (if \<not> TICKLESS then (0, st)
      else let (e, st) = elapsed st
           in ((e + current_cycle st - announced_cycle st) div CYC_PER_TICK, st))"

definition clock_cycle_get_32 :: "systick \<Rightarrow> word_t \<times> systick" where
  "clock_cycle_get_32 st = (let (e, st) = elapsed st in (e + current_cycle st, st))"

definition clock_idle_exit :: "systick \<Rightarrow> systick" where
  "clock_idle_exit st = (if lastload_cycle st = CLOSING_COUNTS then st\<lparr>st_enabled := True\<rparr> else st)"

definition clock_disable :: "systick \<Rightarrow> systick" where
  "clock_disable st = st\<lparr>st_enabled := False\<rparr>"

section \<open>Cycle accounting\<close>

lemma clock_consts:
  "CYC_PER_TICK = 1800000" "MAX_TICKS = 8" "MAX_CYCLES = 14400000" "MIN_DELAY = 112500"
  by (simp_all add: CYC_PER_TICK_def MAX_TICKS_def MAX_CYCLES_def MIN_DELAY_def MAX_COUNTS_def
      sys_clock_hw_cycles_per_sec_def Hticks_def)

lemma clock_consts_nat:
  "unat CYC_PER_TICK = 1800000" "unat MAX_TICKS = 8" "unat MAX_CYCLES = 14400000" "unat MIN_DELAY = 112500"
  by (simp_all add: clock_consts)

lemma unat_sint_nonneg:
  fixes w :: word_t
  assumes "0 \<le> sint w"
  shows "unat w = nat (sint w)" "unat w < 2 ^ 31"
proof -
  have "sint w < 2 ^ 31"
    using sint_lt[of w] by simp
  then have "uint w = sint w"
    using assms uint_word_of_int_eq[of "sint w", where ?'a = 32] by (simp add: take_bit_int_eq_self)
  then show "unat w = nat (sint w)" "unat w < 2 ^ 31"
    using \<open>sint w < 2 ^ 31\<close> assms by (simp_all add: nat_less_iff flip: nat_uint_eq)
qed

lemma timeout_ticks_bound: "unat (smax (smin t MAX_TICKS) 0) \<le> 8"
proof -
  let ?m = "smin t MAX_TICKS"
  have "sint ?m \<le> 8"
    by (auto simp: smin_def word_sless_alt clock_consts)
  then have "sint (smax ?m 0) \<le> 8" "0 \<le> sint (smax ?m 0)"
    by (auto simp: smax_def word_sless_alt)
  then show ?thesis
    by (simp add: unat_sint_nonneg(1))
qed

lemma round_up_nat: "b > 0 \<Longrightarrow> a \<le> (a + b - 1) div b * b \<and> (a + b - 1) div b * b < a + (b::nat)"
  using div_mult_mod_eq[of "a + b - 1" b] mod_less_divisor[of b "a + b - 1"] by linarith

lemma timeout_delay_nat:
  assumes "unat ticks \<le> 8" "unat u < 2 ^ 31"
  defines "r \<equiv> (unat ticks * 1800000 + unat u + 1799999) div 1800000 * 1800000 - unat u"
  shows "unat (timeout_delay ticks u) = min 14400000 (max 112500 r)"
proof -
  let ?c = "1800000 :: nat"
  have b: "unat ticks * ?c + unat u + 1799999 < 2 ^ 32" "unat ticks * ?c + unat u + ?c < 2 ^ 32"
    using assms(1,2) by auto
  have t: "unat (ticks * CYC_PER_TICK) = unat ticks * ?c"
    using assms(1) by (subst unat_mult_lem[THEN iffD1]) (simp_all add: clock_consts_nat)
  have d: "unat (ticks * CYC_PER_TICK + u) = unat ticks * ?c + unat u"
    using b by (subst unat_plus_no_overflow) (simp_all add: t)
  have e: "unat (ticks * CYC_PER_TICK + u + CYC_PER_TICK - 1) = unat ticks * ?c + unat u + 1799999"
  proof -
    have p: "unat (ticks * CYC_PER_TICK + u + CYC_PER_TICK) = unat ticks * ?c + unat u + ?c"
      using b by (subst unat_plus_no_overflow) (simp_all add: d clock_consts_nat)
    have "(1 :: word_t) \<le> ticks * CYC_PER_TICK + u + CYC_PER_TICK"
      by (simp add: word_le_nat p)
    then show ?thesis
      by (simp add: unat_minus_le p)
  qed
  let ?q = "(unat ticks * ?c + unat u + 1799999) div ?c"
  have up: "unat ticks * ?c + unat u \<le> ?q * ?c" "?q * ?c < 2 ^ 32"
    using round_up_nat[of ?c "unat ticks * ?c + unat u"] b by auto
  have q: "unat ((ticks * CYC_PER_TICK + u + CYC_PER_TICK - 1) div CYC_PER_TICK * CYC_PER_TICK) = ?q * ?c"
    using up(2) by (subst unat_mult_lem[THEN iffD1]) (simp_all add: unat_div e clock_consts_nat)
  then have f: "unat ((ticks * CYC_PER_TICK + u + CYC_PER_TICK - 1) div CYC_PER_TICK * CYC_PER_TICK - u) = r"
    using up(1) unfolding r_def by (subst unat_minus_le) (simp_all add: word_le_nat)
  show ?thesis
    unfolding timeout_delay_def Let_def by (auto simp: word_less_nat f clock_consts_nat min_def max_def)
qed

lemma not_sless_zero: "\<not> (u :: word_t) <s 0 \<Longrightarrow> unat u < 2 ^ 31"
  by (rule unat_sint_nonneg(2)) (simp add: word_sless_alt)

lemma clock_set_timeout_lastload:
  assumes "\<not> (ti \<and> idle \<and> ticks = FOREVER)" "st' = clock_set_timeout True ti ticks idle st"
  obtains t where "unat t \<le> 8"
    "lastload_cycle st' = (if current_cycle st' - announced_cycle st' <s 0 then MIN_DELAY
       else timeout_delay t (current_cycle st' - announced_cycle st'))"
proof (rule that)
  let ?t = "smax (smin ((if ticks = FOREVER then MAX_TICKS else ticks) - 1) MAX_TICKS) 0"
  show "unat ?t \<le> 8"
    by (rule timeout_ticks_bound)
  show "lastload_cycle st' = (if current_cycle st' - announced_cycle st' <s 0 then MIN_DELAY
       else timeout_delay ?t (current_cycle st' - announced_cycle st'))"
    unfolding assms(2) clock_set_timeout_def Let_def if_not_P[OF assms(1)] by (simp add: elapsed_def Let_def)
qed

lemma timeout_delay_bounds:
  assumes "unat t \<le> 8" "unat u < 2 ^ 31"
  shows "112500 \<le> unat (timeout_delay t u)" "unat (timeout_delay t u) \<le> 14400000"
    "112500 < unat (timeout_delay t u) \<Longrightarrow> unat (timeout_delay t u) < 14400000 \<Longrightarrow>
      (unat u + unat (timeout_delay t u)) mod 1800000 = 0"
proof -
  let ?k = "(unat t * 1800000 + unat u + 1799999) div 1800000"
  have r: "unat t * 1800000 + unat u \<le> ?k * 1800000"
    using round_up_nat[of 1800000 "unat t * 1800000 + unat u"] by simp
  show "112500 \<le> unat (timeout_delay t u)" "unat (timeout_delay t u) \<le> 14400000"
    unfolding timeout_delay_nat[OF assms] by auto
  assume "112500 < unat (timeout_delay t u)" "unat (timeout_delay t u) < 14400000"
  then have "unat (timeout_delay t u) = ?k * 1800000 - unat u"
    unfolding timeout_delay_nat[OF assms] by linarith
  then have "unat u + unat (timeout_delay t u) = ?k * 1800000"
    using r by linarith
  then show "(unat u + unat (timeout_delay t u)) mod 1800000 = 0"
    by simp
qed

section \<open>Properties\<close>

text \<open>
  C37: a tickless timeout always programs between the minimal delay and the largest whole number of ticks the
  24 bit counter holds, and when neither bound cuts it off, the programmed delay ends on a tick boundary: the
  cycles not announced yet and the delay add up to whole ticks.
\<close>

theorem clock_set_timeout_bounds:
  assumes "\<not> (ti \<and> idle \<and> ticks = FOREVER)" "st' = clock_set_timeout True ti ticks idle st"
  shows "MIN_DELAY \<le> lastload_cycle st' \<and> lastload_cycle st' \<le> MAX_CYCLES \<and> lastload_cycle st' \<le> MAX_COUNTS
    \<and> (MIN_DELAY < lastload_cycle st' \<and> lastload_cycle st' < MAX_CYCLES
        \<longrightarrow> (unat (current_cycle st' - announced_cycle st') + unat (lastload_cycle st')) mod unat CYC_PER_TICK = 0)"
proof -
  let ?u = "current_cycle st' - announced_cycle st'"
  obtain t where t: "unat t \<le> 8" "lastload_cycle st' = (if ?u <s 0 then MIN_DELAY else timeout_delay t ?u)"
    using clock_set_timeout_lastload[OF assms] by blast
  show ?thesis
  proof (cases "?u <s 0")
    case True
    then show ?thesis
      using t(2) by (simp add: word_le_nat word_less_nat clock_consts_nat MAX_COUNTS_def)
  next
    case False
    then have d: "unat (lastload_cycle st') = unat (timeout_delay t ?u)"
      using t(2) by simp
    show ?thesis
      using timeout_delay_bounds[OF t(1) not_sless_zero[OF False]]
      unfolding word_le_nat word_less_nat clock_consts_nat d by (simp add: MAX_COUNTS_def)
  qed
qed

theorem clock_set_timeout_bounds_witness:
  "lastload_cycle (clock_set_timeout True True 3 False \<lparr>lastload_cycle = 1799999, current_cycle = 0, announced_cycle = 0,
      overflowed_cycle = 0, st_load = 1799999, st_enabled = True, val_a = 1799000, countflag = False, val_c = 1799000\<rparr>) = 5399001
    \<and> MIN_DELAY \<le> 5399001 \<and> 5399001 \<le> MAX_COUNTS"
  using clock_set_timeout_bounds[OF _ refl, of True False 3 "\<lparr>lastload_cycle = 1799999, current_cycle = 0, announced_cycle = 0,
      overflowed_cycle = 0, st_load = 1799999, st_enabled = True, val_a = 1799000, countflag = False, val_c = 1799000\<rparr>"]
  by (simp add: clock_set_timeout_def elapsed_def timeout_delay_def clock_consts smin_def smax_def word_sless_alt FOREVER_def Let_def)



end
