(* ===== verification/Time_List.thy ===== *)
theory Time_List
  imports Systick Sys_Dlist
begin

text \<open>
  The timer event list of \<^verbatim>\<open>src/kernel/time.c\<close>: pending events in a doubly linked list, each with
  the ticks that separate it from the event before it.  An event is identified with the list node it
  contains, \<open>tl_list\<close> is the address of the list header, and \<open>te_handler\<close> the address of the handler
  function.  The kernel is configured without \<^verbatim>\<open>CONFIG_TICKLESS_KERNEL\<close> and \<^verbatim>\<open>CONFIG_SYSTEM_CLOCK_SLOPPY_IDLE\<close>.

  \<open>tl_rep\<close> relates the state to the list of events with their deltas and \<open>expiry_from\<close> gives the time at
  which each of them expires.
\<close>

section \<open>State\<close>

definition CONFIG_TICKLESS_KERNEL :: bool where
  "CONFIG_TICKLESS_KERNEL = False"

definition CONFIG_TICKLESS_IDLE :: bool where
  "CONFIG_TICKLESS_IDLE = False"

definition MAX_WAIT :: word_t where
  "MAX_WAIT = 0x7fffffff"

definition SYSTIMER_MIN_TICKS :: word_t where
  "SYSTIMER_MIN_TICKS = 10"

record timer_event =
  dvalue :: word_t
  te_data :: ptr
  te_handler :: ptr

record timelist =
  tl_heap :: dheap
  tl_events :: "ptr \<Rightarrow> timer_event option"
  tl_list :: ptr
  current_tick :: ticks_t
  dvalue_elapse :: word_t
  tl_clock :: systick

definition event_at :: "ptr \<Rightarrow> timelist \<Rightarrow> timer_event option" where
  "event_at p t = (if p = NULL then None else tl_events t p)"

definition event_upd :: "ptr \<Rightarrow> (timer_event \<Rightarrow> timer_event) \<Rightarrow> timelist \<Rightarrow> timelist option" where
  "event_upd p f t = do {
     e \<leftarrow> event_at p t;
     Some (t\<lparr>tl_events := (tl_events t)(p \<mapsto> f e)\<rparr>) }"

definition on_list :: "(dheap \<Rightarrow> dheap option) \<Rightarrow> timelist \<Rightarrow> timelist option" where
  "on_list f t = do {
     h \<leftarrow> f (tl_heap t);
     Some (t\<lparr>tl_heap := h\<rparr>) }"

section \<open>Operations\<close>

definition initialize_timelist :: "ptr \<Rightarrow> timelist \<Rightarrow> timelist option" where
  "initialize_timelist to t = on_list (sys_dnode_init to) t"

definition is_inactive_timelist :: "ptr \<Rightarrow> timelist \<Rightarrow> bool option" where
  "is_inactive_timelist to t = do {
     b \<leftarrow> sys_dnode_is_linked to (tl_heap t);
     Some (\<not> b) }"

definition is_active_timelist :: "ptr \<Rightarrow> timelist \<Rightarrow> bool option" where
  "is_active_timelist to t = sys_dnode_is_linked to (tl_heap t)"

definition first_node :: "timelist \<Rightarrow> ptr option" where
  "first_node t = sys_dlist_peek_head (tl_list t) (tl_heap t)"

definition next_node :: "ptr \<Rightarrow> timelist \<Rightarrow> ptr option" where
  "next_node to t = (if to \<noteq> NULL then sys_dlist_peek_next (tl_list t) to (tl_heap t) else Some NULL)"

definition timer_elapsed :: "timelist \<Rightarrow> word_t \<times> timelist" where
  "timer_elapsed t = (let (e, st) = clock_elapsed CONFIG_TICKLESS_KERNEL (tl_clock t) in (e, t\<lparr>tl_clock := st\<rparr>))"

definition timer_set_timeout :: "word_t \<Rightarrow> bool \<Rightarrow> timelist \<Rightarrow> timelist" where
  "timer_set_timeout ticks idle t =
     t\<lparr>tl_clock := clock_set_timeout CONFIG_TICKLESS_KERNEL CONFIG_TICKLESS_IDLE ticks idle (tl_clock t)\<rparr>"

definition elapsed_dvalue :: "timelist \<Rightarrow> word_t \<times> timelist" where
  "elapsed_dvalue t = (if dvalue_elapse t = 0 then timer_elapsed t else (0, t))"

definition next_dvalue :: "timelist \<Rightarrow> (word_t \<times> timelist) option" where
  "next_dvalue t = do {
     to \<leftarrow> first_node t;
     let (ticks_elapsed, t) = elapsed_dvalue t;
     if to = NULL then Some (MAX_WAIT, t)
     else do {
       e \<leftarrow> event_at to t;
       Some (dvalue e - ticks_elapsed, t) } }"

partial_function (option) timelist_place :: "ptr \<Rightarrow> ptr \<Rightarrow> timelist \<Rightarrow> (ptr \<times> timelist) option" where
  "timelist_place to ix t =
     (if ix = NULL then Some (NULL, t)
      else do {
        e \<leftarrow> event_at ix t;
        n \<leftarrow> event_at to t;
        if dvalue e > dvalue n then do {
          t \<leftarrow> event_upd ix (\<lambda>e. e\<lparr>dvalue := dvalue e - dvalue n\<rparr>) t;
          t \<leftarrow> on_list (sys_dlist_insert ix to) t;
          Some (ix, t) }
        else do {
          t \<leftarrow> event_upd to (\<lambda>n. n\<lparr>dvalue := dvalue n - dvalue e\<rparr>) t;
          ix \<leftarrow> next_node ix t;
          timelist_place to ix t } })"

declare timelist_place.simps [code]

definition add_to_timelist :: "ptr \<Rightarrow> ptr \<Rightarrow> ptr \<Rightarrow> word_t \<Rightarrow> timelist \<Rightarrow> timelist option" where
  "add_to_timelist to hdl data ticks t =
     (if to = NULL then Some t
      else do {
        free \<leftarrow> is_inactive_timelist to t;
        if free then do {
          t \<leftarrow> event_upd to (\<lambda>e. e\<lparr>te_handler := hdl, te_data := data\<rparr>) t;
          let (el, t) = elapsed_dvalue t;
          t \<leftarrow> event_upd to (\<lambda>e. e\<lparr>dvalue := smax 1 ticks + el\<rparr>) t;
          ix \<leftarrow> first_node t;
          (ix, t) \<leftarrow> timelist_place to ix t;
          t \<leftarrow> (if ix = NULL then on_list (sys_dlist_append (tl_list t) to) t else Some t);
          f \<leftarrow> first_node t;
          if to = f then do {
            (d, t) \<leftarrow> next_dvalue t;
            Some (timer_set_timeout d False t) }
          else Some t }
        else Some t })"

definition remove_from_timelist :: "ptr \<Rightarrow> timelist \<Rightarrow> timelist option" where
  "remove_from_timelist to t =
     (if to = NULL then Some t
      else do {
        active \<leftarrow> is_active_timelist to t;
        if active then on_list (sys_dlist_remove to) t else Some t })"

text \<open>The search of \<open>readd_to_timelist\<close>; it returns the creditor and the borrowed ticks.\<close>

partial_function (option) readd_find ::
    "ptr \<Rightarrow> word_t \<Rightarrow> ptr \<Rightarrow> ticks_t \<Rightarrow> timelist \<Rightarrow> (ptr \<times> word_t \<times> timelist) option" where
  "readd_find to dv ix curve t = do {
     e \<leftarrow> event_at ix t;
     let curve = curve + ucast (dvalue e);
     let borrow = ucast (ucast dv - curve);
     nx \<leftarrow> next_node ix t;
     ne \<leftarrow> event_at nx t;
     if ucast dv \<le> curve + ucast (dvalue ne) then do {
       t \<leftarrow> on_list (sys_dlist_insert to ix) t;
       creditor \<leftarrow> next_node ix t;
       Some (creditor, borrow, t) }
     else do {
       ix \<leftarrow> next_node ix t;
       readd_find to dv ix curve t } }"

declare readd_find.simps [code]

definition readd_to_timelist :: "ptr \<Rightarrow> word_t \<Rightarrow> timelist \<Rightarrow> timelist option" where
  "readd_to_timelist to dv t = do {
     assertK (dv \<noteq> 0 \<and> to \<noteq> NULL);
     let dv = dv + dvalue_elapse t;
     f \<leftarrow> first_node t;
     e \<leftarrow> event_at f t;
     (creditor, borrow, t) \<leftarrow>
       (if dv \<ge> dvalue e then readd_find to dv f 0 t
        else do {
          t \<leftarrow> on_list (sys_dlist_insert f to) t;
          f \<leftarrow> first_node t;
          Some (f, dv, t) });
     let borrow = (if borrow < SYSTIMER_MIN_TICKS then 0 else borrow);
     t \<leftarrow> event_upd creditor (\<lambda>e. e\<lparr>dvalue := borrow\<rparr>) t;
     event_upd creditor (\<lambda>e. e\<lparr>dvalue := dvalue e - borrow\<rparr>) t }"

partial_function (option) add_up_loop :: "ptr \<Rightarrow> ptr \<Rightarrow> word_t \<Rightarrow> timelist \<Rightarrow> word_t option" where
  "add_up_loop to ix ticks t =
     (if ix = NULL then Some ticks
      else do {
        e \<leftarrow> event_at ix t;
        let ticks = ticks + dvalue e;
        if to = ix then Some ticks
        else do {
          ix \<leftarrow> next_node ix t;
          add_up_loop to ix ticks t } })"

declare add_up_loop.simps [code]

definition add_up_timelist :: "ptr \<Rightarrow> timelist \<Rightarrow> (word_t \<times> timelist) option" where
  "add_up_timelist to t =
     (if to = NULL then Some (0, t)
      else do {
        active \<leftarrow> is_active_timelist to t;
        if active then do {
          ix \<leftarrow> first_node t;
          ticks \<leftarrow> add_up_loop to ix 0 t;
          let (el, t) = elapsed_dvalue t;
          Some (ticks - el, t) }
        else Some (0, t) })"

definition get_next_timelist :: "timelist \<Rightarrow> (word_t \<times> timelist) option" where
  "get_next_timelist t = next_dvalue t"

definition set_next_timelist :: "word_t \<Rightarrow> bool \<Rightarrow> timelist \<Rightarrow> timelist option" where
  "set_next_timelist ticks idle t = do {
     (nxt, t) \<leftarrow> next_dvalue t;
     let sooner = (nxt = MAX_WAIT \<or> ticks <s nxt);
     let imminent = (nxt \<le>s 1);
     if \<not> imminent \<and> sooner then Some (timer_set_timeout ticks idle t) else Some t }"

definition get_current_tick :: "timelist \<Rightarrow> ticks_t \<times> timelist" where
  "get_current_tick t = (let (e, t) = timer_elapsed t in (current_tick t + ucast e, t))"

definition get_current_tick_32 :: "timelist \<Rightarrow> word_t \<times> timelist" where
  "get_current_tick_32 t = (if CONFIG_TICKLESS_KERNEL then let (k, t) = get_current_tick t in (ucast k, t)
     else (ucast (current_tick t), t))"

definition get_uptime_64 :: "timelist \<Rightarrow> ticks_t \<times> timelist" where
  "get_uptime_64 t = (let (k, t) = get_current_tick t in (k_ticks_to_ms_floor64 k, t))"

section \<open>The list of deltas\<close>

definition tl_rep :: "timelist \<Rightarrow> (ptr \<times> word_t) list \<Rightarrow> bool" where
  "tl_rep t ps \<longleftrightarrow> dlist (tl_heap t) (tl_list t) (map fst ps)
     \<and> (\<forall>x \<in> set ps. map_option dvalue (tl_events t (fst x)) = Some (snd x))"

primrec expiry_from :: "nat \<Rightarrow> (ptr \<times> word_t) list \<Rightarrow> (ptr \<times> nat) list" where
  "expiry_from a [] = []"
| "expiry_from a (x # xs) = (fst x, a + unat (snd x)) # expiry_from (a + unat (snd x)) xs"

text \<open>What the insertion does to the list of deltas.\<close>

fun delta_add :: "ptr \<Rightarrow> word_t \<Rightarrow> (ptr \<times> word_t) list \<Rightarrow> (ptr \<times> word_t) list" where
  "delta_add n d [] = [(n, d)]"
| "delta_add n d ((p, e) # ps) = (if e > d then (p, e - d) # (n, d) # ps else (p, e) # delta_add n (d - e) ps)"

abbreviation delta_sum :: "(ptr \<times> word_t) list \<Rightarrow> nat" where
  "delta_sum ps \<equiv> sum_list (map (unat \<circ> snd) ps)"

lemmas tick_config = CONFIG_TICKLESS_KERNEL_def CONFIG_TICKLESS_IDLE_def

lemma timer_elapsed_eq [simp]: "timer_elapsed t = (0, t)"
  by (simp add: timer_elapsed_def clock_elapsed_def tick_config)

lemma elapsed_dvalue_eq [simp]: "elapsed_dvalue t = (0, t)"
  by (simp add: elapsed_dvalue_def)

lemma timer_set_timeout_eq [simp]: "timer_set_timeout ticks idle t = t"
  by (simp add: timer_set_timeout_def clock_set_timeout_def tick_config)

lemma first_node_rep: "tl_rep t ps \<Longrightarrow> first_node t = Some (if ps = [] then NULL else fst (hd ps))"
  using dlist_peek_head[of "tl_heap t" "tl_list t" "map fst ps"]
  by (cases ps) (auto simp: tl_rep_def first_node_def)

lemma next_node_rep:
  assumes "tl_rep t (us @ (p, d) # vs)"
  shows "next_node p t = Some (if vs = [] then NULL else fst (hd vs))"
  using assms dlist_peek_next[of "tl_heap t" "tl_list t" "map fst us" p "map fst vs"]
    dlistD(3)[of "tl_heap t" "tl_list t" "map fst (us @ (p, d) # vs)"]
  by (cases vs) (auto simp: tl_rep_def next_node_def)

lemma event_at_rep:
  assumes "tl_rep t (us @ (p, d) # vs)"
  shows "p \<noteq> NULL \<and> (\<exists>e. event_at p t = Some e \<and> tl_events t p = Some e \<and> dvalue e = d)"
  using assms dlistD(3)[of "tl_heap t" "tl_list t" "map fst (us @ (p, d) # vs)"]
  by (auto simp: tl_rep_def event_at_def)


text \<open>What the list operations leave alone: the header, the clock and the handlers of all events.\<close>

definition tl_same :: "timelist \<Rightarrow> timelist \<Rightarrow> bool" where
  "tl_same t t' \<longleftrightarrow> tl_list t' = tl_list t \<and> current_tick t' = current_tick t \<and> dvalue_elapse t' = dvalue_elapse t
     \<and> tl_clock t' = tl_clock t
     \<and> (\<forall>p. map_option (\<lambda>e. (te_handler e, te_data e)) (tl_events t' p) = map_option (\<lambda>e. (te_handler e, te_data e)) (tl_events t p))"

lemma tl_same_trans: "tl_same t t1 \<Longrightarrow> tl_same t1 t2 \<Longrightarrow> tl_same t t2"
  by (simp add: tl_same_def)

lemma tl_same_events:
  assumes "tl_events t p = Some e" "te_handler e' = te_handler e" "te_data e' = te_data e"
  shows "tl_same t (t\<lparr>tl_events := (tl_events t)(p \<mapsto> e')\<rparr>)"
  using assms by (simp add: tl_same_def)

lemma tl_same_heap [simp]: "tl_same t (t'\<lparr>tl_heap := h\<rparr>) = tl_same t t'"
  by (simp add: tl_same_def)

lemma tl_rep_event_off:
  assumes "tl_rep t ps" "p \<notin> fst ` set ps"
  shows "tl_rep (t\<lparr>tl_events := (tl_events t)(p \<mapsto> e)\<rparr>) ps"
  using assms by (auto simp: tl_rep_def image_iff)

lemma tl_rep_event_at:
  assumes "tl_rep t (us @ (p, d) # vs)"
  shows "tl_rep (t\<lparr>tl_events := (tl_events t)(p \<mapsto> e)\<rparr>) (us @ (p, dvalue e) # vs)"
proof -
  have "p \<notin> fst ` set us" "p \<notin> fst ` set vs"
    using assms dlistD(4)[of "tl_heap t" "tl_list t" "map fst (us @ (p, d) # vs)"] by (auto simp: tl_rep_def)
  then show ?thesis
    using assms by (auto simp: tl_rep_def image_iff)
qed

lemma tl_rep_heap:
  assumes "tl_rep t ps" "dlist h (tl_list t) (map fst qs)" "\<And>x. x \<in> set qs \<Longrightarrow> map_option dvalue (tl_events t (fst x)) = Some (snd x)"
  shows "tl_rep (t\<lparr>tl_heap := h\<rparr>) qs"
  using assms by (auto simp: tl_rep_def)

text \<open>A fresh event: allocated, not on the list, its node not linked.\<close>

definition tl_fresh :: "timelist \<Rightarrow> ptr \<Rightarrow> (ptr \<times> word_t) list \<Rightarrow> bool" where
  "tl_fresh t to ps \<longleftrightarrow> to \<noteq> NULL \<and> to \<noteq> tl_list t \<and> to \<notin> fst ` set ps
     \<and> (\<exists>c. tl_heap t to = Some c) \<and> (\<exists>e. tl_events t to = Some e)"

lemma tl_insert:
  assumes "tl_rep t (us @ (p, d) # vs)" "tl_fresh t to (us @ (p, d) # vs)" "map_option dvalue (tl_events t to) = Some n"
  shows "\<exists>t'. on_list (sys_dlist_insert p to) t = Some t' \<and> tl_rep t' (us @ (p, d) # (to, n) # vs) \<and> tl_same t t'"
proof -
  obtain c where c: "tl_heap t to = Some c" "to \<noteq> NULL" "to \<notin> set (tl_list t # map fst us @ p # map fst vs)"
    using assms(2) by (auto simp: tl_fresh_def)
  have "dlist (tl_heap t) (tl_list t) (map fst us @ p # map fst vs)"
    using assms(1) by (simp add: tl_rep_def)
  then obtain h where h: "sys_dlist_insert p to (tl_heap t) = Some h" "dlist h (tl_list t) (map fst us @ p # to # map fst vs)"
    using dlist_insert[of "tl_heap t" "tl_list t" "map fst us" p "map fst vs" to c] c by blast
  have "tl_rep (t\<lparr>tl_heap := h\<rparr>) (us @ (p, d) # (to, n) # vs)"
    using h(2) assms(1,3) by (intro tl_rep_heap[OF assms(1)]) (auto simp: tl_rep_def)
  then show ?thesis
    using h(1) by (simp add: on_list_def tl_same_def)
qed

lemma tl_append:
  assumes "tl_rep t us" "tl_fresh t to us" "map_option dvalue (tl_events t to) = Some n"
  shows "\<exists>t'. on_list (sys_dlist_append (tl_list t) to) t = Some t' \<and> tl_rep t' (us @ [(to, n)]) \<and> tl_same t t'"
proof -
  obtain c where c: "tl_heap t to = Some c" "to \<noteq> NULL" "to \<notin> set (tl_list t # map fst us)"
    using assms(2) by (auto simp: tl_fresh_def)
  have "dlist (tl_heap t) (tl_list t) (map fst us)"
    using assms(1) by (simp add: tl_rep_def)
  then obtain h where h: "sys_dlist_append (tl_list t) to (tl_heap t) = Some h" "dlist h (tl_list t) (map fst us @ [to])"
    using dlist_append[of "tl_heap t" "tl_list t" "map fst us" to c] c by blast
  have "tl_rep (t\<lparr>tl_heap := h\<rparr>) (us @ [(to, n)])"
    using h(2) assms(1,3) by (intro tl_rep_heap[OF assms(1)]) (auto simp: tl_rep_def)
  then show ?thesis
    using h(1) by (simp add: on_list_def tl_same_def)
qed

lemma timelist_place_rep:
  assumes "tl_rep t (us @ vs)" "tl_fresh t to (us @ vs)" "map_option dvalue (tl_events t to) = Some n"
  shows "\<exists>t'. (timelist_place to (if vs = [] then NULL else fst (hd vs)) t
      \<bind> (\<lambda>(ix, t). if ix = NULL then on_list (sys_dlist_append (tl_list t) to) t else Some t)) = Some t'
    \<and> tl_rep t' (us @ delta_add to n vs) \<and> tl_same t t'"
  using assms
proof (induction vs arbitrary: us t n)
  case Nil
  then show ?case
    using tl_append[of t us to n] by (simp add: timelist_place.simps)
next
  case (Cons x vs)
  obtain p d where x: "x = (p, d)" by fastforce
  note rep = Cons.prems(1)[unfolded x] and fresh = Cons.prems(2)[unfolded x]
  obtain e where e: "p \<noteq> NULL" "event_at p t = Some e" "tl_events t p = Some e" "dvalue e = d"
    using event_at_rep[OF rep] by blast
  obtain en where en: "event_at to t = Some en" "tl_events t to = Some en" "dvalue en = n" "to \<noteq> p"
    using fresh Cons.prems(3) by (auto simp: tl_fresh_def event_at_def)
  show ?case
  proof (cases "d > n")
    case True
    let ?t = "t\<lparr>tl_events := (tl_events t)(p \<mapsto> e\<lparr>dvalue := d - n\<rparr>)\<rparr>"
    have "tl_rep ?t (us @ (p, d - n) # vs)" "tl_fresh ?t to (us @ (p, d - n) # vs)" "tl_same t ?t"
      using tl_rep_event_at[OF rep, of "e\<lparr>dvalue := d - n\<rparr>"] fresh e by (auto simp: tl_fresh_def intro: tl_same_events)
    then obtain t' where "on_list (sys_dlist_insert p to) ?t = Some t'" "tl_rep t' (us @ (p, d - n) # (to, n) # vs)" "tl_same t t'"
      using tl_insert[of ?t us p "d - n" vs to n] en tl_same_trans[of t ?t] by auto
    then show ?thesis
      using True e en by (subst timelist_place.simps) (simp add: x event_upd_def)
  next
    case False
    let ?t = "t\<lparr>tl_events := (tl_events t)(to \<mapsto> en\<lparr>dvalue := n - d\<rparr>)\<rparr>"
    have rep': "tl_rep ?t (us @ (p, d) # vs)"
      by (rule tl_rep_event_off[OF rep]) (use fresh in \<open>auto simp: tl_fresh_def\<close>)
    have "tl_fresh ?t to (us @ (p, d) # vs)" "tl_same t ?t"
      using fresh en by (auto simp: tl_fresh_def intro: tl_same_events)
    then show ?thesis
      using Cons.IH[of ?t "us @ [(p, d)]" "n - d"] rep' next_node_rep[OF rep'] False e en tl_same_trans[of t ?t]
      by (subst timelist_place.simps) (auto simp: x event_upd_def)
  qed
qed

lemma tl_rep_cong: "tl_rep t ps \<Longrightarrow> tl_list t' = tl_list t \<Longrightarrow> tl_heap t' = tl_heap t \<Longrightarrow> tl_events t' = tl_events t \<Longrightarrow> tl_rep t' ps"
  by (simp add: tl_rep_def)

lemma next_dvalue_rep: "tl_rep t ps \<Longrightarrow> next_dvalue t = Some (if ps = [] then MAX_WAIT else snd (hd ps), t)"
  using event_at_rep[of t "[]" "fst (hd ps)" "snd (hd ps)" "tl ps"]
  by (cases ps) (auto simp: next_dvalue_def first_node_rep)

lemma add_to_timelist_rep:
  assumes "tl_rep t ps" "tl_fresh t to ps" "sys_dnode_is_linked to (tl_heap t) = Some False"
  shows "\<exists>t'. add_to_timelist to hdl data ticks t = Some t' \<and> tl_rep t' (delta_add to (smax 1 ticks) ps)
    \<and> (\<exists>e. tl_events t to = Some e \<and>
         tl_same (t\<lparr>tl_events := (tl_events t)(to \<mapsto> e\<lparr>te_handler := hdl, te_data := data\<rparr>)\<rparr>) t')"
proof -
  obtain e where e: "tl_events t to = Some e" "to \<noteq> NULL"
    using assms(2) by (auto simp: tl_fresh_def)
  let ?old = "t\<lparr>tl_events := (tl_events t)(to \<mapsto> e\<lparr>te_handler := hdl, te_data := data\<rparr>)\<rparr>"
  let ?t = "t\<lparr>tl_events := (tl_events t)(to \<mapsto> e\<lparr>te_handler := hdl, te_data := data, dvalue := smax 1 ticks\<rparr>)\<rparr>"
  define f0 where f0: "f0 = (if ps = [] then NULL else fst (hd ps))"
  have same: "tl_same ?old ?t"
    by (simp add: tl_same_def)
  have rep: "tl_rep ?t ps" "tl_fresh ?t to ps"
    using assms(2) by (auto intro!: tl_rep_event_off[OF assms(1)] simp: tl_fresh_def)
  then obtain t' where t': "(timelist_place to (if ps = [] then NULL else fst (hd ps)) ?t
      \<bind> (\<lambda>(ix, t). if ix = NULL then on_list (sys_dlist_append (tl_list t) to) t else Some t)) = Some t'"
    "tl_rep t' (delta_add to (smax 1 ticks) ps)" "tl_same ?t t'"
    using timelist_place_rep[of ?t "[]" ps to "smax 1 ticks"] by auto
  from t'(1)[folded f0] obtain ix t1 where place: "timelist_place to f0 ?t = Some (ix, t1)"
    "(if ix = NULL then on_list (sys_dlist_append (tl_list t1) to) t1 else Some t1) = Some t'"
    by (cases "timelist_place to f0 ?t") auto
  obtain f1 d where f1: "first_node t' = Some f1" "next_dvalue t' = Some (d, t')"
    using first_node_rep[OF t'(2)] next_dvalue_rep[OF t'(2)] by blast
  have "first_node ?t = Some f0"
    using first_node_rep[OF rep(1)] f0 by simp
  then have "add_to_timelist to hdl data ticks t = Some t'"
    using e assms(3) f1 place(1) place(2)
    by (cases "ix = NULL") (simp_all add: add_to_timelist_def is_inactive_timelist_def event_upd_def event_at_def)
  moreover have "tl_same ?old t'"
    by (rule tl_same_trans[OF same t'(3)])
  ultimately show ?thesis
    using t'(2) e(1) by (intro exI[of _ t'] exI[of _ e] conjI)
qed

lemma remove_from_timelist_rep:
  assumes "tl_rep t (us @ (p, d) # vs)"
  shows "\<exists>t'. remove_from_timelist p t = Some t' \<and> tl_rep t' (us @ vs) \<and> tl_same t t'
    \<and> sys_dnode_is_linked p (tl_heap t') = Some False"
proof -
  have D: "dlist (tl_heap t) (tl_list t) (map fst us @ p # map fst vs)"
    using assms by (simp add: tl_rep_def)
  obtain h where h: "sys_dlist_remove p (tl_heap t) = Some h" "dlist h (tl_list t) (map fst us @ map fst vs)"
    "sys_dnode_is_linked p h = Some False"
    using dlist_remove[OF D] by blast
  have "sys_dnode_is_linked p (tl_heap t) = Some True" "p \<noteq> NULL"
    using dlist_linked[OF D] dlistD(3)[OF D] by auto
  moreover have "tl_rep (t\<lparr>tl_heap := h\<rparr>) (us @ vs)"
    using h(2) assms by (intro tl_rep_heap[OF assms]) (auto simp: tl_rep_def)
  ultimately show ?thesis
    using h(1,3) by (simp add: remove_from_timelist_def is_active_timelist_def on_list_def tl_same_def)
qed

lemma add_up_loop_rep:
  assumes "tl_rep t (us @ vs @ (p, d) # ws)"
  shows "add_up_loop p (fst (hd (vs @ [(p, d)]))) a t = Some (a + sum_list (map snd vs) + d)"
  using assms
proof (induction vs arbitrary: us a)
  case Nil
  then show ?case
    using event_at_rep[of t us p d ws] by (subst add_up_loop.simps) auto
next
  case (Cons x vs)
  obtain q e where x: "x = (q, e)" by fastforce
  have "p \<noteq> q"
    using Cons.prems dlistD(4)[of "tl_heap t" "tl_list t" "map fst (us @ (x # vs) @ (p, d) # ws)"] by (auto simp: tl_rep_def x)
  moreover have "next_node q t = Some (fst (hd (vs @ [(p, d)])))"
    using next_node_rep[of t us q e "vs @ (p, d) # ws"] Cons.prems by (cases vs) (simp_all add: x)
  ultimately show ?case
    using Cons.IH[of "us @ [x]" "a + e"] Cons.prems event_at_rep[of t us q e "vs @ (p, d) # ws"]
    by (subst add_up_loop.simps) (auto simp: x add.assoc)
qed

lemma expiry_append:
  "expiry_from a (us @ vs) = expiry_from a us @ expiry_from (a + delta_sum us) vs"
  by (induction us arbitrary: a) (simp_all add: add.assoc)

lemma delta_add_append:
  assumes "delta_sum us \<le> unat d"
  shows "delta_add n d (us @ vs) = us @ delta_add n (d - word_of_nat (delta_sum us)) vs"
  using assms
proof (induction us arbitrary: d)
  case (Cons x us)
  obtain p e where x: "x = (p, e)" by fastforce
  have le: "\<not> e > d"
    using Cons.prems by (simp add: x word_less_nat)
  have "delta_sum us \<le> unat (d - e)"
    using Cons.prems le by (simp add: x unat_minus_le comp_def)
  from Cons.IH[OF this] show ?case
    using le by (simp add: x diff_diff_eq)
qed simp

section \<open>Properties\<close>

definition tl_ex :: "word_t \<Rightarrow> timelist" where
  "tl_ex d = \<lparr>tl_heap = dheap_ex, tl_events = [2 \<mapsto> \<lparr>dvalue = d, te_data = 0, te_handler = 7\<rparr>, 3 \<mapsto> \<lparr>dvalue = 0, te_data = 0, te_handler = 0\<rparr>],
     tl_list = 1, current_tick = 0, dvalue_elapse = 0,
     tl_clock = \<lparr>lastload_cycle = 0, current_cycle = 0, announced_cycle = 0, overflowed_cycle = 0, st_load = 0,
       st_enabled = True, val_a = 0, countflag = False, val_c = 0\<rparr>\<rparr>"

lemma tl_ex_rep: "tl_rep (tl_ex d) [(2, d)]"
  using dheap_ex_dlist by (simp add: tl_rep_def tl_ex_def)

lemma tl_ex_fresh: "tl_fresh (tl_ex d) 3 [(2, d)]" "sys_dnode_is_linked 3 (tl_heap (tl_ex d)) = Some False"
  by (simp_all add: tl_fresh_def tl_ex_def dheap_ex_def sys_dnode_is_linked_def dnode_at_def)



lemma smax_pos: "0 <s (w :: word_t) \<Longrightarrow> smax 1 w = w"
  by (auto simp: smax_def word_sless_alt)

lemma add_to_timelist_last:
  assumes "delta_sum ps \<le> unat ticks"
  shows "expiry_from 0 (delta_add to ticks ps) = expiry_from 0 ps @ [(to, unat ticks)]"
proof -
  have "delta_sum ps < 2 ^ 32"
    using assms unat_bound32[of ticks] by simp
  then have "unat (word_of_nat (delta_sum ps) :: word_t) = delta_sum ps"
    by (simp add: unat_word_of_nat)
  then have "unat (ticks - word_of_nat (delta_sum ps)) = unat ticks - delta_sum ps"
    using assms by (subst unat_minus_le) (simp_all add: word_le_nat)
  then show ?thesis
    using assms delta_add_append[OF assms, of to "[]"] by (simp add: expiry_append)
qed

lemma delta_add_swaps:
  assumes "delta_sum us \<le> unat d" "unat d < delta_sum us + unat e"
  shows "expiry_from 0 (delta_add to d (us @ (p, e) # ws)) = expiry_from 0 us @
    (p, delta_sum us + unat e - (unat d - delta_sum us)) # (to, delta_sum us + unat e) # expiry_from (delta_sum us + unat e) ws"
proof -
  define k where "k = d - word_of_nat (delta_sum us)"
  have "delta_sum us < 2 ^ 32"
    using assms(1) unat_bound32[of d] by simp
  then have "unat (word_of_nat (delta_sum us) :: word_t) = delta_sum us"
    by (simp add: unat_word_of_nat)
  then have k: "unat k = unat d - delta_sum us"
    unfolding k_def using assms(1) by (subst unat_minus_le) (simp_all add: word_le_nat)
  have "k < e"
    using assms by (simp add: word_less_nat k)
  moreover have "unat (e - k) = unat e - unat k"
    using \<open>k < e\<close> by (intro unat_minus_le) simp
  moreover have "unat k < unat e"
    using \<open>k < e\<close> by (simp add: word_less_nat)
  ultimately show ?thesis
    unfolding delta_add_append[OF assms(1)] k_def[symmetric] by (simp add: expiry_append k[symmetric])
qed

text \<open>
  C22: when the pending event \<open>p\<close> is the first to expire later than the added one, the new event is linked behind \<open>p\<close>
  although its delta was computed for the place in front of \<open>p\<close>: the new event expires at the old expiry of \<open>p\<close> instead
  of after its own delay, and \<open>p\<close> expires too early, by the part of the delay not covered by the events before it.
\<close>

theorem add_to_timelist_swaps_expiry:
  assumes "tl_rep t (us @ (p, e) # ws)" "tl_fresh t to (us @ (p, e) # ws)" "sys_dnode_is_linked to (tl_heap t) = Some False"
    and "0 <s ticks" "delta_sum us \<le> unat ticks" "unat ticks < delta_sum us + unat e"
  shows "\<exists>t' qs. add_to_timelist to hdl data ticks t = Some t' \<and> tl_rep t' qs
    \<and> expiry_from 0 qs = expiry_from 0 us @ (p, delta_sum us + unat e - (unat ticks - delta_sum us))
        # (to, delta_sum us + unat e) # expiry_from (delta_sum us + unat e) ws"
proof -
  obtain t' where "add_to_timelist to hdl data ticks t = Some t'" "tl_rep t' (delta_add to ticks (us @ (p, e) # ws))"
    using add_to_timelist_rep[OF assms(1-3), of hdl data ticks] unfolding smax_pos[OF assms(4)] by blast
  then show ?thesis
    using delta_add_swaps[OF assms(5,6), of to p ws] by blast
qed

theorem add_to_timelist_swaps_expiry_witness:
  "expiry_from 0 [(2, 20)] = [(2, 20)] \<and>
   (\<exists>t' qs. add_to_timelist 3 9 8 5 (tl_ex 20) = Some t' \<and> tl_rep t' qs \<and> expiry_from 0 qs = [(2, 15), (3, 20)])"
  using add_to_timelist_swaps_expiry[of "tl_ex 20" "[]" 2 20 "[]" 3 5 9 8] tl_ex_rep[of 20] tl_ex_fresh[of 20]
  by (simp add: word_sless_alt)

text \<open>
  for an event on the list, \<^verbatim>\<open>add_up_timelist\<close> returns the sum of the deltas up to and including its own.
\<close>

theorem add_up_timelist_sum:
  assumes "tl_rep t (vs @ (p, d) # ws)"
  shows "add_up_timelist p t = Some (sum_list (map snd vs) + d, t)"
proof -
  have "first_node t = Some (fst (hd (vs @ [(p, d)])))"
    using first_node_rep[OF assms] by (cases vs) simp_all
  moreover have "p \<noteq> NULL"
    using event_at_rep[OF assms] by blast
  moreover have "is_active_timelist p t = Some True"
    using assms dlist_linked[of "tl_heap t" "tl_list t" "map fst (vs @ (p, d) # ws)" p]
    by (simp add: tl_rep_def is_active_timelist_def)
  ultimately show ?thesis
    using add_up_loop_rep[of t "[]" vs p d ws 0] assms by (simp add: add_up_timelist_def)
qed

theorem add_up_timelist_sum_witness: "add_up_timelist 2 (tl_ex 20) = Some (20, tl_ex 20)"
  using add_up_timelist_sum[of "tl_ex 20" "[]" 2 20 "[]"] tl_ex_rep[of 20] by simp

end
