(* ===== verification/Kernel_Types.thy ===== *)
theory Kernel_Types
  imports Prelude Sporadic Time_List
begin

text \<open>
  The kernel objects of \<^verbatim>\<open>inc/kernel_object.h\<close> and the global variables of
  \<^verbatim>\<open>src/state/statedata.c\<close>.  Structs are records; the kernel heap is one map per object type from
  addresses to records, so that aliasing of pointers is explicit.  The configuration is the shipped
  one (\<^verbatim>\<open>project/test1/.config.template\<close>): one CPU, one domain, assertions on.

  The members of \<open>struct thread_base\<close>, \<open>struct thread_state_object\<close> and of the two architecture
  structs are fields of the record \<open>ktcb\<close> itself.
\<close>

section \<open>Constants\<close>

definition CONFIG_NUM_DOMAINS :: nat where
  "CONFIG_NUM_DOMAINS = 1"

definition NUM_PRIORITIES :: nat where
  "NUM_PRIORITIES = 256"

definition WORD_SIZE :: nat where
  "WORD_SIZE = 5"

definition WORD_BITS :: nat where
  "WORD_BITS = 2 ^ WORD_SIZE"

definition NUM_READY_QUEUES :: nat where
  "NUM_READY_QUEUES = CONFIG_NUM_DOMAINS * NUM_PRIORITIES"

definition L2_BITMAP_BITS :: nat where
  "L2_BITMAP_BITS = (NUM_PRIORITIES + WORD_BITS - 1) div WORD_BITS"

definition BIT :: "nat \<Rightarrow> word_t" where
  "BIT n = push_bit n 1"

definition MASK :: "nat \<Rightarrow> word_t" where
  "MASK n = BIT n - 1"

definition state_dummy_state :: word_t where
  "state_dummy_state = BIT 0"

definition state_recv_blocked_state :: word_t where
  "state_recv_blocked_state = BIT 1"

definition state_send_blocked_state :: word_t where
  "state_send_blocked_state = BIT 2"

definition state_restart_state :: word_t where
  "state_restart_state = BIT 3"

definition state_dead_state :: word_t where
  "state_dead_state = BIT 4"

definition state_suspended_state :: word_t where
  "state_suspended_state = BIT 5"

definition state_aborting_state :: word_t where
  "state_aborting_state = BIT 6"

definition state_queued_state :: word_t where
  "state_queued_state = BIT 7"

definition state_notify_blocked_state :: word_t where
  "state_notify_blocked_state = BIT 8"

definition obj_null_obj :: word_t where
  "obj_null_obj = 2"

definition SCHEDULER_ACTION_RESUME_CURRENT_THREAD :: ptr where
  "SCHEDULER_ACTION_RESUME_CURRENT_THREAD = 0"

definition SCHEDULER_ACTION_CHOOSE_NEW_THREAD :: ptr where
  "SCHEDULER_ACTION_CHOOSE_NEW_THREAD = 1"

definition SCHEDULER_ACTION_CHOOSE_PRIV_THREAD :: ptr where
  "SCHEDULER_ACTION_CHOOSE_PRIV_THREAD = 2"

lemmas [config_simps] = CONFIG_NUM_DOMAINS_def NUM_PRIORITIES_def WORD_SIZE_def WORD_BITS_def
  NUM_READY_QUEUES_def L2_BITMAP_BITS_def

lemmas state_bits = state_dummy_state_def state_recv_blocked_state_def state_send_blocked_state_def
  state_restart_state_def state_dead_state_def state_suspended_state_def state_aborting_state_def
  state_queued_state_def state_notify_blocked_state_def BIT_def

lemmas action_defs = SCHEDULER_ACTION_RESUME_CURRENT_THREAD_def SCHEDULER_ACTION_CHOOSE_NEW_THREAD_def
  SCHEDULER_ACTION_CHOOSE_PRIV_THREAD_def

section \<open>Objects\<close>

record tcb_queue =
  head :: ptr
  tail :: ptr

record dschedule =
  ds_domain :: word_t
  ds_length :: word_t

record ktcb =
  option :: byte_t
  obj_ptr :: ptr
  obj_state :: word_t
  sched_prior :: byte_t
  sched_locked :: byte_t
  mcp :: word_t
  domain :: word_t
  level :: word_t
  swap_data :: ptr
  callee_saved_mr :: "word_t list"
  psp :: word_t
  thread_id :: word_t
  user :: ptr
  abort_handle :: ptr
  notifation_node :: ptr
  message_node :: ptr
  sched :: ptr
  yield :: ptr
  ready_q_next :: ptr
  ready_q_prev :: ptr
  mesg_q_next :: ptr
  mesg_q_prev :: ptr
  swap_return_value :: word_t

record utcb =
  utcb_mr :: "word_t list"
  utcb_br :: "word_t list"

datatype message_state = message_state_idle | message_state_send | message_state_recv

datatype notifation_state = notifation_state_idle | notifation_state_wait | notifation_state_active

record message =
  msg_state :: message_state
  msg_queue :: tcb_queue

record notifation =
  ntf_state :: notifation_state
  ntf_queue :: tcb_queue
  bindedtcb :: ptr

record fastipc_path =
  fastipc_receive :: word_t
  fastipc_send :: word_t
  fastipc_timeout :: word_t
  fastipc_anysend :: ptr

text \<open>
  The kernel state.  \<open>current_thread\<close>, \<open>cpu_idle_thread\<close> and \<open>swap_ok\<close> are the members of the only
  \<open>struct cpu\<close>; \<open>idle_thread\<close>, \<open>main_thread\<close> and \<open>privilege_thread\<close> are the addresses of the three
  statically allocated threads.  \<open>in_isr\<close> tells whether the CPU
  runs in handler mode, and \<open>pendsv\<close> the pending bit of the context switch exception.  \<open>timers\<close> is the
  timer event list.  \<open>free_objects\<close> are the addresses the memory pool still has for kernel objects, \<open>d_objects\<close>
  the objects in the object tree and list with their types, and \<open>d_obj_type\<close> the type of the last allocated object.
\<close>

record kstate =
  tcbs :: "ptr \<Rightarrow> ktcb option"
  scheds :: "ptr \<Rightarrow> thread_sched option"
  messages :: "ptr \<Rightarrow> message option"
  notifations :: "ptr \<Rightarrow> notifation option"
  utcbs :: "ptr \<Rightarrow> utcb option"
  current_thread :: ptr
  cpu_idle_thread :: ptr
  swap_ok :: byte_t
  ready_thread :: ptr
  idle_thread :: ptr
  main_thread :: ptr
  privilege_thread :: ptr
  scheduler_action :: ptr
  ready_queues :: "tcb_queue list"
  release_queue :: ptr
  reprogram :: bool
  ready_queues_l1_bitmap :: "word_t list"
  ready_queues_l2_bitmap :: "word_t list list"
  consume_time :: ticks_t
  current_time :: ticks_t
  current_domain_time :: ticks_t
  current_domain :: word_t
  current_domain_schedule_idx :: word_t
  domain_schedule :: "dschedule list"
  work_units_completed :: word_t
  current_sched :: ptr
  current_syscall_error_code :: word_t
  current_kernel_status_code :: word_t
  record_threads :: "ptr list"
  record_thread_count :: word_t
  privilege_thread_status :: "word_t list"
  fastipc_caller :: fastipc_path
  timers :: timelist
  free_objects :: "ptr list"
  d_objects :: "(ptr \<times> word_t) list"
  d_obj_type :: word_t
  in_isr :: bool
  pendsv :: bool

text \<open>
  The state before the first thread is created: zeroed memory, with the addresses of the three
  static threads as arguments.
\<close>

definition empty_timelist :: timelist where
  "empty_timelist = \<lparr>tl_heap = [8 \<mapsto> \<lparr>dn_next = 8, dn_prev = 8\<rparr>], tl_events = (\<lambda>_. None), tl_list = 8,
     current_tick = 0, dvalue_elapse = 0,
     tl_clock = \<lparr>lastload_cycle = 0, current_cycle = 0, announced_cycle = 0, overflowed_cycle = 0, st_load = 0,
       st_enabled = False, val_a = 0, countflag = False, val_c = 0\<rparr>\<rparr>"

definition zero_kstate :: "ptr \<Rightarrow> ptr \<Rightarrow> ptr \<Rightarrow> kstate" where
  "zero_kstate idle mn priv = \<lparr>
     tcbs = (\<lambda>_. None), scheds = (\<lambda>_. None), messages = (\<lambda>_. None), notifations = (\<lambda>_. None),
     utcbs = (\<lambda>_. None), current_thread = 0, cpu_idle_thread = 0, swap_ok = 0, ready_thread = 0,
     idle_thread = idle, main_thread = mn, privilege_thread = priv, scheduler_action = 0,
     ready_queues = replicate NUM_READY_QUEUES \<lparr>head = 0, tail = 0\<rparr>, release_queue = 0, reprogram = False,
     ready_queues_l1_bitmap = replicate CONFIG_NUM_DOMAINS 0,
     ready_queues_l2_bitmap = replicate CONFIG_NUM_DOMAINS (replicate L2_BITMAP_BITS 0),
     consume_time = 0, current_time = 0, current_domain_time = 0, current_domain = 0,
     current_domain_schedule_idx = 0,
     domain_schedule = replicate CONFIG_NUM_DOMAINS \<lparr>ds_domain = 0, ds_length = 0\<rparr>,
     work_units_completed = 0, current_sched = 0, current_syscall_error_code = 0,
     current_kernel_status_code = 0, record_threads = replicate 256 0, record_thread_count = 0,
     privilege_thread_status = replicate 3 0,
     fastipc_caller = \<lparr>fastipc_receive = 0, fastipc_send = 0, fastipc_timeout = 0, fastipc_anysend = 0\<rparr>,
     timers = empty_timelist, free_objects = [], d_objects = [], d_obj_type = obj_null_obj,
     in_isr = False, pendsv = False\<rparr>"

section \<open>Dereferencing pointers\<close>

definition tcb_at :: "ptr \<Rightarrow> kstate \<Rightarrow> ktcb option" where
  "tcb_at p s = (if p = NULL then None else tcbs s p)"

definition tcb_upd :: "ptr \<Rightarrow> (ktcb \<Rightarrow> ktcb) \<Rightarrow> kstate \<Rightarrow> kstate option" where
  "tcb_upd p f s = do {
     t \<leftarrow> tcb_at p s;
     Some (s\<lparr>tcbs := (tcbs s)(p \<mapsto> f t)\<rparr>) }"

definition sched_at :: "ptr \<Rightarrow> kstate \<Rightarrow> thread_sched option" where
  "sched_at p s = (if p = NULL then None else scheds s p)"

definition sched_put :: "ptr \<Rightarrow> thread_sched \<Rightarrow> kstate \<Rightarrow> kstate option" where
  "sched_put p sc s = do {
     _ \<leftarrow> sched_at p s;
     Some (s\<lparr>scheds := (scheds s)(p \<mapsto> sc)\<rparr>) }"

definition message_at :: "ptr \<Rightarrow> kstate \<Rightarrow> message option" where
  "message_at p s = (if p = NULL then None else messages s p)"

definition message_put :: "ptr \<Rightarrow> message \<Rightarrow> kstate \<Rightarrow> kstate option" where
  "message_put p m s = do {
     _ \<leftarrow> message_at p s;
     Some (s\<lparr>messages := (messages s)(p \<mapsto> m)\<rparr>) }"

definition notifation_at :: "ptr \<Rightarrow> kstate \<Rightarrow> notifation option" where
  "notifation_at p s = (if p = NULL then None else notifations s p)"

definition notifation_put :: "ptr \<Rightarrow> notifation \<Rightarrow> kstate \<Rightarrow> kstate option" where
  "notifation_put p n s = do {
     _ \<leftarrow> notifation_at p s;
     Some (s\<lparr>notifations := (notifations s)(p \<mapsto> n)\<rparr>) }"

definition utcb_at :: "ptr \<Rightarrow> kstate \<Rightarrow> utcb option" where
  "utcb_at p s = (if p = NULL then None else utcbs s p)"

definition utcb_put :: "ptr \<Rightarrow> utcb \<Rightarrow> kstate \<Rightarrow> kstate option" where
  "utcb_put p u s = do {
     _ \<leftarrow> utcb_at p s;
     Some (s\<lparr>utcbs := (utcbs s)(p \<mapsto> u)\<rparr>) }"

lemma tcb_at_NULL [simp]: "tcb_at NULL s = None"
  by (simp add: tcb_at_def)

lemma tcb_at_SomeD: "tcb_at p s = Some t \<Longrightarrow> p \<noteq> NULL \<and> tcbs s p = Some t"
  by (simp add: tcb_at_def split: if_splits)

lemma tcb_upd_Some: "tcb_at p s = Some t \<Longrightarrow> tcb_upd p f s = Some (s\<lparr>tcbs := (tcbs s)(p \<mapsto> f t)\<rparr>)"
  by (simp add: tcb_upd_def)

lemma tcb_at_upd [simp]:
  "p \<noteq> NULL \<Longrightarrow> tcb_at q (s\<lparr>tcbs := (tcbs s')(p \<mapsto> t)\<rparr>) = (if q = p then Some t else tcb_at q (s\<lparr>tcbs := tcbs s'\<rparr>))"
  by (simp add: tcb_at_def)

lemma sched_at_NULL [simp]: "sched_at NULL s = None"
  by (simp add: sched_at_def)

end
