(* ===== verification/Prio_Bitmap.thy ===== *)
theory Prio_Bitmap
  imports Kernel_Types
begin

text \<open>
  The two-level bitmap of non-empty ready queues (\<^verbatim>\<open>inc/kernel/thread.h\<close>, \<^verbatim>\<open>src/kernel/thread.c\<close>).
  It is abstracted to the set of priorities whose bit is set; insertion, removal and the constant
  time search for the highest priority are shown to be the set operations.
\<close>

section \<open>Model\<close>

unbundle bit_operations_syntax

definition clzl :: "word_t \<Rightarrow> nat" where
  "clzl x = length (takeWhile (\<lambda>i. \<not> bit x i) (rev [0..<32]))"

definition prio_to_l1index :: "word_t \<Rightarrow> word_t" where
  "prio_to_l1index prio = drop_bit WORD_SIZE prio"

definition l1index_to_prio :: "word_t \<Rightarrow> word_t" where
  "l1index_to_prio l1index = push_bit WORD_SIZE l1index"

definition invert_l1index :: "word_t \<Rightarrow> word_t option" where
  "invert_l1index l1index = do {
     let inverted = of_nat L2_BITMAP_BITS - 1 - l1index;
     assertK (inverted < of_nat L2_BITMAP_BITS);
     Some inverted }"

definition add_to_bitmap :: "word_t \<Rightarrow> word_t \<Rightarrow> kstate \<Rightarrow> kstate option" where
  "add_to_bitmap dm prio s = do {
     let l1index = prio_to_l1index prio;
     l1index_inverted \<leftarrow> invert_l1index l1index;
     w \<leftarrow> arr_get (ready_queues_l1_bitmap s) dm;
     l1 \<leftarrow> arr_set (ready_queues_l1_bitmap s) dm (w OR BIT (unat l1index));
     row \<leftarrow> arr_get (ready_queues_l2_bitmap s) dm;
     w2 \<leftarrow> arr_get row l1index_inverted;
     row \<leftarrow> arr_set row l1index_inverted (w2 OR BIT (unat (prio AND MASK WORD_SIZE)));
     l2 \<leftarrow> arr_set (ready_queues_l2_bitmap s) dm row;
     Some (s\<lparr>ready_queues_l1_bitmap := l1, ready_queues_l2_bitmap := l2\<rparr>) }"

definition remove_from_bitmap :: "word_t \<Rightarrow> word_t \<Rightarrow> kstate \<Rightarrow> kstate option" where
  "remove_from_bitmap dm prio s = do {
     let l1index = prio_to_l1index prio;
     l1index_inverted \<leftarrow> invert_l1index l1index;
     row \<leftarrow> arr_get (ready_queues_l2_bitmap s) dm;
     w2 \<leftarrow> arr_get row l1index_inverted;
     let w2 = w2 AND NOT (BIT (unat (prio AND MASK WORD_SIZE)));
     row \<leftarrow> arr_set row l1index_inverted w2;
     l2 \<leftarrow> arr_set (ready_queues_l2_bitmap s) dm row;
     w \<leftarrow> arr_get (ready_queues_l1_bitmap s) dm;
     l1 \<leftarrow> (if w2 = 0 then arr_set (ready_queues_l1_bitmap s) dm (w AND NOT (BIT (unat l1index)))
            else Some (ready_queues_l1_bitmap s));
     Some (s\<lparr>ready_queues_l1_bitmap := l1, ready_queues_l2_bitmap := l2\<rparr>) }"

definition get_highest_prio :: "word_t \<Rightarrow> kstate \<Rightarrow> word_t option" where
  "get_highest_prio dm s = do {
     w \<leftarrow> arr_get (ready_queues_l1_bitmap s) dm;
     assertK (w \<noteq> 0);
     let l1index = of_nat (WORD_BITS - 1 - clzl w);
     l1index_inverted \<leftarrow> invert_l1index l1index;
     row \<leftarrow> arr_get (ready_queues_l2_bitmap s) dm;
     w2 \<leftarrow> arr_get row l1index_inverted;
     assertK (w2 \<noteq> 0);
     let l2index = of_nat (WORD_BITS - 1 - clzl w2);
     Some (l1index_to_prio l1index OR l2index) }"

definition is_highest_prio :: "word_t \<Rightarrow> word_t \<Rightarrow> kstate \<Rightarrow> bool option" where
  "is_highest_prio dm prio s = do {
     w \<leftarrow> arr_get (ready_queues_l1_bitmap s) dm;
     if w = 0 then Some True
     else do {
       h \<leftarrow> get_highest_prio dm s;
       Some (prio \<ge> h) } }"

section \<open>Abstraction to a set of priorities\<close>

definition row_ok :: "word_t \<Rightarrow> word_t list \<Rightarrow> bool" where
  "row_ok w row \<longleftrightarrow> length row = L2_BITMAP_BITS
     \<and> (\<forall>i < WORD_BITS. bit w i \<longleftrightarrow> i < L2_BITMAP_BITS \<and> row ! (L2_BITMAP_BITS - 1 - i) \<noteq> 0)"

definition bitmap_ok :: "kstate \<Rightarrow> bool" where
  "bitmap_ok s \<longleftrightarrow> length (ready_queues_l1_bitmap s) = CONFIG_NUM_DOMAINS
     \<and> length (ready_queues_l2_bitmap s) = CONFIG_NUM_DOMAINS
     \<and> (\<forall>d < CONFIG_NUM_DOMAINS. row_ok (ready_queues_l1_bitmap s ! d) (ready_queues_l2_bitmap s ! d))"

definition row_set :: "word_t list \<Rightarrow> nat set" where
  "row_set row = {p. p < NUM_PRIORITIES \<and> bit (row ! (L2_BITMAP_BITS - 1 - p div WORD_BITS)) (p mod WORD_BITS)}"

definition prio_set :: "kstate \<Rightarrow> nat \<Rightarrow> nat set" where
  "prio_set s d = row_set (ready_queues_l2_bitmap s ! d)"

lemma bitmap_config: "L2_BITMAP_BITS = 8" "WORD_BITS = 32" "NUM_PRIORITIES = 256"
  by (simp_all add: config_simps)

subsection \<open>Index arithmetic\<close>

lemma clzl_bit:
  assumes "x \<noteq> 0"
  shows "clzl x < 32" "bit x (31 - clzl x)" "\<And>i. bit x i \<Longrightarrow> i \<le> 31 - clzl x"
proof -
  let ?P = "\<lambda>i. \<not> bit x i" and ?l = "rev [0..<32]"
  obtain i where i: "bit x i"
    using assms bit_eq_iff[of x 0] by auto
  then have "i < 32"
    using bit_imp_le_length by fastforce
  then have "takeWhile ?P ?l \<noteq> ?l"
    using i by (auto simp: takeWhile_eq_all_conv)
  then show 1: "clzl x < 32"
    unfolding clzl_def
    by (metis diff_zero length_rev length_takeWhile_le length_upt nat_less_le takeWhile_eq_take take_all order_refl)
  have nth: "?l ! k = 31 - k" if "k < 32" for k
    using that by (simp add: rev_nth)
  show "bit x (31 - clzl x)"
    using nth_length_takeWhile[of ?P ?l] 1 nth[OF 1] by (simp add: clzl_def)
  fix j assume j: "bit x j"
  then have "j < 32"
    using bit_imp_le_length by fastforce
  show "j \<le> 31 - clzl x"
  proof (rule ccontr)
    assume "\<not> j \<le> 31 - clzl x"
    then have "31 - j < clzl x"
      using 1 \<open>j < 32\<close> by linarith
    then have "?P (takeWhile ?P ?l ! (31 - j))" "takeWhile ?P ?l ! (31 - j) = j"
      using nth_mem[of "31 - j" "takeWhile ?P ?l"] set_takeWhileD[of _ ?P ?l] nth[of "31 - j"] \<open>j < 32\<close>
      by (auto simp: clzl_def takeWhile_nth)
    with j show False
      by simp
  qed
qed

lemma unat_l1index: "unat (prio_to_l1index p) = unat p div 32"
  by (simp add: prio_to_l1index_def WORD_SIZE_def drop_bit_eq_div unat_div)

lemma unat_l2index: "unat (p AND MASK WORD_SIZE) = unat p mod 32"
proof -
  have "MASK WORD_SIZE = mask 5"
    by (simp add: MASK_def BIT_def WORD_SIZE_def mask_eq_exp_minus_1 push_bit_eq_mult)
  then show ?thesis
    by (simp add: take_bit_eq_mask [symmetric] unat_mod take_bit_eq_mod)
qed

lemma invert_l1index_Some:
  "unat l < 8 \<Longrightarrow> \<exists>v. invert_l1index l = Some v \<and> unat v = 7 - unat l"
  by (auto simp: invert_l1index_def bitmap_config word_less_nat Let_def unat_sub word_le_nat)

lemma bit_BIT: "bit (BIT n) k \<longleftrightarrow> k = n \<and> n < 32"
  by (auto simp: BIT_def bit_exp_iff push_bit_of_1)

lemma bit_row_update:
  assumes "p < 256" "q < 256" "length row = 8"
  shows "bit (row[7 - p div 32 := w] ! (7 - q div 32)) k =
    (if p div 32 = q div 32 then bit w k else bit (row ! (7 - q div 32)) k)"
proof -
  have "p div 32 < 8" "q div 32 < 8"
    using assms by auto
  then have "7 - p div 32 = 7 - q div 32 \<longleftrightarrow> p div 32 = q div 32"
    by linarith
  then show ?thesis
    using assms by (auto simp: nth_list_update)
qed

lemma div_mod_eq: "p div 32 = q div 32 \<Longrightarrow> q mod 32 = p mod 32 \<Longrightarrow> p = (q::nat)"
  by (metis div_mult_mod_eq)

lemma row_set_add:
  assumes "p < 256" "length row = 8"
  shows "row_set (row[7 - p div 32 := row ! (7 - p div 32) OR BIT (p mod 32)]) = insert p (row_set row)"
  using assms
  by (auto simp: row_set_def bitmap_config bit_row_update bit_or_iff bit_BIT split: if_splits dest: div_mod_eq)

lemma row_set_remove:
  assumes "p < 256" "length row = 8"
  shows "row_set (row[7 - p div 32 := row ! (7 - p div 32) AND NOT (BIT (p mod 32))]) = row_set row - {p}"
  using assms
  by (auto simp: row_set_def bitmap_config bit_row_update bit_and_iff bit_not_iff bit_BIT split: if_splits dest: div_mod_eq)

lemma row_ok_add:
  assumes "row_ok w row" "p < 256"
  shows "row_ok (w OR BIT (p div 32)) (row[7 - p div 32 := row ! (7 - p div 32) OR BIT (p mod 32)])"
proof -
  have "v OR BIT (p mod 32) \<noteq> 0" for v
    using bit_BIT[of "p mod 32" "p mod 32"] by (metis bit_0_eq bit_or_iff bot_apply bot_bool_def mod_less_divisor zero_less_numeral)
  moreover have "p div 32 < 8"
    using assms by auto
  ultimately show ?thesis
    using assms by (auto simp: row_ok_def bitmap_config bit_or_iff bit_BIT nth_list_update)
qed

lemma row_ok_remove:
  assumes "row_ok w row" "p < 256"
  defines "w2 \<equiv> row ! (7 - p div 32) AND NOT (BIT (p mod 32))"
  shows "row_ok (if w2 = 0 then w AND NOT (BIT (p div 32)) else w) (row[7 - p div 32 := w2])"
proof -
  have "p div 32 < 8"
    using assms by auto
  moreover have "7 - p div 32 = 7 - i \<longleftrightarrow> i = p div 32" if "i < 8" for i
    using that \<open>p div 32 < 8\<close> by linarith
  moreover have "w2 \<noteq> 0 \<Longrightarrow> row ! (7 - p div 32) \<noteq> 0"
    by (auto simp: w2_def)
  ultimately show ?thesis
    using assms(1)
    by (auto simp: row_ok_def bitmap_config bit_and_iff bit_not_iff bit_BIT nth_list_update w2_def [symmetric]
        possible_bit_def)
qed

lemma row_max:
  assumes ok: "row_ok w row" and w: "w \<noteq> 0"
  shows "clzl w \<ge> 24" "row ! (7 - (31 - clzl w)) \<noteq> 0"
    "Max (row_set row) = (31 - clzl w) * 32 + (31 - clzl (row ! (7 - (31 - clzl w))))"
    "row_set row \<noteq> {}"
proof -
  let ?i = "31 - clzl w" and ?w2 = "row ! (7 - (31 - clzl w))"
  let ?j = "31 - clzl ?w2"
  have i: "?i < 8" and w2: "?w2 \<noteq> 0"
    using clzl_bit(1,2)[OF w] ok by (auto simp: row_ok_def bitmap_config)
  then show "clzl w \<ge> 24" "?w2 \<noteq> 0"
    using clzl_bit(1)[OF w] by auto
  have j: "?j < 32" "bit ?w2 ?j"
    using clzl_bit[OF w2] by auto
  let ?p = "?i * 32 + ?j"
  have p: "?p div 32 = ?i" "?p mod 32 = ?j" "?p < 256"
    using i j by auto
  have mem: "?p \<in> row_set row"
    unfolding row_set_def bitmap_config using p j(2) by (simp only: mem_Collect_eq) simp
  then show "row_set row \<noteq> {}"
    by blast
  have "q \<le> ?p" if "q \<in> row_set row" for q
  proof -
    have q: "q < 256" "bit (row ! (7 - q div 32)) (q mod 32)"
      using that by (auto simp: row_set_def bitmap_config)
    then have "row ! (7 - q div 32) \<noteq> 0" "q div 32 < 8"
      by auto
    then have "bit w (q div 32)"
      using ok by (simp add: row_ok_def bitmap_config)
    then have "q div 32 \<le> ?i"
      using clzl_bit(3)[OF w] by blast
    moreover have "q mod 32 \<le> ?j" if "q div 32 = ?i"
      using clzl_bit(3)[OF w2] q(2) that by simp
    ultimately show ?thesis
      using j(1) div_mult_mod_eq[of q 32] by (cases "q div 32 = ?i") auto
  qed
  moreover have "finite (row_set row)"
    by (simp add: row_set_def)
  ultimately show "Max (row_set row) = ?p"
    using mem by (intro Max_eqI) auto
qed

lemma row_set_empty: "row_ok w row \<Longrightarrow> row_set row = {} \<longleftrightarrow> w = 0"
proof
  assume ok: "row_ok w row" and "w = 0"
  then have "row ! (7 - i) = 0" if "i < 8" for i
    using that by (auto simp: row_ok_def bitmap_config)
  then show "row_set row = {}"
    by (auto simp: row_set_def bitmap_config)
qed (use row_max(4) in blast)

lemma l1_or_l2:
  assumes "j < 32"
  shows "l1index_to_prio (word_of_nat i) OR word_of_nat j = (word_of_nat (i * 32 + j) :: word_t)"
proof -
  have "\<not> bit (word_of_nat j :: word_t) n" if "5 \<le> n" for n
  proof -
    have "take_bit 5 j = j"
      using assms by (simp add: take_bit_nat_eq_self)
    then show ?thesis
      using that by (metis bit_take_bit_iff of_nat_take_bit leD)
  qed
  then have "push_bit 5 (word_of_nat i) AND word_of_nat j = (0 :: word_t)"
    by (auto simp: bit_eq_iff bit_and_iff bit_push_bit_iff)
  from disjunctive_add_eq_or[OF this] show ?thesis
    by (simp add: l1index_to_prio_def WORD_SIZE_def push_bit_eq_mult mult.commute)
qed

section \<open>Operations on the set\<close>

definition bitmap_frame :: "kstate \<Rightarrow> kstate \<Rightarrow> bool" where
  "bitmap_frame s s' \<longleftrightarrow> (\<exists>l1 l2. s' = s\<lparr>ready_queues_l1_bitmap := l1, ready_queues_l2_bitmap := l2\<rparr>)"

lemma bitmap_update:
  assumes "bitmap_ok s" "d < CONFIG_NUM_DOMAINS" "row_ok w row"
    and s': "s' = s\<lparr>ready_queues_l1_bitmap := (ready_queues_l1_bitmap s)[d := w],
       ready_queues_l2_bitmap := (ready_queues_l2_bitmap s)[d := row]\<rparr>"
  shows "bitmap_ok s'" "prio_set s' = (prio_set s)(d := row_set row)" "bitmap_frame s s'"
  using assms by (auto simp: bitmap_ok_def prio_set_def bitmap_frame_def nth_list_update fun_eq_iff)

lemma add_to_bitmap_set:
  assumes "bitmap_ok s" "unat dm < CONFIG_NUM_DOMAINS" "unat prio < NUM_PRIORITIES"
  shows "\<exists>s'. add_to_bitmap dm prio s = Some s' \<and> bitmap_ok s' \<and> bitmap_frame s s'
    \<and> prio_set s' = (prio_set s)(unat dm := insert (unat prio) (prio_set s (unat dm)))"
proof -
  let ?w = "ready_queues_l1_bitmap s ! unat dm" and ?row = "ready_queues_l2_bitmap s ! unat dm"
  have ok: "row_ok ?w ?row" "length ?row = 8"
    using assms by (auto simp: bitmap_ok_def row_ok_def bitmap_config)
  have p: "unat prio < 256"
    using assms(3) by (simp add: bitmap_config)
  then have "unat prio div 32 < 8"
    by auto
  then obtain inv where inv: "invert_l1index (prio_to_l1index prio) = Some inv" "unat inv = 7 - unat prio div 32"
    using invert_l1index_Some[of "prio_to_l1index prio"] by (auto simp: unat_l1index)
  let ?row' = "?row[7 - unat prio div 32 := ?row ! (7 - unat prio div 32) OR BIT (unat prio mod 32)]"
  have "add_to_bitmap dm prio s = Some (s\<lparr>ready_queues_l1_bitmap := (ready_queues_l1_bitmap s)[unat dm := ?w OR BIT (unat prio div 32)],
       ready_queues_l2_bitmap := (ready_queues_l2_bitmap s)[unat dm := ?row']\<rparr>)"
    using assms(1,2) ok(2) inv by (simp add: add_to_bitmap_def bitmap_ok_def unat_l1index unat_l2index)
  with bitmap_update[OF assms(1,2) row_ok_add[OF ok(1) p] refl] row_set_add[OF p ok(2)] show ?thesis
    by (simp add: prio_set_def)
qed

lemma remove_from_bitmap_set:
  assumes "bitmap_ok s" "unat dm < CONFIG_NUM_DOMAINS" "unat prio < NUM_PRIORITIES"
  shows "\<exists>s'. remove_from_bitmap dm prio s = Some s' \<and> bitmap_ok s' \<and> bitmap_frame s s'
    \<and> prio_set s' = (prio_set s)(unat dm := prio_set s (unat dm) - {unat prio})"
proof -
  let ?w = "ready_queues_l1_bitmap s ! unat dm" and ?row = "ready_queues_l2_bitmap s ! unat dm"
  have ok: "row_ok ?w ?row" "length ?row = 8"
    using assms by (auto simp: bitmap_ok_def row_ok_def bitmap_config)
  have p: "unat prio < 256"
    using assms(3) by (simp add: bitmap_config)
  then have "unat prio div 32 < 8"
    by auto
  then obtain inv where inv: "invert_l1index (prio_to_l1index prio) = Some inv" "unat inv = 7 - unat prio div 32"
    using invert_l1index_Some[of "prio_to_l1index prio"] by (auto simp: unat_l1index)
  let ?w2 = "?row ! (7 - unat prio div 32) AND NOT (BIT (unat prio mod 32))"
  have "remove_from_bitmap dm prio s = Some (s\<lparr>ready_queues_l1_bitmap :=
       (ready_queues_l1_bitmap s)[unat dm := if ?w2 = 0 then ?w AND NOT (BIT (unat prio div 32)) else ?w],
       ready_queues_l2_bitmap := (ready_queues_l2_bitmap s)[unat dm := ?row[7 - unat prio div 32 := ?w2]]\<rparr>)"
    using assms(1,2) ok(2) inv by (simp add: remove_from_bitmap_def bitmap_ok_def unat_l1index unat_l2index)
  with bitmap_update[OF assms(1,2) row_ok_remove[OF ok(1) p] refl] row_set_remove[OF p ok(2)] show ?thesis
    by (simp add: prio_set_def)
qed

lemma get_highest_prio_Max:
  assumes "bitmap_ok s" "unat dm < CONFIG_NUM_DOMAINS" "prio_set s (unat dm) \<noteq> {}"
  shows "\<exists>p. get_highest_prio dm s = Some p \<and> unat p = Max (prio_set s (unat dm))"
proof -
  let ?w = "ready_queues_l1_bitmap s ! unat dm" and ?row = "ready_queues_l2_bitmap s ! unat dm"
  have ok: "row_ok ?w ?row" "length ?row = 8"
    using assms by (auto simp: bitmap_ok_def row_ok_def bitmap_config)
  have w: "?w \<noteq> 0"
    using row_set_empty[OF ok(1)] assms(3) by (auto simp: prio_set_def)
  note M = row_max[OF ok(1) w]
  let ?i = "31 - clzl ?w" and ?w2 = "?row ! (7 - (31 - clzl ?w))"
  let ?j = "31 - clzl ?w2"
  have i: "?i < 8"
    using M(1) by simp
  then have ui: "unat (word_of_nat ?i :: word_t) = ?i"
    by (simp add: unat_of_nat)
  obtain inv where inv: "invert_l1index (word_of_nat ?i) = Some inv" "unat inv = 7 - ?i"
    using invert_l1index_Some[of "word_of_nat ?i"] ui i by auto
  have "l1index_to_prio (word_of_nat ?i) OR word_of_nat ?j = (word_of_nat (?i * 32 + ?j) :: word_t)"
    by (simp add: l1_or_l2)
  moreover have "unat (word_of_nat (?i * 32 + ?j) :: word_t) = ?i * 32 + ?j"
    using i by (intro unat_word_of_nat) simp
  moreover have "arr_get ?row inv = Some ?w2"
    using ok(2) inv(2) by (subst arr_get_Some) auto
  ultimately show ?thesis
    using assms(1,2) w M inv(1)
    by (simp add: get_highest_prio_def bitmap_ok_def bitmap_config prio_set_def del: of_nat_add of_nat_mult)
qed

lemma is_highest_prio_iff:
  assumes "bitmap_ok s" "unat dm < CONFIG_NUM_DOMAINS"
  shows "is_highest_prio dm prio s = Some (\<forall>p \<in> prio_set s (unat dm). p \<le> unat prio)"
proof -
  let ?w = "ready_queues_l1_bitmap s ! unat dm"
  have w: "?w = 0 \<longleftrightarrow> prio_set s (unat dm) = {}"
    using assms row_set_empty by (auto simp: bitmap_ok_def prio_set_def)
  have fin: "finite (prio_set s (unat dm))"
    by (simp add: prio_set_def row_set_def)
  show ?thesis
  proof (cases "?w = 0")
    case False
    with w get_highest_prio_Max[OF assms] obtain h
      where "get_highest_prio dm s = Some h" "unat h = Max (prio_set s (unat dm))"
      by auto
    then show ?thesis
      using False w fin assms by (simp add: is_highest_prio_def bitmap_ok_def word_le_nat)
  qed (use w assms in \<open>simp add: is_highest_prio_def bitmap_ok_def\<close>)
qed

lemma bitmap_ok_zero: "bitmap_ok (zero_kstate i m p)" "prio_set (zero_kstate i m p) 0 = {}"
  by (auto simp: bitmap_ok_def row_ok_def prio_set_def row_set_def zero_kstate_def config_simps)

section \<open>Properties\<close>

text \<open>
  C18: the constant time search through the two bitmap levels returns the highest priority whose bit
  is set, whenever there is one.
\<close>
theorem get_highest_prio_correct:
  assumes "bitmap_ok s" "unat dm < CONFIG_NUM_DOMAINS" "prio_set s (unat dm) \<noteq> {}"
  shows "\<exists>p. get_highest_prio dm s = Some p \<and> unat p \<in> prio_set s (unat dm)
    \<and> (\<forall>q. q \<in> prio_set s (unat dm) \<longrightarrow> q \<le> unat p)"
proof -
  have "finite (prio_set s (unat dm))"
    by (simp add: prio_set_def row_set_def)
  with get_highest_prio_Max[OF assms] assms(3) show ?thesis
    by (metis Max_ge Max_in)
qed

theorem get_highest_prio_correct_witness:
  "\<exists>s p. add_to_bitmap 0 67 (zero_kstate 8 16 24) = Some s \<and> get_highest_prio 0 s = Some p \<and> unat p = 67"
proof -
  obtain s where "add_to_bitmap 0 67 (zero_kstate 8 16 24) = Some s" "bitmap_ok s" "prio_set s 0 = {67}"
    using add_to_bitmap_set[of "zero_kstate 8 16 24" 0 67]
    by (auto simp: bitmap_ok_zero config_simps)
  with get_highest_prio_correct[of s 0] show ?thesis
    by (auto simp: config_simps)
qed

end
