(* ===== verification/Dll.thy ===== *)
theory Dll
  imports Kernel_Types
begin

text \<open>
  Doubly linked lists of threads.  All thread queues of the kernel are chains through two pointer
  fields of \<open>struct ktcb\<close>; here the chain is abstracted to the list of its nodes, for arbitrary next
  and previous functions, and the three pointer manipulations of the kernel (append at the tail,
  insert at the head, unlink a node) are shown to be the list operations.
\<close>

section \<open>Chains\<close>

fun dseg :: "(ptr \<Rightarrow> ptr) \<Rightarrow> (ptr \<Rightarrow> ptr) \<Rightarrow> ptr \<Rightarrow> ptr \<Rightarrow> ptr list \<Rightarrow> ptr \<Rightarrow> ptr \<Rightarrow> bool" where
  "dseg nx pv before p [] lst after \<longleftrightarrow> p = after \<and> lst = before"
| "dseg nx pv before p (x # xs) lst after \<longleftrightarrow>
     p = x \<and> x \<noteq> NULL \<and> pv x = before \<and> dseg nx pv x (nx x) xs lst after"

definition dll :: "(ptr \<Rightarrow> ptr) \<Rightarrow> (ptr \<Rightarrow> ptr) \<Rightarrow> tcb_queue \<Rightarrow> ptr list \<Rightarrow> bool" where
  "dll nx pv q xs \<longleftrightarrow> distinct xs \<and> dseg nx pv NULL (head q) xs (tail q) NULL"

lemma dseg_append:
  "dseg nx pv b p (xs @ ys) l a \<longleftrightarrow> (\<exists>m n. dseg nx pv b p xs m n \<and> dseg nx pv m n ys l a)"
  by (induction xs arbitrary: b p) auto

lemma dseg_cong:
  "(\<And>x. x \<in> set xs \<Longrightarrow> nx' x = nx x \<and> pv' x = pv x) \<Longrightarrow> dseg nx' pv' b p xs l a = dseg nx pv b p xs l a"
  by (induction xs arbitrary: b p) auto

lemma dseg_not_NULL: "dseg nx pv b p xs l a \<Longrightarrow> NULL \<notin> set xs"
  by (induction xs arbitrary: b p) auto

lemma dseg_last:
  "dseg nx pv b p xs l a \<Longrightarrow> l = (if xs = [] then b else last xs) \<and> p = (if xs = [] then a else hd xs)"
  by (induction xs arbitrary: b p) auto

lemma dseg_nx_last:
  assumes "dseg nx pv b p (xs @ [x]) l a" "x \<notin> set xs"
  shows "dseg (nx(x := a')) pv b p (xs @ [x]) l a'"
proof -
  from assms(1) obtain m where "dseg nx pv b p xs m x" "x \<noteq> NULL" "pv x = m" "l = x"
    by (auto simp: dseg_append)
  moreover from this(1) have "dseg (nx(x := a')) pv b p xs m x"
    using assms(2) by (subst dseg_cong[where nx = nx and pv = pv]) auto
  ultimately show ?thesis
    by (auto simp: dseg_append)
qed

section \<open>Queues\<close>

lemma dll_cong:
  "(\<And>x. x \<in> set xs \<Longrightarrow> nx' x = nx x \<and> pv' x = pv x) \<Longrightarrow> dll nx' pv' q xs = dll nx pv q xs"
  using dseg_cong[of xs nx' nx pv' pv NULL "head q" "tail q" NULL] by (simp add: dll_def)

lemma dll_Nil [simp]: "dll nx pv q [] \<longleftrightarrow> head q = NULL \<and> tail q = NULL"
  by (auto simp: dll_def)

lemma dll_head: "dll nx pv q xs \<Longrightarrow> head q = (if xs = [] then NULL else hd xs)"
  using dseg_last[of nx pv NULL "head q" xs "tail q" NULL] by (simp add: dll_def)

lemma dll_tail: "dll nx pv q xs \<Longrightarrow> tail q = (if xs = [] then NULL else last xs)"
  using dseg_last[of nx pv NULL "head q" xs "tail q" NULL] by (simp add: dll_def)

lemma dll_not_NULL: "dll nx pv q xs \<Longrightarrow> x \<in> set xs \<Longrightarrow> x \<noteq> NULL"
  using dseg_not_NULL[of nx pv NULL "head q" xs "tail q" NULL] by (auto simp: dll_def)

lemma dll_distinct: "dll nx pv q xs \<Longrightarrow> distinct xs"
  by (simp add: dll_def)

lemma dll_empty_iff: "dll nx pv q xs \<Longrightarrow> (head q = NULL) = (xs = []) \<and> (tail q = NULL) = (xs = [])"
  using dll_head[of nx pv q xs] dll_tail[of nx pv q xs] dll_not_NULL[of nx pv q xs]
  by (metis last_in_set list.set_sel(1))

lemma dll_append_empty:
  "\<lbrakk>dll nx pv q []; p \<noteq> NULL; nx p = NULL; pv p = NULL\<rbrakk> \<Longrightarrow> dll nx pv \<lparr>head = p, tail = p\<rparr> [p]"
  by (simp add: dll_def)

lemma dll_snoc:
  assumes "dll nx pv q (xs @ [x])" "p \<notin> set (xs @ [x])" "p \<noteq> NULL"
  shows "dll (nx(x := p, p := NULL)) (pv(p := x)) \<lparr>head = head q, tail = p\<rparr> (xs @ [x, p])"
proof -
  from assms(1) obtain m where m: "dseg nx pv NULL (head q) xs m x" "x \<noteq> NULL" "pv x = m" "x \<notin> set xs" "distinct xs"
    by (auto simp: dll_def dseg_append)
  then have "dseg (nx(x := p, p := NULL)) (pv(p := x)) NULL (head q) xs m x"
    using assms(2) by (subst dseg_cong[where nx = nx and pv = pv]) auto
  then show ?thesis
    using m assms(2,3) by (auto simp: dll_def dseg_append)
qed

lemma dll_cons:
  assumes "dll nx pv q (x # xs)" "p \<notin> set (x # xs)" "p \<noteq> NULL"
  shows "dll (nx(p := x)) (pv(x := p, p := NULL)) \<lparr>head = p, tail = tail q\<rparr> (p # x # xs)"
proof -
  from assms(1) have m: "dseg nx pv x (nx x) xs (tail q) NULL" "x \<noteq> NULL" "distinct (x # xs)"
    by (auto simp: dll_def)
  then have "dseg (nx(p := x)) (pv(x := p, p := NULL)) x (nx x) xs (tail q) NULL"
    using assms(2) by (subst dseg_cong[where nx = nx and pv = pv]) auto
  then show ?thesis
    using m assms(2,3) by (auto simp: dll_def)
qed

lemma dll_split_links:
  assumes "dll nx pv q (xs @ p # ys)"
  shows "pv p = (if xs = [] then NULL else last xs)" "nx p = (if ys = [] then NULL else hd ys)"
    "pv p = NULL \<longleftrightarrow> xs = []" "nx p = NULL \<longleftrightarrow> ys = []"
proof -
  from assms obtain m where m: "dseg nx pv NULL (head q) xs m p" "pv p = m" "p \<noteq> NULL"
    "dseg nx pv p (nx p) ys (tail q) NULL"
    by (auto simp: dll_def dseg_append)
  show 1: "pv p = (if xs = [] then NULL else last xs)" "nx p = (if ys = [] then NULL else hd ys)"
    using dseg_last[OF m(1)] dseg_last[OF m(4)] m(2) by auto
  show "pv p = NULL \<longleftrightarrow> xs = []" "nx p = NULL \<longleftrightarrow> ys = []"
    using 1 dseg_not_NULL[OF m(1)] dseg_not_NULL[OF m(4)]
    by (metis last_in_set, metis hd_in_set)
qed

definition unlink_next :: "(ptr \<Rightarrow> ptr) \<Rightarrow> (ptr \<Rightarrow> ptr) \<Rightarrow> ptr \<Rightarrow> ptr \<Rightarrow> ptr" where
  "unlink_next nx pv p = (if pv p \<noteq> NULL then nx(pv p := nx p) else nx)"

definition unlink_prev :: "(ptr \<Rightarrow> ptr) \<Rightarrow> (ptr \<Rightarrow> ptr) \<Rightarrow> ptr \<Rightarrow> ptr \<Rightarrow> ptr" where
  "unlink_prev nx pv p = (if nx p \<noteq> NULL then pv(nx p := pv p) else pv)"

definition unlink_queue :: "(ptr \<Rightarrow> ptr) \<Rightarrow> (ptr \<Rightarrow> ptr) \<Rightarrow> ptr \<Rightarrow> tcb_queue \<Rightarrow> tcb_queue" where
  "unlink_queue nx pv p q =
     \<lparr>head = (if pv p = NULL then nx p else head q), tail = (if nx p = NULL then pv p else tail q)\<rparr>"

lemma dll_unlink:
  assumes dll: "dll nx pv q (xs @ p # ys)"
  shows "dll (unlink_next nx pv p) (unlink_prev nx pv p) (unlink_queue nx pv p q) (xs @ ys)"
proof -
  note L = dll_split_links[OF dll]
  from dll obtain m where m: "dseg nx pv NULL (head q) xs m p" "pv p = m" "p \<noteq> NULL"
    "dseg nx pv p (nx p) ys (tail q) NULL" and d: "distinct (xs @ p # ys)"
    by (auto simp: dll_def dseg_append)
  have pre: "dseg (unlink_next nx pv p) (unlink_prev nx pv p) NULL (if xs = [] then nx p else head q) xs m (nx p)"
  proof (cases xs rule: rev_cases)
    case Nil
    then show ?thesis
      using m(1) by simp
  next
    case (snoc zs z)
    then have z: "pv p = z" "z \<noteq> NULL"
      using L(1) L(3) by auto
    have "dseg (nx(z := nx p)) pv NULL (head q) (zs @ [z]) m (nx p)"
      using dseg_nx_last[of nx pv NULL "head q" zs z m p] m(1) d snoc by simp
    moreover have "nx p \<notin> set xs"
      using L(2,4) d dseg_not_NULL[OF m(1)] by (cases ys) auto
    ultimately show ?thesis
      using snoc z by (subst dseg_cong[where nx = "nx(z := nx p)" and pv = pv])
        (auto simp: unlink_next_def unlink_prev_def)
  qed
  have post: "dseg (unlink_next nx pv p) (unlink_prev nx pv p) m (nx p) ys (if ys = [] then pv p else tail q) NULL"
  proof (cases ys)
    case Nil
    then show ?thesis
      using L(4) m(2) by simp
  next
    case (Cons y zs)
    then have y: "nx p = y" "y \<noteq> NULL"
      using L(2,4) by auto
    have "pv p \<notin> set ys"
      using L(1,3) d dseg_not_NULL[OF m(4)] by (cases xs rule: rev_cases) auto
    then have "unlink_next nx pv p x = nx x" if "x \<in> set ys" for x
      using that by (auto simp: unlink_next_def)
    moreover have "unlink_prev nx pv p x = pv x" if "x \<in> set zs" for x
      using that d Cons y by (auto simp: unlink_prev_def)
    ultimately have "dseg (unlink_next nx pv p) (unlink_prev nx pv p) y (nx y) zs (tail q) NULL"
      using m(4) Cons by (subst dseg_cong[where nx = nx and pv = pv]) auto
    then show ?thesis
      using y Cons m(2) \<open>pv p \<notin> set ys\<close> by (auto simp: unlink_next_def unlink_prev_def)
  qed
  show ?thesis
    using pre post d L(3,4) by (auto simp: dll_def dseg_append unlink_queue_def)
qed

lemma unlink_outside:
  assumes "dll nx pv q xs" "p \<in> set xs" "x \<notin> set xs"
  shows "unlink_next nx pv p x = nx x" "unlink_prev nx pv p x = pv x"
proof -
  obtain as bs where xs: "xs = as @ p # bs"
    using assms(2) by (meson split_list)
  note L = dll_split_links[OF assms(1)[unfolded xs]]
  have "pv p \<noteq> NULL \<Longrightarrow> pv p \<in> set xs" "nx p \<noteq> NULL \<Longrightarrow> nx p \<in> set xs"
    using L(1,2) xs by (auto split: if_splits)
  with assms(3) show "unlink_next nx pv p x = nx x" "unlink_prev nx pv p x = pv x"
    by (auto simp: unlink_next_def unlink_prev_def)
qed

lemma dll_remove1:
  assumes "dll nx pv q xs" "p \<in> set xs"
  shows "dll (unlink_next nx pv p) (unlink_prev nx pv p) (unlink_queue nx pv p q) (remove1 p xs)"
proof -
  obtain as bs where xs: "xs = as @ p # bs"
    using assms(2) by (meson split_list)
  moreover have "p \<notin> set as"
    using dll_distinct[OF assms(1)] xs by simp
  ultimately show ?thesis
    using dll_unlink[of nx pv q as p bs] assms(1) by (simp add: remove1_append)
qed

end
