(* ===== verification/Ready_Queues.thy ===== *)
theory Ready_Queues
  imports Dll Prio_Bitmap
begin

text \<open>
  The scheduler queues of \<^verbatim>\<open>inc/kernel/thread.h\<close>: one doubly linked queue of ready threads per
  priority, and the release queue of threads that wait for a replenishment, ordered by the time of
  that replenishment.  Both are chains through \<open>ready_q_next\<close> and \<open>ready_q_prev\<close>.  The model is shown to
  refine an abstract scheduler: a function from queue indices to lists of threads, and one list for
  the release queue.
\<close>

section \<open>Model\<close>

unbundle bit_operations_syntax

definition ready_queues_index :: "word_t \<Rightarrow> word_t \<Rightarrow> word_t option" where
  "ready_queues_index dm prio =
     (if CONFIG_NUM_DOMAINS > 1 then Some (dm * of_nat NUM_PRIORITIES + prio)
      else do { assertK (dm = 0); Some prio })"

definition prio_of :: "ktcb \<Rightarrow> word_t" where
  "prio_of t = ucast (sched_prior t)"

definition is_runnable :: "ktcb \<Rightarrow> bool" where
  "is_runnable t \<longleftrightarrow> obj_state t AND state_queued_state = state_queued_state"

definition is_time_sensitived :: "ptr \<Rightarrow> kstate \<Rightarrow> bool option" where
  "is_time_sensitived thread s = do {
     t \<leftarrow> tcb_at thread s;
     if sched t = NULL then Some False
     else do {
       sc \<leftarrow> sched_at (sched t) s;
       Some (refill_max sc > 0) } }"

definition is_schedulable :: "ptr \<Rightarrow> kstate \<Rightarrow> bool option" where
  "is_schedulable thread s = do {
     t \<leftarrow> tcb_at thread s;
     if sched t = NULL \<or> \<not> is_runnable t then Some False
     else do {
       sc \<leftarrow> sched_at (sched t) s;
       Some (refill_max sc > 0) } }"

definition sched_of :: "ptr \<Rightarrow> kstate \<Rightarrow> thread_sched option" where
  "sched_of thread s = do {
     t \<leftarrow> tcb_at thread s;
     sched_at (sched t) s }"

definition assert_budget :: "ptr \<Rightarrow> kstate \<Rightarrow> unit option" where
  "assert_budget thread s = do {
     ts \<leftarrow> is_time_sensitived thread s;
     if ts then do {
       b \<leftarrow> is_schedulable thread s;
       assertK b;
       sc \<leftarrow> sched_of thread s;
       suf \<leftarrow> refill_sufficient sc 0;
       assertK suf;
       rdy \<leftarrow> refill_ready (current_time s) sc;
       assertK rdy }
     else Some () }"

definition sched_enqueue :: "ptr \<Rightarrow> kstate \<Rightarrow> kstate option" where
  "sched_enqueue thread s = do {
     assert_budget thread s;
     t \<leftarrow> tcb_at thread s;
     let dm = domain t;
     let prio = prio_of t;
     idx \<leftarrow> ready_queues_index dm prio;
     queue \<leftarrow> arr_get (ready_queues s) idx;
     (queue, s) \<leftarrow>
       (if tail queue = NULL then do {
          s \<leftarrow> add_to_bitmap dm prio s;
          Some (queue\<lparr>tail := thread\<rparr>, s) }
        else do {
          s \<leftarrow> tcb_upd (head queue) (\<lambda>t. t\<lparr>ready_q_prev := thread\<rparr>) s;
          Some (queue, s) });
     s \<leftarrow> tcb_upd thread (\<lambda>t. t\<lparr>ready_q_prev := NULL\<rparr>) s;
     s \<leftarrow> tcb_upd thread (\<lambda>t. t\<lparr>ready_q_next := head queue\<rparr>) s;
     let queue = queue\<lparr>head := thread\<rparr>;
     rqs \<leftarrow> arr_set (ready_queues s) idx queue;
     Some (s\<lparr>ready_queues := rqs\<rparr>) }"

definition sched_append :: "ptr \<Rightarrow> kstate \<Rightarrow> kstate option" where
  "sched_append thread s = do {
     assert_budget thread s;
     t \<leftarrow> tcb_at thread s;
     let dm = domain t;
     let prio = prio_of t;
     idx \<leftarrow> ready_queues_index dm prio;
     queue \<leftarrow> arr_get (ready_queues s) idx;
     (queue, s) \<leftarrow>
       (if head queue = NULL then do {
          s \<leftarrow> add_to_bitmap dm prio s;
          Some (queue\<lparr>head := thread\<rparr>, s) }
        else do {
          s \<leftarrow> tcb_upd (tail queue) (\<lambda>t. t\<lparr>ready_q_next := thread\<rparr>) s;
          Some (queue, s) });
     s \<leftarrow> tcb_upd thread (\<lambda>t. t\<lparr>ready_q_prev := tail queue\<rparr>) s;
     s \<leftarrow> tcb_upd thread (\<lambda>t. t\<lparr>ready_q_next := NULL\<rparr>) s;
     let queue = queue\<lparr>tail := thread\<rparr>;
     rqs \<leftarrow> arr_set (ready_queues s) idx queue;
     Some (s\<lparr>ready_queues := rqs\<rparr>) }"

definition sched_dequeue :: "ptr \<Rightarrow> kstate \<Rightarrow> kstate option" where
  "sched_dequeue thread s = do {
     t \<leftarrow> tcb_at thread s;
     let dm = domain t;
     let prio = prio_of t;
     idx \<leftarrow> ready_queues_index dm prio;
     queue \<leftarrow> arr_get (ready_queues s) idx;
     (queue, s) \<leftarrow>
       (if ready_q_prev t \<noteq> NULL then do {
          s \<leftarrow> tcb_upd (ready_q_prev t) (\<lambda>u. u\<lparr>ready_q_next := ready_q_next t\<rparr>) s;
          Some (queue, s) }
        else do {
          s \<leftarrow> (if ready_q_next t = NULL then remove_from_bitmap dm prio s else Some s);
          Some (queue\<lparr>head := ready_q_next t\<rparr>, s) });
     t \<leftarrow> tcb_at thread s;
     (queue, s) \<leftarrow>
       (if ready_q_next t \<noteq> NULL then do {
          s \<leftarrow> tcb_upd (ready_q_next t) (\<lambda>u. u\<lparr>ready_q_prev := ready_q_prev t\<rparr>) s;
          Some (queue, s) }
        else Some (queue\<lparr>tail := ready_q_prev t\<rparr>, s));
     rqs \<leftarrow> arr_set (ready_queues s) idx queue;
     Some (s\<lparr>ready_queues := rqs\<rparr>) }"

partial_function (option) release_find :: "ptr \<Rightarrow> ptr \<Rightarrow> ptr \<Rightarrow> kstate \<Rightarrow> (ptr \<times> ptr) option" where
  "release_find thread before after s =
     (if after = NULL then Some (before, after)
      else do {
        sc \<leftarrow> sched_of thread s;
        h \<leftarrow> REFILL_HEAD sc;
        sc' \<leftarrow> sched_of after s;
        h' \<leftarrow> REFILL_HEAD sc';
        if refill_time h \<ge> refill_time h' then do {
          t \<leftarrow> tcb_at after s;
          release_find thread after (ready_q_next t) s }
        else Some (before, after) })"

declare release_find.simps [code]

definition release_enqueue :: "ptr \<Rightarrow> kstate \<Rightarrow> kstate option" where
  "release_enqueue thread s = do {
     (before, after) \<leftarrow> release_find thread NULL (release_queue s) s;
     s \<leftarrow> (if before = NULL then Some (s\<lparr>release_queue := thread, reprogram := True\<rparr>)
           else tcb_upd before (\<lambda>t. t\<lparr>ready_q_next := thread\<rparr>) s);
     s \<leftarrow> (if after \<noteq> NULL then tcb_upd after (\<lambda>t. t\<lparr>ready_q_prev := thread\<rparr>) s else Some s);
     s \<leftarrow> tcb_upd thread (\<lambda>t. t\<lparr>ready_q_next := after\<rparr>) s;
     tcb_upd thread (\<lambda>t. t\<lparr>ready_q_prev := before\<rparr>) s }"

definition release_dequeue :: "kstate \<Rightarrow> (ptr \<times> kstate) option" where
  "release_dequeue s = do {
     let detached_head = release_queue s;
     t \<leftarrow> tcb_at detached_head s;
     let s = s\<lparr>release_queue := ready_q_next t\<rparr>;
     s \<leftarrow> (if release_queue s \<noteq> NULL
           then tcb_upd (release_queue s) (\<lambda>t. t\<lparr>ready_q_prev := NULL\<rparr>) s else Some s);
     t \<leftarrow> tcb_at detached_head s;
     s \<leftarrow> (if ready_q_next t \<noteq> NULL then do {
             s \<leftarrow> tcb_upd (ready_q_next t) (\<lambda>t. t\<lparr>ready_q_prev := NULL\<rparr>) s;
             tcb_upd detached_head (\<lambda>t. t\<lparr>ready_q_next := NULL\<rparr>) s }
           else Some s);
     Some (detached_head, s\<lparr>reprogram := True\<rparr>) }"

definition release_remove :: "ptr \<Rightarrow> kstate \<Rightarrow> kstate option" where
  "release_remove thread s = do {
     t \<leftarrow> tcb_at thread s;
     s \<leftarrow> (if ready_q_prev t \<noteq> NULL
           then tcb_upd (ready_q_prev t) (\<lambda>u. u\<lparr>ready_q_next := ready_q_next t\<rparr>) s
           else Some (s\<lparr>release_queue := ready_q_next t, reprogram := True\<rparr>));
     t \<leftarrow> tcb_at thread s;
     s \<leftarrow> (if ready_q_next t \<noteq> NULL
           then tcb_upd (ready_q_next t) (\<lambda>u. u\<lparr>ready_q_prev := ready_q_prev t\<rparr>) s
           else Some s);
     s \<leftarrow> tcb_upd thread (\<lambda>t. t\<lparr>ready_q_next := NULL\<rparr>) s;
     tcb_upd thread (\<lambda>t. t\<lparr>ready_q_prev := NULL\<rparr>) s }"

section \<open>Abstraction\<close>

definition link :: "(ktcb \<Rightarrow> ptr) \<Rightarrow> (ptr \<Rightarrow> ktcb option) \<Rightarrow> ptr \<Rightarrow> ptr" where
  "link f m p = (if p = NULL then NULL else case m p of None \<Rightarrow> NULL | Some t \<Rightarrow> f t)"

abbreviation rnext :: "kstate \<Rightarrow> ptr \<Rightarrow> ptr" where
  "rnext s \<equiv> link ready_q_next (tcbs s)"

abbreviation rprev :: "kstate \<Rightarrow> ptr \<Rightarrow> ptr" where
  "rprev s \<equiv> link ready_q_prev (tcbs s)"

definition thread_home :: "ktcb \<Rightarrow> nat \<Rightarrow> bool" where
  "thread_home t i \<longleftrightarrow> unat (domain t) < CONFIG_NUM_DOMAINS
     \<and> i = unat (domain t) * NUM_PRIORITIES + unat (prio_of t)"

definition rq_inv :: "kstate \<Rightarrow> (nat \<Rightarrow> ptr list) \<Rightarrow> bool" where
  "rq_inv s Q \<longleftrightarrow> length (ready_queues s) = NUM_READY_QUEUES \<and> bitmap_ok s
     \<and> (\<forall>i < NUM_READY_QUEUES. dll (rnext s) (rprev s) (ready_queues s ! i) (Q i))
     \<and> (\<forall>i < NUM_READY_QUEUES. \<forall>p \<in> set (Q i). \<exists>t. tcb_at p s = Some t \<and> thread_home t i)
     \<and> (\<forall>d < CONFIG_NUM_DOMAINS. \<forall>p < NUM_PRIORITIES.
          p \<in> prio_set s d \<longleftrightarrow> Q (d * NUM_PRIORITIES + p) \<noteq> [])"

definition core :: "ktcb \<Rightarrow> ktcb" where
  "core t = t\<lparr>ready_q_next := NULL, ready_q_prev := NULL\<rparr>"

definition same_core :: "(ptr \<Rightarrow> ktcb option) \<Rightarrow> (ptr \<Rightarrow> ktcb option) \<Rightarrow> bool" where
  "same_core m m' \<longleftrightarrow> (\<forall>x. map_option core (m' x) = map_option core (m x))"

definition rest :: "kstate \<Rightarrow> kstate" where
  "rest s = s\<lparr>tcbs := (\<lambda>_. None), ready_queues := [], ready_queues_l1_bitmap := [], ready_queues_l2_bitmap := []\<rparr>"

definition rq_frame :: "ptr set \<Rightarrow> kstate \<Rightarrow> kstate \<Rightarrow> bool" where
  "rq_frame X s s' \<longleftrightarrow> rest s' = rest s \<and> same_core (tcbs s) (tcbs s') \<and> (\<forall>x. x \<notin> X \<longrightarrow> tcbs s' x = tcbs s x)"

subsection \<open>Links and frames\<close>

lemma link_upd [simp]: "p \<noteq> NULL \<Longrightarrow> link f (m(p \<mapsto> t)) = (link f m)(p := f t)"
  by (auto simp: link_def fun_eq_iff)

lemma link_tcb: "tcb_at p s = Some t \<Longrightarrow> link f (tcbs s) p = f t"
  by (simp add: link_def tcb_at_def split: if_splits)

lemma link_tcbs: "\<lbrakk>tcbs s p = Some t; p \<noteq> NULL\<rbrakk> \<Longrightarrow> link f (tcbs s) p = f t"
  by (simp add: link_def)

lemma link_eq: "m' p = m p \<Longrightarrow> link f m' p = link f m p"
  by (simp add: link_def)

lemma core_upd [simp]:
  "core (t\<lparr>ready_q_next := x\<rparr>) = core t" "core (t\<lparr>ready_q_prev := x\<rparr>) = core t"
  by (simp_all add: core_def)

lemma core_eqD:
  assumes "core t' = core t"
  shows "domain t' = domain t" "sched_prior t' = sched_prior t" "prio_of t' = prio_of t"
    "obj_state t' = obj_state t" "sched t' = sched t" "thread_home t' i = thread_home t i"
proof -
  show *: "domain t' = domain t" "sched_prior t' = sched_prior t" "obj_state t' = obj_state t" "sched t' = sched t"
    using arg_cong[OF assms, of domain] arg_cong[OF assms, of sched_prior]
      arg_cong[OF assms, of obj_state] arg_cong[OF assms, of sched] by (simp_all add: core_def)
  then show "prio_of t' = prio_of t"
    by (simp add: prio_of_def)
  with * show "thread_home t' i = thread_home t i"
    by (simp add: thread_home_def)
qed

lemma same_core_refl [simp]: "same_core m m"
  by (simp add: same_core_def)

lemma same_core_trans: "same_core m1 m2 \<Longrightarrow> same_core m2 m3 \<Longrightarrow> same_core m1 m3"
  by (simp add: same_core_def)

lemma same_core_upd: "same_core m m' \<Longrightarrow> m' p = Some t \<Longrightarrow> core t' = core t \<Longrightarrow> same_core m (m'(p \<mapsto> t'))"
  by (auto simp: same_core_def) (metis option.simps(9))

lemma same_core_tcb:
  assumes "same_core (tcbs s) (tcbs s')" "tcb_at p s = Some t"
  shows "\<exists>t'. tcb_at p s' = Some t' \<and> core t' = core t"
  using assms by (auto simp: same_core_def tcb_at_def split: if_splits) (metis map_option_eq_Some option.simps(9))

lemma rq_frame_tcb:
  "\<lbrakk>rq_frame X s s'; tcb_at p s = Some t\<rbrakk> \<Longrightarrow> \<exists>t'. tcb_at p s' = Some t' \<and> core t' = core t"
  by (rule same_core_tcb) (auto simp: rq_frame_def)

lemma rq_frame_outside: "\<lbrakk>rq_frame X s s'; x \<notin> X\<rbrakk> \<Longrightarrow> tcbs s' x = tcbs s x"
  by (auto simp: rq_frame_def)

lemma rq_frame_mono: "rq_frame X s s' \<Longrightarrow> X \<subseteq> Y \<Longrightarrow> rq_frame Y s s'"
  unfolding rq_frame_def by blast

lemma rq_frame_trans: "rq_frame X s s1 \<Longrightarrow> rq_frame Y s1 s2 \<Longrightarrow> rq_frame (X \<union> Y) s s2"
  unfolding rq_frame_def by (force intro: same_core_trans)

lemma rest_eqD:
  assumes "rest s' = rest s"
  shows "scheds s' = scheds s" "messages s' = messages s" "notifations s' = notifations s" "utcbs s' = utcbs s"
    "current_thread s' = current_thread s" "cpu_idle_thread s' = cpu_idle_thread s" "swap_ok s' = swap_ok s"
    "ready_thread s' = ready_thread s" "idle_thread s' = idle_thread s" "privilege_thread s' = privilege_thread s"
    "scheduler_action s' = scheduler_action s" "release_queue s' = release_queue s" "reprogram s' = reprogram s"
    "consume_time s' = consume_time s" "current_time s' = current_time s" "current_domain s' = current_domain s"
    "current_domain_time s' = current_domain_time s" "current_sched s' = current_sched s" "pendsv s' = pendsv s"
    "in_isr s' = in_isr s" "record_threads s' = record_threads s" "record_thread_count s' = record_thread_count s"
  using arg_cong[OF assms, of scheds] arg_cong[OF assms, of messages] arg_cong[OF assms, of notifations]
    arg_cong[OF assms, of utcbs] arg_cong[OF assms, of current_thread] arg_cong[OF assms, of cpu_idle_thread]
    arg_cong[OF assms, of swap_ok] arg_cong[OF assms, of ready_thread] arg_cong[OF assms, of idle_thread]
    arg_cong[OF assms, of privilege_thread] arg_cong[OF assms, of scheduler_action]
    arg_cong[OF assms, of release_queue] arg_cong[OF assms, of reprogram] arg_cong[OF assms, of consume_time]
    arg_cong[OF assms, of current_time] arg_cong[OF assms, of current_domain]
    arg_cong[OF assms, of current_domain_time] arg_cong[OF assms, of current_sched] arg_cong[OF assms, of pendsv]
    arg_cong[OF assms, of in_isr] arg_cong[OF assms, of record_threads] arg_cong[OF assms, of record_thread_count]
  by (simp_all add: rest_def)

lemma rq_frame_rest: "rq_frame X s s' \<Longrightarrow> rest s' = rest s"
  by (simp add: rq_frame_def)

lemma rest_upd [simp]:
  "rest (s\<lparr>tcbs := m\<rparr>) = rest s" "rest (s\<lparr>ready_queues := r\<rparr>) = rest s"
  "rest (s\<lparr>ready_queues_l1_bitmap := l1\<rparr>) = rest s" "rest (s\<lparr>ready_queues_l2_bitmap := l2\<rparr>) = rest s"
  by (simp_all add: rest_def)

subsection \<open>The ready queues\<close>

lemma rq_invD:
  assumes "rq_inv s Q"
  shows "length (ready_queues s) = NUM_READY_QUEUES" "bitmap_ok s"
    "i < NUM_READY_QUEUES \<Longrightarrow> dll (rnext s) (rprev s) (ready_queues s ! i) (Q i)"
    "i < NUM_READY_QUEUES \<Longrightarrow> p \<in> set (Q i) \<Longrightarrow> \<exists>t. tcb_at p s = Some t \<and> thread_home t i"
    "d < CONFIG_NUM_DOMAINS \<Longrightarrow> pr < NUM_PRIORITIES \<Longrightarrow> pr \<in> prio_set s d \<longleftrightarrow> Q (d * NUM_PRIORITIES + pr) \<noteq> []"
  using assms by (auto simp: rq_inv_def)

lemma thread_home_unique: "thread_home t i \<Longrightarrow> thread_home t j \<Longrightarrow> i = j"
  by (simp add: thread_home_def)

lemma prio_of_less: "unat (prio_of t) < NUM_PRIORITIES"
proof -
  have "unat (sched_prior t) < 2 ^ 8"
    by (rule order_less_le_trans[OF unsigned_less]) simp
  then show ?thesis
    by (simp add: prio_of_def config_simps unsigned_ucast_eq take_bit_nat_eq_self)
qed

lemma thread_home_less:
  assumes "thread_home t i"
  shows "i < NUM_READY_QUEUES"
  using assms prio_of_less[of t] by (simp add: thread_home_def config_simps)

lemma thread_home_index:
  assumes "thread_home t i"
  shows "\<exists>idx. ready_queues_index (domain t) (prio_of t) = Some idx \<and> unat idx = i"
  using assms by (auto simp: thread_home_def ready_queues_index_def config_simps unat_eq_zero)

lemma rq_disjoint:
  assumes "rq_inv s Q" "i < NUM_READY_QUEUES" "j < NUM_READY_QUEUES" "p \<in> set (Q i)" "p \<in> set (Q j)"
  shows "i = j"
  using rq_invD(4)[OF assms(1,2,4)] rq_invD(4)[OF assms(1,3,5)] thread_home_unique by fastforce

lemma rq_inv_step:
  assumes inv: "rq_inv s Q" and home: "tcb_at p s = Some t" "thread_home t i"
    and frame: "rq_frame (insert p (set (Q i))) s s'"
    and rqs: "ready_queues s' = (ready_queues s)[i := q']"
    and dll: "dll (rnext s') (rprev s') q' xs" and xs: "set xs \<subseteq> insert p (set (Q i))"
    and out: "\<And>j. j < NUM_READY_QUEUES \<Longrightarrow> j \<noteq> i \<Longrightarrow> p \<notin> set (Q j)"
    and bm: "bitmap_ok s'" "prio_set s' = (prio_set s)(unat (domain t) :=
      (if xs = [] then prio_set s (unat (domain t)) - {unat (prio_of t)}
       else insert (unat (prio_of t)) (prio_set s (unat (domain t)))))"
  shows "rq_inv s' (Q(i := xs))"
proof -
  have i: "i < NUM_READY_QUEUES"
    using thread_home_less[OF home(2)] .
  have other: "dll (rnext s') (rprev s') (ready_queues s ! j) (Q j)" if "j < NUM_READY_QUEUES" "j \<noteq> i" for j
  proof -
    have "tcbs s' x = tcbs s x" if "x \<in> set (Q j)" for x
      using rq_frame_outside[OF frame, of x] rq_disjoint[OF inv i, of j x] out[of j] that \<open>j < NUM_READY_QUEUES\<close> \<open>j \<noteq> i\<close>
      by auto
    then show ?thesis
      using rq_invD(3)[OF inv that(1)] by (subst dll_cong[where nx = "rnext s" and pv = "rprev s"]) (auto intro: link_eq)
  qed
  have mem: "\<exists>t'. tcb_at x s' = Some t' \<and> thread_home t' j"
    if j: "j < NUM_READY_QUEUES" "x \<in> set ((Q(i := xs)) j)" for j x
  proof -
    obtain u where "tcb_at x s = Some u" "thread_home u j"
      using j xs home rq_invD(4)[OF inv j(1)] rq_invD(4)[OF inv i] by (fastforce split: if_splits)
    with rq_frame_tcb[OF frame] core_eqD(6) show ?thesis
      by blast
  qed
  have bits: "pr \<in> prio_set s' d \<longleftrightarrow> (Q(i := xs)) (d * NUM_PRIORITIES + pr) \<noteq> []"
    if "d < CONFIG_NUM_DOMAINS" "pr < NUM_PRIORITIES" for d pr
    using rq_invD(5)[OF inv that] bm(2) that home(2)
    by (auto simp: thread_home_def config_simps split: if_splits)
  show ?thesis
    unfolding rq_inv_def using rq_invD(1)[OF inv] rqs bm(1) other dll mem bits
    by (auto simp: nth_list_update)
qed

lemma tcb_queue_upd [simp]:
  "(q :: tcb_queue)\<lparr>head := a\<rparr> = \<lparr>head = a, tail = tail q\<rparr>"
  "(q :: tcb_queue)\<lparr>tail := b\<rparr> = \<lparr>head = head q, tail = b\<rparr>"
  by (cases q; simp)+

lemma tcb_queue_eta [simp]: "\<lparr>head = head q, tail = tail q\<rparr> = (q :: tcb_queue)"
  by (cases q) simp

lemma ready_queues_id [simp]: "s\<lparr>tcbs := m, ready_queues := ready_queues s\<rparr> = s\<lparr>tcbs := m\<rparr>"
  by (cases s) simp

lemma bitmap_frameD:
  assumes "bitmap_frame s s'"
  shows "tcbs s' = tcbs s" "ready_queues s' = ready_queues s" "tcb_at p s' = tcb_at p s" "rest s' = rest s"
  using assms by (auto simp: bitmap_frame_def tcb_at_def)

lemma rq_frameI:
  "\<lbrakk>rest s' = rest s; same_core (tcbs s) (tcbs s'); \<And>x. x \<notin> X \<Longrightarrow> tcbs s' x = tcbs s x\<rbrakk> \<Longrightarrow> rq_frame X s s'"
  by (simp add: rq_frame_def)

lemma bitmap_ok_cong:
  "\<lbrakk>ready_queues_l1_bitmap s' = ready_queues_l1_bitmap s; ready_queues_l2_bitmap s' = ready_queues_l2_bitmap s\<rbrakk>
   \<Longrightarrow> bitmap_ok s' = bitmap_ok s \<and> prio_set s' = prio_set s"
  by (simp add: bitmap_ok_def prio_set_def fun_eq_iff)

lemma bitmap_ok_simps [simp]:
  "bitmap_ok (s\<lparr>tcbs := m\<rparr>) = bitmap_ok s" "prio_set (s\<lparr>tcbs := m\<rparr>) = prio_set s"
  "bitmap_ok (s\<lparr>ready_queues := r\<rparr>) = bitmap_ok s" "prio_set (s\<lparr>ready_queues := r\<rparr>) = prio_set s"
  "bitmap_ok (s\<lparr>release_queue := x\<rparr>) = bitmap_ok s" "prio_set (s\<lparr>release_queue := x\<rparr>) = prio_set s"
  "bitmap_ok (s\<lparr>reprogram := b\<rparr>) = bitmap_ok s" "prio_set (s\<lparr>reprogram := b\<rparr>) = prio_set s"
  by (simp_all add: bitmap_ok_def prio_set_def fun_eq_iff)

lemma rq_insert_empty:
  assumes inv: "rq_inv s Q" and t: "tcb_at p s = Some t" "thread_home t i" and Q: "Q i = []"
    and notin: "\<And>j. j < NUM_READY_QUEUES \<Longrightarrow> p \<notin> set (Q j)"
    and s1: "bitmap_frame s s1" "bitmap_ok s1" "prio_set s1 = (prio_set s)(unat (domain t) :=
       insert (unat (prio_of t)) (prio_set s (unat (domain t))))"
    and t': "core t' = core t" "ready_q_next t' = NULL" "ready_q_prev t' = NULL"
    and s': "s' = s1\<lparr>tcbs := (tcbs s)(p \<mapsto> t'), ready_queues := (ready_queues s)[i := \<lparr>head = p, tail = p\<rparr>]\<rparr>"
  shows "rq_inv s' (Q(i := [p]))" "rq_frame (insert p (set (Q i))) s s'"
proof -
  have p: "p \<noteq> NULL" "tcbs s p = Some t"
    using t(1) tcb_at_SomeD by auto
  show frame: "rq_frame (insert p (set (Q i))) s s'"
    using p t'(1) bitmap_frameD(4)[OF s1(1)] by (intro rq_frameI) (auto simp: s' intro: same_core_upd)
  have "dll (rnext s') (rprev s') \<lparr>head = p, tail = p\<rparr> [p]"
    using p t' by (simp add: dll_def s')
  then show "rq_inv s' (Q(i := [p]))"
    using rq_inv_step[OF inv t frame, of "\<lparr>head = p, tail = p\<rparr>" "[p]"] notin s1 by (simp add: s')
qed

lemma sched_enqueue_rq:
  assumes inv: "rq_inv s Q" and t: "tcb_at p s = Some t" "thread_home t i"
    and notin: "\<And>j. j < NUM_READY_QUEUES \<Longrightarrow> p \<notin> set (Q j)" and budget: "assert_budget p s = Some ()"
  shows "\<exists>s'. sched_enqueue p s = Some s' \<and> rq_inv s' (Q(i := p # Q i)) \<and> rq_frame (insert p (set (Q i))) s s'"
proof -
  have i: "i < NUM_READY_QUEUES"
    using thread_home_less[OF t(2)] .
  obtain idx where idx: "ready_queues_index (domain t) (prio_of t) = Some idx" "unat idx = i"
    using thread_home_index[OF t(2)] by blast
  have p: "p \<noteq> NULL" "tcbs s p = Some t"
    using t(1) tcb_at_SomeD by auto
  note dll = rq_invD(3)[OF inv i] and len = rq_invD(1)[OF inv]
  show ?thesis
  proof (cases "Q i")
    case Nil
    then have q: "head (ready_queues s ! i) = NULL" "tail (ready_queues s ! i) = NULL"
      using dll by auto
    obtain s1 where s1: "add_to_bitmap (domain t) (prio_of t) s = Some s1" "bitmap_ok s1" "bitmap_frame s s1"
      "prio_set s1 = (prio_set s)(unat (domain t) := insert (unat (prio_of t)) (prio_set s (unat (domain t))))"
      using add_to_bitmap_set[OF rq_invD(2)[OF inv] _ prio_of_less, of "domain t" t] t(2)
      by (auto simp: thread_home_def)
    note f = bitmap_frameD(1-3)[OF s1(3)]
    let ?s = "s1\<lparr>tcbs := (tcbs s)(p \<mapsto> t\<lparr>ready_q_prev := NULL, ready_q_next := NULL\<rparr>),
        ready_queues := (ready_queues s)[i := \<lparr>head = p, tail = p\<rparr>]\<rparr>"
    have "sched_enqueue p s = Some ?s"
      using budget t(1) idx i len q s1(1) p f by (simp add: sched_enqueue_def tcb_upd_def)
    then show ?thesis
      using rq_insert_empty[OF inv t Nil notin s1(3,2,4) _ _ _ refl, of "t\<lparr>ready_q_prev := NULL, ready_q_next := NULL\<rparr>"]
        Nil by simp
  next
    case (Cons x xs)
    then have q: "head (ready_queues s ! i) = x" "tail (ready_queues s ! i) \<noteq> NULL"
      using dll_head[OF dll] dll_empty_iff[OF dll] by auto
    have px: "p \<noteq> x" "p \<notin> set (Q i)"
      using notin[OF i] Cons by auto
    obtain u where u: "tcb_at x s = Some u"
      using rq_invD(4)[OF inv i] Cons by fastforce
    have x: "x \<noteq> NULL" "tcbs s x = Some u"
      using u tcb_at_SomeD by auto
    let ?m = "(tcbs s)(x \<mapsto> u\<lparr>ready_q_prev := p\<rparr>, p \<mapsto> t\<lparr>ready_q_prev := NULL, ready_q_next := x\<rparr>)"
    let ?q = "\<lparr>head = p, tail = tail (ready_queues s ! i)\<rparr>"
    let ?s = "s\<lparr>tcbs := ?m, ready_queues := (ready_queues s)[i := ?q]\<rparr>"
    have run: "sched_enqueue p s = Some ?s"
      using budget t(1) idx i len q u p px x by (simp add: sched_enqueue_def tcb_upd_def)
    have "same_core (tcbs s) ?m"
      using p x px by (intro same_core_upd[where t = t] same_core_upd[where t = u]) auto
    then have frame: "rq_frame (insert p (set (Q i))) s ?s"
      using Cons by (intro rq_frameI) auto
    have "rnext ?s = (rnext s)(p := x)" "rprev ?s = (rprev s)(x := p, p := NULL)"
      using p x px link_tcb[OF u, of ready_q_next] by (auto simp: fun_eq_iff)
    then have "dll (rnext ?s) (rprev ?s) ?q (p # Q i)"
      using dll_cons[of "rnext s" "rprev s" "ready_queues s ! i" x xs p] dll p px Cons by simp
    moreover have "unat (prio_of t) \<in> prio_set s (unat (domain t))"
      using rq_invD(5)[OF inv _ prio_of_less, of "unat (domain t)" t] t(2) Cons by (simp add: thread_home_def)
    ultimately show ?thesis
      using rq_inv_step[OF inv t frame, of ?q "p # Q i"] run frame notin rq_invD(2)[OF inv]
      by (auto simp: insert_absorb)
  qed
qed

lemma sched_append_rq:
  assumes inv: "rq_inv s Q" and t: "tcb_at p s = Some t" "thread_home t i"
    and notin: "\<And>j. j < NUM_READY_QUEUES \<Longrightarrow> p \<notin> set (Q j)" and budget: "assert_budget p s = Some ()"
  shows "\<exists>s'. sched_append p s = Some s' \<and> rq_inv s' (Q(i := Q i @ [p])) \<and> rq_frame (insert p (set (Q i))) s s'"
proof -
  have i: "i < NUM_READY_QUEUES"
    using thread_home_less[OF t(2)] .
  obtain idx where idx: "ready_queues_index (domain t) (prio_of t) = Some idx" "unat idx = i"
    using thread_home_index[OF t(2)] by blast
  have p: "p \<noteq> NULL" "tcbs s p = Some t"
    using t(1) tcb_at_SomeD by auto
  note dll = rq_invD(3)[OF inv i] and len = rq_invD(1)[OF inv]
  show ?thesis
  proof (cases "Q i" rule: rev_cases)
    case Nil
    then have q: "head (ready_queues s ! i) = NULL" "tail (ready_queues s ! i) = NULL"
      using dll by auto
    obtain s1 where s1: "add_to_bitmap (domain t) (prio_of t) s = Some s1" "bitmap_ok s1" "bitmap_frame s s1"
      "prio_set s1 = (prio_set s)(unat (domain t) := insert (unat (prio_of t)) (prio_set s (unat (domain t))))"
      using add_to_bitmap_set[OF rq_invD(2)[OF inv] _ prio_of_less, of "domain t" t] t(2)
      by (auto simp: thread_home_def)
    note f = bitmap_frameD(1-3)[OF s1(3)]
    let ?s = "s1\<lparr>tcbs := (tcbs s)(p \<mapsto> t\<lparr>ready_q_prev := NULL, ready_q_next := NULL\<rparr>),
        ready_queues := (ready_queues s)[i := \<lparr>head = p, tail = p\<rparr>]\<rparr>"
    have "sched_append p s = Some ?s"
      using budget t(1) idx i len q s1(1) p f by (simp add: sched_append_def tcb_upd_def)
    then show ?thesis
      using rq_insert_empty[OF inv t Nil notin s1(3,2,4) _ _ _ refl, of "t\<lparr>ready_q_prev := NULL, ready_q_next := NULL\<rparr>"]
        Nil by simp
  next
    case (snoc xs x)
    then have q: "tail (ready_queues s ! i) = x" "head (ready_queues s ! i) \<noteq> NULL"
      using dll_tail[OF dll] dll_empty_iff[OF dll] by auto
    have px: "p \<noteq> x" "p \<notin> set (Q i)"
      using notin[OF i] snoc by auto
    obtain u where u: "tcb_at x s = Some u"
      using rq_invD(4)[OF inv i] snoc by fastforce
    have x: "x \<noteq> NULL" "tcbs s x = Some u"
      using u tcb_at_SomeD by auto
    let ?m = "(tcbs s)(x \<mapsto> u\<lparr>ready_q_next := p\<rparr>, p \<mapsto> t\<lparr>ready_q_prev := x, ready_q_next := NULL\<rparr>)"
    let ?q = "\<lparr>head = head (ready_queues s ! i), tail = p\<rparr>"
    let ?s = "s\<lparr>tcbs := ?m, ready_queues := (ready_queues s)[i := ?q]\<rparr>"
    have run: "sched_append p s = Some ?s"
      using budget t(1) idx i len q u p px x by (simp add: sched_append_def tcb_upd_def)
    have "same_core (tcbs s) ?m"
      using p x px by (intro same_core_upd[where t = t] same_core_upd[where t = u]) auto
    then have frame: "rq_frame (insert p (set (Q i))) s ?s"
      using snoc by (intro rq_frameI) auto
    have "rnext ?s = (rnext s)(x := p, p := NULL)" "rprev ?s = (rprev s)(p := x)"
      using p x px link_tcb[OF u, of ready_q_prev] by (auto simp: fun_eq_iff)
    then have "dll (rnext ?s) (rprev ?s) ?q (Q i @ [p])"
      using dll_snoc[of "rnext s" "rprev s" "ready_queues s ! i" xs x p] dll p px snoc by simp
    moreover have "unat (prio_of t) \<in> prio_set s (unat (domain t))"
      using rq_invD(5)[OF inv _ prio_of_less, of "unat (domain t)" t] t(2) snoc by (simp add: thread_home_def)
    ultimately show ?thesis
      using rq_inv_step[OF inv t frame, of ?q "Q i @ [p]"] run frame notin rq_invD(2)[OF inv]
      by (auto simp: insert_absorb)
  qed
qed

lemma dll_links_in:
  assumes "dll nx pv q xs" "p \<in> set xs"
  shows "nx p \<noteq> NULL \<Longrightarrow> nx p \<in> set xs \<and> nx p \<noteq> p" "pv p \<noteq> NULL \<Longrightarrow> pv p \<in> set xs \<and> pv p \<noteq> p"
    "\<lbrakk>nx p \<noteq> NULL; pv p \<noteq> NULL\<rbrakk> \<Longrightarrow> nx p \<noteq> pv p" "nx p = NULL \<and> pv p = NULL \<longleftrightarrow> xs = [p]"
    "p \<noteq> NULL"
proof -
  obtain as bs where xs: "xs = as @ p # bs"
    using assms(2) by (meson split_list)
  note L = dll_split_links[OF assms(1)[unfolded xs]]
  have d: "distinct (as @ p # bs)"
    using dll_distinct[OF assms(1)] xs by simp
  show "nx p \<noteq> NULL \<Longrightarrow> nx p \<in> set xs \<and> nx p \<noteq> p"
    using L(2) d xs by (cases bs) (auto split: if_splits)
  show "pv p \<noteq> NULL \<Longrightarrow> pv p \<in> set xs \<and> pv p \<noteq> p"
    using L(1) d xs by (cases as rule: rev_cases) (auto split: if_splits)
  show "\<lbrakk>nx p \<noteq> NULL; pv p \<noteq> NULL\<rbrakk> \<Longrightarrow> nx p \<noteq> pv p"
    using L(1,2) d by (cases bs; cases as rule: rev_cases) auto
  show "nx p = NULL \<and> pv p = NULL \<longleftrightarrow> xs = [p]"
    unfolding L(3,4) xs by (auto simp: append_eq_Cons_conv)
  show "p \<noteq> NULL"
    using dll_not_NULL[OF assms] .
qed

lemma bitmap_frame_refl: "bitmap_frame s s"
  unfolding bitmap_frame_def
  by (rule exI[of _ "ready_queues_l1_bitmap s"], rule exI[of _ "ready_queues_l2_bitmap s"]) simp

lemma remove1_single: "p \<in> set xs \<Longrightarrow> remove1 p xs = [] \<longleftrightarrow> xs = [p]"
  by (cases xs) auto

definition unlinked :: "(ptr \<Rightarrow> ktcb option) \<Rightarrow> ptr \<Rightarrow> ptr \<Rightarrow> ptr \<Rightarrow> ktcb option" where
  "unlinked m a b =
     (let m1 = (if a \<noteq> NULL then m(a \<mapsto> (the (m a))\<lparr>ready_q_next := b\<rparr>) else m)
      in if b \<noteq> NULL then m1(b \<mapsto> (the (m b))\<lparr>ready_q_prev := a\<rparr>) else m1)"

lemma unlinked_props:
  assumes t: "tcb_at p s = Some t" and dll: "dll (rnext s) (rprev s) q xs" and p: "p \<in> set xs"
    and ex: "\<And>x. x \<in> set xs \<Longrightarrow> tcb_at x s \<noteq> None"
  defines "m \<equiv> unlinked (tcbs s) (ready_q_prev t) (ready_q_next t)"
  shows "same_core (tcbs s) m" "x \<notin> set xs - {p} \<Longrightarrow> m x = tcbs s x"
    "link ready_q_next m = unlink_next (rnext s) (rprev s) p"
    "link ready_q_prev m = unlink_prev (rnext s) (rprev s) p"
    "m p = Some t"
proof -
  let ?a = "ready_q_prev t" and ?b = "ready_q_next t"
  have ab: "rnext s p = ?b" "rprev s p = ?a"
    using link_tcb[OF t] by simp_all
  note I = dll_links_in[OF dll p, unfolded ab]
  have A: "\<exists>u. tcbs s ?a = Some u \<and> rprev s ?a = ready_q_prev u" if "?a \<noteq> NULL"
    using ex[of ?a] I(2) that by (auto simp: tcb_at_def link_def)
  have B: "\<exists>u. tcbs s ?b = Some u \<and> rnext s ?b = ready_q_next u" if "?b \<noteq> NULL"
    using ex[of ?b] I(1) that by (auto simp: tcb_at_def link_def)
  show "same_core (tcbs s) m"
    using A B I(3) unfolding m_def unlinked_def Let_def same_core_def by auto
  show "x \<notin> set xs - {p} \<Longrightarrow> m x = tcbs s x"
    using I(1,2) by (auto simp: m_def unlinked_def Let_def)
  show "m p = Some t"
    using I(1,2) t by (auto simp: m_def unlinked_def Let_def tcb_at_def split: if_splits)
  show "link ready_q_next m = unlink_next (rnext s) (rprev s) p"
    using A B I(3) by (auto simp: m_def unlinked_def Let_def unlink_next_def ab fun_eq_iff)
  show "link ready_q_prev m = unlink_prev (rnext s) (rprev s) p"
    using A B I(3) by (auto simp: m_def unlinked_def Let_def unlink_prev_def ab fun_eq_iff)
qed

lemma sched_dequeue_rq:
  assumes inv: "rq_inv s Q" and t: "tcb_at p s = Some t" "thread_home t i" and p: "p \<in> set (Q i)"
  shows "\<exists>s'. sched_dequeue p s = Some s' \<and> rq_inv s' (Q(i := remove1 p (Q i)))
    \<and> rq_frame (set (Q i) - {p}) s s'"
proof -
  have i: "i < NUM_READY_QUEUES"
    using thread_home_less[OF t(2)] .
  obtain idx where idx: "ready_queues_index (domain t) (prio_of t) = Some idx" "unat idx = i"
    using thread_home_index[OF t(2)] by blast
  note dll = rq_invD(3)[OF inv i] and len = rq_invD(1)[OF inv]
  have ex: "tcb_at x s \<noteq> None" if "x \<in> set (Q i)" for x
    using rq_invD(4)[OF inv i that] by auto
  let ?a = "ready_q_prev t" and ?b = "ready_q_next t"
  have ab: "rnext s p = ?b" "rprev s p = ?a"
    using link_tcb[OF t(1)] by simp_all
  note U = unlinked_props[OF t(1) dll p ex] and I = dll_links_in[OF dll p, unfolded ab]
  let ?m = "unlinked (tcbs s) ?a ?b" and ?q = "unlink_queue (rnext s) (rprev s) p (ready_queues s ! i)"
  have single: "?a = NULL \<and> ?b = NULL \<longleftrightarrow> remove1 p (Q i) = []"
    using I(4) remove1_single[OF p] by metis
  obtain s1 where s1: "(if ?a = NULL \<and> ?b = NULL then remove_from_bitmap (domain t) (prio_of t) s else Some s) = Some s1"
    "bitmap_ok s1" "bitmap_frame s s1" "prio_set s1 = (prio_set s)(unat (domain t) :=
       (if ?a = NULL \<and> ?b = NULL then prio_set s (unat (domain t)) - {unat (prio_of t)} else prio_set s (unat (domain t))))"
  proof (cases "?a = NULL \<and> ?b = NULL")
    case True
    obtain s1 where "remove_from_bitmap (domain t) (prio_of t) s = Some s1" "bitmap_ok s1" "bitmap_frame s s1"
      "prio_set s1 = (prio_set s)(unat (domain t) := prio_set s (unat (domain t)) - {unat (prio_of t)})"
      using remove_from_bitmap_set[OF rq_invD(2)[OF inv] _ prio_of_less, of "domain t" t] t(2)
      by (auto simp: thread_home_def)
    with True that show ?thesis
      by simp
  next
    case False
    show ?thesis
      by (rule that[of s]) (use False rq_invD(2)[OF inv] bitmap_frame_refl[of s] in auto)
  qed
  note f = bitmap_frameD(1-3)[OF s1(3)]
  let ?s = "s1\<lparr>tcbs := ?m, ready_queues := (ready_queues s)[i := ?q]\<rparr>"
  have run: "sched_dequeue p s = Some ?s"
  proof (cases "?a = NULL")
    case True
    then show ?thesis
      using t(1) idx i len s1(1) f I(1) ex[of ?b] ab
      by (cases "?b = NULL") (auto simp: sched_dequeue_def tcb_upd_def unlinked_def unlink_queue_def Let_def tcb_at_def)
  next
    case False
    then show ?thesis
      using t(1) idx i len s1(1) f I(1,2,3,5) ex[of ?a] ex[of ?b] ab
      by (cases "?b = NULL") (auto simp: sched_dequeue_def tcb_upd_def unlinked_def unlink_queue_def Let_def tcb_at_def)
  qed
  have frame: "rq_frame (set (Q i) - {p}) s ?s"
    using U(1,2) bitmap_frameD(4)[OF s1(3)] by (intro rq_frameI) auto
  have "dll (rnext ?s) (rprev ?s) ?q (remove1 p (Q i))"
    using dll_remove1[OF dll p] U(3,4) by simp
  moreover have "unat (prio_of t) \<in> prio_set s (unat (domain t))"
    using rq_invD(5)[OF inv _ prio_of_less, of "unat (domain t)" t] t(2) p by (auto simp: thread_home_def)
  moreover have "p \<notin> set (Q j)" if "j < NUM_READY_QUEUES" "j \<noteq> i" for j
    using rq_disjoint[OF inv i that(1) p] that by blast
  moreover have "prio_set ?s = (prio_set s)(unat (domain t) :=
      (if remove1 p (Q i) = [] then prio_set s (unat (domain t)) - {unat (prio_of t)}
       else insert (unat (prio_of t)) (prio_set s (unat (domain t)))))"
    using s1(4) single calculation(2) by (simp add: insert_absorb)
  ultimately show ?thesis
    using rq_inv_step[OF inv t rq_frame_mono[OF frame], of ?q "remove1 p (Q i)"] run frame s1(2)
      set_remove1_subset[of p "Q i"] by auto
qed

subsection \<open>The release queue\<close>

definition release_time :: "kstate \<Rightarrow> ptr \<Rightarrow> ticks_t option" where
  "release_time s p = do {
     sc \<leftarrow> sched_of p s;
     h \<leftarrow> REFILL_HEAD sc;
     Some (refill_time h) }"

definition last0 :: "ptr list \<Rightarrow> ptr" where
  "last0 xs = (if xs = [] then NULL else last xs)"

definition hd0 :: "ptr list \<Rightarrow> ptr" where
  "hd0 xs = (if xs = [] then NULL else hd xs)"

definition rel_inv :: "kstate \<Rightarrow> ptr list \<Rightarrow> bool" where
  "rel_inv s R \<longleftrightarrow> dll (rnext s) (rprev s) \<lparr>head = release_queue s, tail = last0 R\<rparr> R
     \<and> (\<forall>p \<in> set R. release_time s p \<noteq> None)
     \<and> sorted (map (\<lambda>p. the (release_time s p)) R)"

definition rel_frame :: "ptr set \<Rightarrow> kstate \<Rightarrow> kstate \<Rightarrow> bool" where
  "rel_frame X s s' \<longleftrightarrow> (rest s')\<lparr>release_queue := 0, reprogram := False\<rparr> = (rest s)\<lparr>release_queue := 0, reprogram := False\<rparr>
     \<and> ready_queues s' = ready_queues s \<and> ready_queues_l1_bitmap s' = ready_queues_l1_bitmap s
     \<and> ready_queues_l2_bitmap s' = ready_queues_l2_bitmap s
     \<and> same_core (tcbs s) (tcbs s') \<and> (\<forall>x. x \<notin> X \<longrightarrow> tcbs s' x = tcbs s x)"

lemma dll_insert:
  assumes dll: "dll nx pv q (as @ bs)" and p: "p \<notin> set (as @ bs)" "p \<noteq> NULL"
    and nx': "nx' = (if as = [] then nx else nx(last as := p))(p := hd0 bs)"
    and pv': "pv' = (if bs = [] then pv else pv(hd bs := p))(p := last0 as)"
  shows "dll nx' pv' \<lparr>head = (if as = [] then p else head q), tail = (if bs = [] then p else tail q)\<rparr> (as @ p # bs)"
proof -
  from dll obtain m n where m: "dseg nx pv NULL (head q) as m n" "dseg nx pv m n bs (tail q) NULL"
    and d: "distinct (as @ bs)"
    by (auto simp: dll_def dseg_append)
  have n: "n = hd0 bs" "m = last0 as"
    using dseg_last[OF m(1)] dseg_last[OF m(2)] by (auto simp: hd0_def last0_def)
  have pre: "dseg nx' pv' NULL (if as = [] then p else head q) as m p"
  proof (cases as rule: rev_cases)
    case (snoc zs z)
    have "dseg (nx(z := p)) pv NULL (head q) as m p"
      using dseg_nx_last[of nx pv NULL "head q" zs z m n] m(1) d snoc by simp
    moreover have "hd bs \<notin> set as" if "bs \<noteq> []"
      using d that by (cases bs) auto
    ultimately show ?thesis
      using snoc p by (subst dseg_cong[where nx = "nx(z := p)" and pv = pv]) (auto simp: nx' pv')
  qed (use m n in \<open>auto simp: last0_def\<close>)
  have post: "dseg nx' pv' p (hd0 bs) bs (if bs = [] then p else tail q) NULL"
  proof (cases bs)
    case (Cons b cs)
    have "last as \<notin> set bs" if "as \<noteq> []"
      using d that by (cases as rule: rev_cases) auto
    then have "dseg nx' pv' b (nx b) cs (tail q) NULL"
      using m(2) Cons p d by (subst dseg_cong[where nx = nx and pv = pv]) (auto simp: nx' pv')
    moreover have "nx' b = nx b" "pv' b = p" "b \<noteq> NULL"
      using Cons p m(2) \<open>as \<noteq> [] \<Longrightarrow> last as \<notin> set bs\<close> by (auto simp: nx' pv')
    ultimately show ?thesis
      using Cons by (simp add: hd0_def)
  qed (simp add: hd0_def)
  show ?thesis
    using pre post d p n by (auto simp: dll_def dseg_append nx' pv')
qed

lemma rel_frameD:
  assumes "rel_frame X s s'"
  shows "scheds s' = scheds s" "current_thread s' = current_thread s" "current_time s' = current_time s"
    "scheduler_action s' = scheduler_action s" "current_domain s' = current_domain s"
    "cpu_idle_thread s' = cpu_idle_thread s" "idle_thread s' = idle_thread s" "swap_ok s' = swap_ok s"
    "same_core (tcbs s) (tcbs s')" "x \<notin> X \<Longrightarrow> tcbs s' x = tcbs s x"
    "bitmap_ok s' = bitmap_ok s" "prio_set s' = prio_set s" "ready_queues s' = ready_queues s"
proof -
  have e: "(rest s')\<lparr>release_queue := 0, reprogram := False\<rparr> = (rest s)\<lparr>release_queue := 0, reprogram := False\<rparr>"
    using assms by (simp add: rel_frame_def)
  show "scheds s' = scheds s" "current_thread s' = current_thread s" "current_time s' = current_time s"
    "scheduler_action s' = scheduler_action s" "current_domain s' = current_domain s"
    "cpu_idle_thread s' = cpu_idle_thread s" "idle_thread s' = idle_thread s" "swap_ok s' = swap_ok s"
    using arg_cong[OF e, of scheds] arg_cong[OF e, of current_thread] arg_cong[OF e, of current_time]
      arg_cong[OF e, of scheduler_action] arg_cong[OF e, of current_domain] arg_cong[OF e, of cpu_idle_thread]
      arg_cong[OF e, of idle_thread] arg_cong[OF e, of swap_ok]
    by (simp_all add: rest_def)
  show "same_core (tcbs s) (tcbs s')" "x \<notin> X \<Longrightarrow> tcbs s' x = tcbs s x" "ready_queues s' = ready_queues s"
    using assms by (simp_all add: rel_frame_def)
  show "bitmap_ok s' = bitmap_ok s" "prio_set s' = prio_set s"
    using assms bitmap_ok_cong[of s' s] by (simp_all add: rel_frame_def)
qed

lemma release_time_core:
  assumes "scheds s' = scheds s" "map_option core (tcbs s' p) = map_option core (tcbs s p)"
  shows "release_time s' p = release_time s p"
proof (cases "tcbs s p")
  case None
  then show ?thesis
    using assms(2) by (simp add: release_time_def sched_of_def tcb_at_def)
next
  case (Some t)
  then obtain t' where t': "tcbs s' p = Some t'" "core t' = core t"
    using assms(2) by (cases "tcbs s' p") auto
  then show ?thesis
    using assms(1) Some core_eqD(5)[OF t'(2)] by (simp add: release_time_def sched_of_def tcb_at_def sched_at_def)
qed

lemma release_time_same_core:
  "\<lbrakk>scheds s' = scheds s; same_core (tcbs s) (tcbs s')\<rbrakk> \<Longrightarrow> release_time s' = release_time s"
  by (rule ext, rule release_time_core) (simp_all add: same_core_def)

lemma release_find_chain:
  assumes dll: "dll (rnext s) (rprev s) q (as @ bs)" and t: "release_time s p = Some t"
    and ex: "\<forall>x \<in> set bs. release_time s x \<noteq> None"
  shows "release_find p (last0 as) (hd0 bs) s =
    Some (last0 (as @ takeWhile (\<lambda>x. the (release_time s x) \<le> t) bs), hd0 (dropWhile (\<lambda>x. the (release_time s x) \<le> t) bs))"
  using dll ex
proof (induction bs arbitrary: as)
  case Nil
  then show ?case
    by (subst release_find.simps) (simp add: hd0_def)
next
  case (Cons b bs)
  have b: "b \<noteq> NULL"
    using dll_not_NULL[OF Cons.prems(1)] by simp
  obtain tb where tb: "release_time s b = Some tb"
    using Cons.prems(2) by auto
  then obtain u where u: "tcb_at b s = Some u"
    by (auto simp: release_time_def sched_of_def bind_eq_Some_conv)
  have nxt: "ready_q_next u = hd0 bs"
    using dll_split_links(2)[OF Cons.prems(1)] link_tcb[OF u, of ready_q_next] by (simp add: hd0_def)
  have step: "release_find p (last0 as) b s =
    (if tb \<le> t then release_find p b (hd0 bs) s else Some (last0 as, b))"
    using t tb u nxt b
    by (subst release_find.simps) (auto simp: release_time_def bind_eq_Some_conv)
  have IH: "release_find p b (hd0 bs) s =
    Some (last0 ((as @ [b]) @ takeWhile (\<lambda>x. the (release_time s x) \<le> t) bs), hd0 (dropWhile (\<lambda>x. the (release_time s x) \<le> t) bs))"
    using Cons.IH[of "as @ [b]"] Cons.prems by (simp add: last0_def)
  show ?case
    using step IH tb by (auto simp: hd0_def)
qed

definition inserted :: "(ptr \<Rightarrow> ktcb option) \<Rightarrow> ptr \<Rightarrow> ptr \<Rightarrow> ptr \<Rightarrow> ktcb \<Rightarrow> ptr \<Rightarrow> ktcb option" where
  "inserted m a b p t =
     (let m1 = (if a \<noteq> NULL then m(a \<mapsto> (the (m a))\<lparr>ready_q_next := p\<rparr>) else m);
          m2 = (if b \<noteq> NULL then m1(b \<mapsto> (the (m b))\<lparr>ready_q_prev := p\<rparr>) else m1)
      in m2(p \<mapsto> t\<lparr>ready_q_next := b, ready_q_prev := a\<rparr>))"

lemma inserted_props:
  assumes t: "tcb_at p s = Some t" and A: "a \<noteq> NULL \<Longrightarrow> tcb_at a s \<noteq> None \<and> a \<noteq> p"
    and B: "b \<noteq> NULL \<Longrightarrow> tcb_at b s \<noteq> None \<and> b \<noteq> p" and ab: "a \<noteq> NULL \<Longrightarrow> a \<noteq> b"
  defines "m \<equiv> inserted (tcbs s) a b p t"
  shows "same_core (tcbs s) m" "\<lbrakk>x \<noteq> p; x \<noteq> a \<or> a = NULL; x \<noteq> b \<or> b = NULL\<rbrakk> \<Longrightarrow> m x = tcbs s x"
    "link ready_q_next m = (if a = NULL then rnext s else (rnext s)(a := p))(p := b)"
    "link ready_q_prev m = (if b = NULL then rprev s else (rprev s)(b := p))(p := a)"
proof -
  have p: "p \<noteq> NULL" "tcbs s p = Some t"
    using t tcb_at_SomeD by auto
  have A': "\<exists>u. tcbs s a = Some u \<and> rprev s a = ready_q_prev u" if "a \<noteq> NULL"
    using A[OF that] that by (auto simp: tcb_at_def link_def)
  have B': "\<exists>u. tcbs s b = Some u \<and> rnext s b = ready_q_next u" if "b \<noteq> NULL"
    using B[OF that] that by (auto simp: tcb_at_def link_def)
  show "same_core (tcbs s) m"
    using A' B' ab p unfolding m_def inserted_def Let_def same_core_def by auto
  show "\<lbrakk>x \<noteq> p; x \<noteq> a \<or> a = NULL; x \<noteq> b \<or> b = NULL\<rbrakk> \<Longrightarrow> m x = tcbs s x"
    by (auto simp: m_def inserted_def Let_def)
  show "link ready_q_next m = (if a = NULL then rnext s else (rnext s)(a := p))(p := b)"
    using A' B' ab p by (auto simp: m_def inserted_def Let_def fun_eq_iff)
  show "link ready_q_prev m = (if b = NULL then rprev s else (rprev s)(b := p))(p := a)"
    using A' B' ab p by (auto simp: m_def inserted_def Let_def fun_eq_iff)
qed

lemma release_time_tcb: "release_time s p \<noteq> None \<Longrightarrow> tcb_at p s \<noteq> None"
  by (cases "tcb_at p s") (auto simp: release_time_def sched_of_def)

lemma rel_invD:
  assumes "rel_inv s R"
  shows "dll (rnext s) (rprev s) \<lparr>head = release_queue s, tail = last0 R\<rparr> R"
    "p \<in> set R \<Longrightarrow> release_time s p \<noteq> None" "sorted (map (\<lambda>p. the (release_time s p)) R)"
    "release_queue s = hd0 R" "distinct R" "p \<in> set R \<Longrightarrow> tcb_at p s \<noteq> None"
proof -
  show dll: "dll (rnext s) (rprev s) \<lparr>head = release_queue s, tail = last0 R\<rparr> R"
    and ex: "p \<in> set R \<Longrightarrow> release_time s p \<noteq> None" and "sorted (map (\<lambda>p. the (release_time s p)) R)"
    using assms by (auto simp: rel_inv_def)
  show "release_queue s = hd0 R" "distinct R"
    using dll_head[OF dll] dll_distinct[OF dll] by (auto simp: hd0_def)
  show "p \<in> set R \<Longrightarrow> tcb_at p s \<noteq> None"
    using ex release_time_tcb by blast
qed

lemma sorted_insert_split:
  fixes f :: "'a \<Rightarrow> 'b::linorder"
  assumes "sorted (map f R)"
  shows "sorted (map f (takeWhile (\<lambda>x. f x \<le> f p) R @ p # dropWhile (\<lambda>x. f x \<le> f p) R))"
proof -
  let ?as = "takeWhile (\<lambda>x. f x \<le> f p) R" and ?bs = "dropWhile (\<lambda>x. f x \<le> f p) R"
  have s: "sorted (map f ?as)" "sorted (map f ?bs)"
    using assms by (metis map_append sorted_append takeWhile_dropWhile_id)+
  have as: "\<forall>x \<in> set ?as. f x \<le> f p"
    by (auto dest: set_takeWhileD)
  have bs: "\<forall>x \<in> set ?bs. f p \<le> f x"
  proof (cases ?bs)
    case (Cons b cs)
    then have "f p \<le> f b"
      using hd_dropWhile[of "\<lambda>x. f x \<le> f p" R] by auto
    then show ?thesis
      using s(2) Cons by auto
  next
    case Nil
    show ?thesis
      unfolding Nil by simp
  qed
  show ?thesis
    using s as bs by (auto simp: sorted_append intro: order_trans)
qed

lemma rel_frameI:
  "\<lbrakk>(rest s')\<lparr>release_queue := 0, reprogram := False\<rparr> = (rest s)\<lparr>release_queue := 0, reprogram := False\<rparr>;
    ready_queues s' = ready_queues s; ready_queues_l1_bitmap s' = ready_queues_l1_bitmap s;
    ready_queues_l2_bitmap s' = ready_queues_l2_bitmap s;
    same_core (tcbs s) (tcbs s'); \<And>x. x \<notin> X \<Longrightarrow> tcbs s' x = tcbs s x\<rbrakk> \<Longrightarrow> rel_frame X s s'"
  by (simp add: rel_frame_def)

lemma rest_release [simp]:
  "rest (s\<lparr>release_queue := x\<rparr>) = (rest s)\<lparr>release_queue := x\<rparr>" "rest (s\<lparr>reprogram := b\<rparr>) = (rest s)\<lparr>reprogram := b\<rparr>"
  by (simp_all add: rest_def)

lemma release_enqueue_rel:
  assumes rel: "rel_inv s R" and p: "p \<notin> set R" and tm: "release_time s p = Some tm"
  shows "\<exists>s'. release_enqueue p s = Some s' \<and> rel_frame (insert p (set R)) s s'
    \<and> rel_inv s' (takeWhile (\<lambda>x. the (release_time s x) \<le> tm) R @ p # dropWhile (\<lambda>x. the (release_time s x) \<le> tm) R)"
proof -
  define as where "as = takeWhile (\<lambda>x. the (release_time s x) \<le> tm) R"
  define bs where "bs = dropWhile (\<lambda>x. the (release_time s x) \<le> tm) R"
  have R: "R = as @ bs"
    by (simp add: as_def bs_def)
  note D = rel_invD[OF rel]
  obtain t where t: "tcb_at p s = Some t"
    using tm release_time_tcb[of s p] by auto
  have ex: "\<forall>x \<in> set R. release_time s x \<noteq> None"
    using D(2) by blast
  have find: "release_find p NULL (release_queue s) s = Some (last0 as, hd0 bs)"
    using release_find_chain[of s "\<lparr>head = release_queue s, tail = last0 R\<rparr>" "[]" R p tm] D(1,4) tm ex
    by (simp add: last0_def as_def bs_def)
  have in_R: "last0 as \<noteq> NULL \<Longrightarrow> last0 as \<in> set as" "hd0 bs \<noteq> NULL \<Longrightarrow> hd0 bs \<in> set bs"
    by (auto simp: last0_def hd0_def)
  have nn: "last0 as = NULL \<longleftrightarrow> as = []" "hd0 bs = NULL \<longleftrightarrow> bs = []"
    using dll_not_NULL[OF D(1), of "last as"] dll_not_NULL[OF D(1), of "hd bs"] R by (auto simp: last0_def hd0_def)
  have A: "last0 as \<noteq> NULL \<Longrightarrow> tcb_at (last0 as) s \<noteq> None \<and> last0 as \<noteq> p"
    using D(6)[of "last0 as"] in_R(1) R p by auto
  have B: "hd0 bs \<noteq> NULL \<Longrightarrow> tcb_at (hd0 bs) s \<noteq> None \<and> hd0 bs \<noteq> p"
    using D(6)[of "hd0 bs"] in_R(2) R p by auto
  have AB: "last0 as \<noteq> NULL \<Longrightarrow> last0 as \<noteq> hd0 bs"
    using in_R D(5) R by (cases "hd0 bs = NULL") auto
  note P = inserted_props[OF t A B AB]
  let ?m = "inserted (tcbs s) (last0 as) (hd0 bs) p t"
  let ?s0 = "if last0 as = NULL then s\<lparr>release_queue := p, reprogram := True\<rparr> else s"
  have run: "release_enqueue p s = Some (?s0\<lparr>tcbs := ?m\<rparr>)"
    using find t A B AB
    by (cases "last0 as = NULL"; cases "hd0 bs = NULL")
      (auto simp: release_enqueue_def tcb_upd_def inserted_def Let_def tcb_at_def)
  have frame: "rel_frame (insert p (set R)) s (?s0\<lparr>tcbs := ?m\<rparr>)"
    using P(1,2) in_R R by (intro rel_frameI) auto
  let ?s = "?s0\<lparr>tcbs := ?m\<rparr>"
  have rt: "release_time ?s = release_time s"
    using rel_frameD(1,9)[OF frame] by (rule release_time_same_core)
  have d: "dll (rnext s) (rprev s) \<lparr>head = release_queue s, tail = last0 R\<rparr> (as @ bs)"
    using D(1) by (simp add: R [symmetric])
  have pn: "p \<notin> set (as @ bs)" "p \<noteq> NULL"
    using p R tcb_at_SomeD[OF t] by auto
  have nx: "rnext ?s = (if as = [] then rnext s else (rnext s)(last as := p))(p := hd0 bs)"
    using P(3) nn(1) by (cases "as = []") (simp_all add: last0_def)
  have pv: "rprev ?s = (if bs = [] then rprev s else (rprev s)(hd bs := p))(p := last0 as)"
    using P(4) nn(2) by (cases "bs = []") (simp_all add: hd0_def)
  have "dll (rnext ?s) (rprev ?s)
    \<lparr>head = if as = [] then p else release_queue s, tail = if bs = [] then p else last0 R\<rparr> (as @ p # bs)"
    using dll_insert[OF d pn nx pv] by (simp only: tcb_queue.simps)
  moreover have "release_queue ?s = (if as = [] then p else release_queue s)"
    using nn by simp
  moreover have "last0 (as @ p # bs) = (if bs = [] then p else last0 R)"
    by (auto simp: last0_def R)
  moreover have "sorted (map (\<lambda>x. the (release_time s x)) (as @ p # bs))"
    using sorted_insert_split[OF D(3), of p] tm by (simp add: as_def bs_def)
  moreover have "\<forall>x \<in> set (as @ p # bs). release_time s x \<noteq> None"
    using ex R tm by auto
  ultimately have "rel_inv ?s (as @ p # bs)"
    unfolding rel_inv_def rt by simp
  then show ?thesis
    using run frame unfolding as_def bs_def by blast
qed

lemma rel_inv_update:
  assumes rel: "rel_inv s R" and frame: "rel_frame X s s'" and sub: "set R' \<subseteq> set R"
    and dll: "dll (rnext s') (rprev s') q R'" "head q = release_queue s'"
    and srt: "sorted (map (\<lambda>p. the (release_time s p)) R')"
  shows "rel_inv s' R'"
proof -
  have rt: "release_time s' = release_time s"
    using rel_frameD(1,9)[OF frame] by (rule release_time_same_core)
  have "q = \<lparr>head = release_queue s', tail = last0 R'\<rparr>"
    using dll_tail[OF dll(1)] dll(2) by (cases q) (simp add: last0_def)
  then show ?thesis
    unfolding rel_inv_def rt using dll(1) rel_invD(2)[OF rel] sub srt by auto
qed

lemma sorted_remove1_map:
  "sorted (map f xs) \<Longrightarrow> sorted (map f (remove1 p xs))"
  by (induction xs) (auto dest: notin_set_remove1 simp: in_set_remove1 intro: order_trans) 

lemma release_remove_rel:
  assumes rel: "rel_inv s R" and p: "p \<in> set R"
  shows "\<exists>s'. release_remove p s = Some s' \<and> rel_frame (set R) s s' \<and> rel_inv s' (remove1 p R)
    \<and> rnext s' p = NULL \<and> rprev s' p = NULL"
proof -
  note D = rel_invD[OF rel]
  obtain t where t: "tcb_at p s = Some t"
    using D(6)[OF p] by auto
  let ?a = "ready_q_prev t" and ?b = "ready_q_next t"
  have ab: "rnext s p = ?b" "rprev s p = ?a"
    using link_tcb[OF t] by simp_all
  note U = unlinked_props[OF t D(1) p D(6)] and I = dll_links_in[OF D(1) p, unfolded ab]
  let ?m = "unlinked (tcbs s) ?a ?b"
  let ?m' = "?m(p \<mapsto> t\<lparr>ready_q_next := NULL, ready_q_prev := NULL\<rparr>)"
  let ?s0 = "if ?a = NULL then s\<lparr>release_queue := ?b, reprogram := True\<rparr> else s"
  let ?s = "?s0\<lparr>tcbs := ?m'\<rparr>"
  have A: "\<exists>u. tcb_at ?a s = Some u" if "?a \<noteq> NULL"
    using D(6)[of ?a] I(2) that by auto
  have B: "\<exists>u. tcb_at ?b s = Some u" if "?b \<noteq> NULL"
    using D(6)[of ?b] I(1) that by auto
  have run: "release_remove p s = Some ?s"
    using t A B I(1,2,3,5)
    by (cases "?a = NULL"; cases "?b = NULL")
      (auto simp: release_remove_def tcb_upd_def unlinked_def Let_def tcb_at_def)
  have frame: "rel_frame (set R) s ?s"
    using U(1,2,5) p by (intro rel_frameI) (auto intro: same_core_upd)
  have links: "rnext ?s = (unlink_next (rnext s) (rprev s) p)(p := NULL)"
    "rprev ?s = (unlink_prev (rnext s) (rprev s) p)(p := NULL)"
    using U(3,4) I(5) by simp_all
  have "p \<notin> set (remove1 p R)"
    using D(5) by simp
  then have "dll (rnext ?s) (rprev ?s) (unlink_queue (rnext s) (rprev s) p \<lparr>head = release_queue s, tail = last0 R\<rparr>) (remove1 p R)"
    using dll_remove1[OF D(1) p] unfolding links
    by (subst dll_cong[where nx = "unlink_next (rnext s) (rprev s) p" and pv = "unlink_prev (rnext s) (rprev s) p"]) auto
  then have "rel_inv ?s (remove1 p R)"
    using ab by (intro rel_inv_update[OF rel frame set_remove1_subset _ _ sorted_remove1_map[OF D(3)]])
      (auto simp: unlink_queue_def)
  then show ?thesis
    using run frame links by auto
qed

lemma release_dequeue_rel:
  assumes rel: "rel_inv s (p # R)"
  shows "\<exists>s'. release_dequeue s = Some (p, s') \<and> rel_frame (set (p # R)) s s' \<and> rel_inv s' R"
proof -
  note D = rel_invD[OF rel]
  obtain t where t: "tcb_at p s = Some t"
    using D(6) by fastforce
  have p: "p \<in> set (p # R)" "release_queue s = p"
    using D(4) by (simp_all add: hd0_def)
  have ab: "rnext s p = ready_q_next t" "rprev s p = ready_q_prev t"
    using link_tcb[OF t] by simp_all
  have L: "ready_q_next t = hd0 R" "ready_q_prev t = NULL"
    using dll_split_links(1,2)[of "rnext s" "rprev s" _ "[]" p R] D(1) ab by (simp_all add: hd0_def)
  note U = unlinked_props[OF t D(1) p(1) D(6)] and I = dll_links_in[OF D(1) p(1), unfolded ab]
  let ?m = "unlinked (tcbs s) NULL (hd0 R)"
  let ?m' = "if R = [] then ?m else ?m(p \<mapsto> t\<lparr>ready_q_next := NULL\<rparr>)"
  let ?s = "s\<lparr>release_queue := hd0 R, tcbs := ?m', reprogram := True\<rparr>"
  have nn: "hd0 R = NULL \<longleftrightarrow> R = []"
    using I(4) L by auto
  have B: "\<exists>u. tcb_at (hd0 R) s = Some u" if "R \<noteq> []"
    using D(6)[of "hd0 R"] that by (auto simp: hd0_def)
  have run: "release_dequeue s = Some (p, ?s)"
    using t B L nn I(1,5) p(2)
    by (cases "R = []") (auto simp: release_dequeue_def tcb_upd_def unlinked_def Let_def tcb_at_def)
  have frame: "rel_frame (set (p # R)) s ?s"
    using U(1,2,5) L by (intro rel_frameI) (auto intro: same_core_upd)
  have "dll (unlink_next (rnext s) (rprev s) p) (unlink_prev (rnext s) (rprev s) p)
      (unlink_queue (rnext s) (rprev s) p \<lparr>head = release_queue s, tail = last0 (p # R)\<rparr>) R"
    using dll_remove1[OF D(1) p(1)] by simp
  moreover have "rnext ?s x = unlink_next (rnext s) (rprev s) p x \<and> rprev ?s x = unlink_prev (rnext s) (rprev s) p x"
    if "x \<in> set R" for x
    using U(3,4) I(5) L D(5) that by auto
  ultimately have "dll (rnext ?s) (rprev ?s) (unlink_queue (rnext s) (rprev s) p \<lparr>head = release_queue s, tail = last0 (p # R)\<rparr>) R"
    by (subst dll_cong[where nx = "unlink_next (rnext s) (rprev s) p" and pv = "unlink_prev (rnext s) (rprev s) p"]) auto
  then have "rel_inv ?s R"
    using ab L D(3) by (intro rel_inv_update[OF rel frame]) (auto simp: unlink_queue_def)
  then show ?thesis
    using run frame by auto
qed

subsection \<open>Both queues together\<close>

definition sched_inv :: "kstate \<Rightarrow> (nat \<Rightarrow> ptr list) \<Rightarrow> ptr list \<Rightarrow> bool" where
  "sched_inv s Q R \<longleftrightarrow> rq_inv s Q \<and> rel_inv s R \<and> (\<forall>i < NUM_READY_QUEUES. set (Q i) \<inter> set R = {})"

definition unqueued :: "(nat \<Rightarrow> ptr list) \<Rightarrow> ptr list \<Rightarrow> ptr \<Rightarrow> bool" where
  "unqueued Q R p \<longleftrightarrow> p \<notin> set R \<and> (\<forall>i < NUM_READY_QUEUES. p \<notin> set (Q i))"

lemma rel_inv_rq_frame:
  assumes "rel_inv s R" "rq_frame X s s'" "X \<inter> set R = {}"
  shows "rel_inv s' R"
proof -
  have rest: "scheds s' = scheds s" "release_queue s' = release_queue s"
    using rest_eqD[OF rq_frame_rest[OF assms(2)]] by auto
  have rt: "release_time s' = release_time s"
    using assms(2) rest(1) by (intro release_time_same_core) (auto simp: rq_frame_def)
  have "rnext s' x = rnext s x \<and> rprev s' x = rprev s x" if "x \<in> set R" for x
    using rq_frame_outside[OF assms(2)] that assms(3) by (auto intro!: link_eq)
  then have "dll (rnext s') (rprev s') \<lparr>head = release_queue s, tail = last0 R\<rparr> R"
    using rel_invD(1)[OF assms(1)] by (subst dll_cong[where nx = "rnext s" and pv = "rprev s"]) auto
  then show ?thesis
    using assms(1) rest rt by (simp add: rel_inv_def)
qed

lemma rq_inv_rel_frame:
  assumes "rq_inv s Q" "rel_frame X s s'" "\<And>i. i < NUM_READY_QUEUES \<Longrightarrow> X \<inter> set (Q i) = {}"
  shows "rq_inv s' Q"
proof -
  note F = rel_frameD[OF assms(2)]
  have "dll (rnext s') (rprev s') (ready_queues s ! i) (Q i)" if "i < NUM_READY_QUEUES" for i
  proof -
    have "rnext s' x = rnext s x \<and> rprev s' x = rprev s x" if "x \<in> set (Q i)" for x
      using F(10)[of x] that assms(3)[OF \<open>i < NUM_READY_QUEUES\<close>] by (auto intro!: link_eq)
    then show ?thesis
      using rq_invD(3)[OF assms(1) that] by (subst dll_cong[where nx = "rnext s" and pv = "rprev s"]) auto
  qed
  moreover have "\<exists>t'. tcb_at p s' = Some t' \<and> thread_home t' i" if "i < NUM_READY_QUEUES" "p \<in> set (Q i)" for i p
    using rq_invD(4)[OF assms(1) that] same_core_tcb[OF F(9), of p] core_eqD(6) by blast
  ultimately show ?thesis
    using assms(1) F(11-13) by (simp add: rq_inv_def)
qed

lemma sched_invD:
  assumes "sched_inv s Q R"
  shows "rq_inv s Q" "rel_inv s R" "i < NUM_READY_QUEUES \<Longrightarrow> set (Q i) \<inter> set R = {}"
  using assms by (auto simp: sched_inv_def)

lemma sched_enqueue_inv:
  assumes inv: "sched_inv s Q R" and t: "tcb_at p s = Some t" "thread_home t i" and u: "unqueued Q R p"
    and budget: "assert_budget p s = Some ()"
  shows "\<exists>s'. sched_enqueue p s = Some s' \<and> sched_inv s' (Q(i := p # Q i)) R \<and> rq_frame (insert p (set (Q i))) s s'"
proof -
  obtain s' where s': "sched_enqueue p s = Some s'" "rq_inv s' (Q(i := p # Q i))" "rq_frame (insert p (set (Q i))) s s'"
    using sched_enqueue_rq[OF sched_invD(1)[OF inv] t _ budget] u by (auto simp: unqueued_def)
  moreover have "insert p (set (Q i)) \<inter> set R = {}"
    using sched_invD(3)[OF inv thread_home_less[OF t(2)]] u by (auto simp: unqueued_def)
  moreover from this have "rel_inv s' R"
    using rel_inv_rq_frame[OF sched_invD(2)[OF inv] s'(3)] by blast
  ultimately show ?thesis
    using sched_invD(3)[OF inv] by (auto simp: sched_inv_def)
qed

lemma sched_append_inv:
  assumes inv: "sched_inv s Q R" and t: "tcb_at p s = Some t" "thread_home t i" and u: "unqueued Q R p"
    and budget: "assert_budget p s = Some ()"
  shows "\<exists>s'. sched_append p s = Some s' \<and> sched_inv s' (Q(i := Q i @ [p])) R \<and> rq_frame (insert p (set (Q i))) s s'"
proof -
  obtain s' where s': "sched_append p s = Some s'" "rq_inv s' (Q(i := Q i @ [p]))" "rq_frame (insert p (set (Q i))) s s'"
    using sched_append_rq[OF sched_invD(1)[OF inv] t _ budget] u by (auto simp: unqueued_def)
  moreover have "insert p (set (Q i)) \<inter> set R = {}"
    using sched_invD(3)[OF inv thread_home_less[OF t(2)]] u by (auto simp: unqueued_def)
  moreover from this have "rel_inv s' R"
    using rel_inv_rq_frame[OF sched_invD(2)[OF inv] s'(3)] by blast
  ultimately show ?thesis
    using sched_invD(3)[OF inv] by (auto simp: sched_inv_def)
qed

lemma sched_dequeue_inv:
  assumes inv: "sched_inv s Q R" and i: "i < NUM_READY_QUEUES" and p: "p \<in> set (Q i)"
  shows "\<exists>s'. sched_dequeue p s = Some s' \<and> sched_inv s' (Q(i := remove1 p (Q i))) R
    \<and> unqueued (Q(i := remove1 p (Q i))) R p \<and> rq_frame (set (Q i) - {p}) s s'"
proof -
  obtain t where t: "tcb_at p s = Some t" "thread_home t i"
    using rq_invD(4)[OF sched_invD(1)[OF inv] i p] by blast
  obtain s' where s': "sched_dequeue p s = Some s'" "rq_inv s' (Q(i := remove1 p (Q i)))" "rq_frame (set (Q i) - {p}) s s'"
    using sched_dequeue_rq[OF sched_invD(1)[OF inv] t p] by blast
  moreover have "(set (Q i) - {p}) \<inter> set R = {}"
    using sched_invD(3)[OF inv i] by auto
  moreover from this have "rel_inv s' R"
    using rel_inv_rq_frame[OF sched_invD(2)[OF inv] s'(3)] by blast
  moreover have "p \<notin> set (Q j)" if "j < NUM_READY_QUEUES" "j \<noteq> i" for j
    using rq_disjoint[OF sched_invD(1)[OF inv] i that(1) p] that(2) by blast
  moreover have "distinct (Q i)"
    using dll_distinct[OF rq_invD(3)[OF sched_invD(1)[OF inv] i]] .
  moreover have "set (remove1 p (Q i)) \<inter> set R = {}"
    using sched_invD(3)[OF inv i] set_remove1_subset[of p "Q i"] by auto
  ultimately show ?thesis
    using sched_invD(3)[OF inv] p i by (auto simp: sched_inv_def unqueued_def)
qed

lemma release_enqueue_inv:
  assumes inv: "sched_inv s Q R" and u: "unqueued Q R p" and tm: "release_time s p = Some tm"
  defines "R' \<equiv> takeWhile (\<lambda>x. the (release_time s x) \<le> tm) R @ p # dropWhile (\<lambda>x. the (release_time s x) \<le> tm) R"
  shows "\<exists>s'. release_enqueue p s = Some s' \<and> sched_inv s' Q R' \<and> rel_frame (insert p (set R)) s s'
    \<and> set R' = insert p (set R)"
proof -
  obtain s' where s': "release_enqueue p s = Some s'" "rel_frame (insert p (set R)) s s'" "rel_inv s' R'"
    using release_enqueue_rel[OF sched_invD(2)[OF inv] _ tm] u by (auto simp: unqueued_def R'_def)
  have out: "insert p (set R) \<inter> set (Q i) = {}" if "i < NUM_READY_QUEUES" for i
    using sched_invD(3)[OF inv that] u that by (auto simp: unqueued_def)
  have "set (takeWhile (\<lambda>x. the (release_time s x) \<le> tm) R) \<union> set (dropWhile (\<lambda>x. the (release_time s x) \<le> tm) R) = set R"
    by (metis set_append takeWhile_dropWhile_id)
  then have "set R' = insert p (set R)"
    by (auto simp: R'_def)
  then show ?thesis
    using s' rq_inv_rel_frame[OF sched_invD(1)[OF inv] s'(2) out] out by (fastforce simp: sched_inv_def)
qed

lemma release_dequeue_inv:
  assumes inv: "sched_inv s Q (p # R)"
  shows "\<exists>s'. release_dequeue s = Some (p, s') \<and> sched_inv s' Q R \<and> unqueued Q R p \<and> rel_frame (set (p # R)) s s'"
proof -
  obtain s' where s': "release_dequeue s = Some (p, s')" "rel_frame (set (p # R)) s s'" "rel_inv s' R"
    using release_dequeue_rel[OF sched_invD(2)[OF inv]] by blast
  have out: "set (p # R) \<inter> set (Q i) = {}" if "i < NUM_READY_QUEUES" for i
    using sched_invD(3)[OF inv that] by auto
  moreover have "p \<notin> set R"
    using rel_invD(5)[OF sched_invD(2)[OF inv]] by simp
  ultimately show ?thesis
    using s' rq_inv_rel_frame[OF sched_invD(1)[OF inv] s'(2) out] by (fastforce simp: sched_inv_def unqueued_def)
qed

lemma release_remove_inv:
  assumes inv: "sched_inv s Q R" and p: "p \<in> set R"
  shows "\<exists>s'. release_remove p s = Some s' \<and> sched_inv s' Q (remove1 p R) \<and> unqueued Q (remove1 p R) p
    \<and> rel_frame (set R) s s'"
proof -
  obtain s' where s': "release_remove p s = Some s'" "rel_frame (set R) s s'" "rel_inv s' (remove1 p R)"
    using release_remove_rel[OF sched_invD(2)[OF inv] p] by blast
  have out: "set R \<inter> set (Q i) = {}" if "i < NUM_READY_QUEUES" for i
    using sched_invD(3)[OF inv that] by auto
  moreover have "set (remove1 p R) = set R - {p}"
    using rel_invD(5)[OF sched_invD(2)[OF inv]] by simp
  ultimately show ?thesis
    using s' rq_inv_rel_frame[OF sched_invD(1)[OF inv] s'(2) out] p by (fastforce simp: sched_inv_def unqueued_def)
qed

subsection \<open>First-in first-out queues\<close>

text \<open>
  What the kernel relies on when it moves threads between queues: appending a thread that is not
  queued puts it last, removing a queued thread keeps the order of the others.
\<close>

locale fifo =
  fixes Inv :: "'s \<Rightarrow> 'p list \<Rightarrow> bool"
    and ok :: "'p \<Rightarrow> 's \<Rightarrow> bool"
    and app :: "'p \<Rightarrow> 's \<Rightarrow> 's option"
    and deq :: "'p \<Rightarrow> 's \<Rightarrow> 's option"
  assumes app: "\<lbrakk>Inv s xs; p \<notin> set xs; ok p s\<rbrakk> \<Longrightarrow> \<exists>s'. app p s = Some s' \<and> Inv s' (xs @ [p])"
    and deq: "\<lbrakk>Inv s xs; p \<in> set xs\<rbrakk> \<Longrightarrow> \<exists>s'. deq p s = Some s' \<and> Inv s' (remove1 p xs)"
    and deq_ok: "\<lbrakk>Inv s xs; p \<in> set xs; deq p s = Some s'; ok q s\<rbrakk> \<Longrightarrow> ok q s'"
    and dist: "Inv s xs \<Longrightarrow> distinct xs"
begin

lemma move_to_back:
  assumes "Inv s xs" "p \<in> set xs" "ok p s"
  shows "\<exists>s'. (deq p s \<bind> app p) = Some s' \<and> Inv s' (remove1 p xs @ [p])"
proof -
  obtain s1 where s1: "deq p s = Some s1" "Inv s1 (remove1 p xs)"
    using deq[OF assms(1,2)] by blast
  moreover have "p \<notin> set (remove1 p xs)"
    using dist[OF assms(1)] by simp
  ultimately show ?thesis
    using app[OF s1(2)] deq_ok[OF assms(1,2) s1(1) assms(3)] by simp
qed

lemma round_robin:
  assumes "Inv s (p # xs)" "ok p s"
  shows "\<exists>s'. (deq p s \<bind> app p) = Some s' \<and> Inv s' (xs @ [p])"
  using move_to_back[OF assms(1) _ assms(2)] by simp

end

lemma budget_core:
  assumes "scheds s' = scheds s" "current_time s' = current_time s"
    and "tcb_at p s = Some t" "tcb_at p s' = Some t'" "core t' = core t"
  shows "is_time_sensitived p s' = is_time_sensitived p s" "is_schedulable p s' = is_schedulable p s"
    "sched_of p s' = sched_of p s" "assert_budget p s' = assert_budget p s"
proof -
  show 1: "is_time_sensitived p s' = is_time_sensitived p s" "is_schedulable p s' = is_schedulable p s"
    "sched_of p s' = sched_of p s"
    using assms(1,3,4) core_eqD(4,5)[OF assms(5)]
    by (simp_all add: is_time_sensitived_def is_schedulable_def sched_of_def sched_at_def is_runnable_def)
  show "assert_budget p s' = assert_budget p s"
    unfolding assert_budget_def 1 assms(2) ..
qed

lemma assert_budget_rq_frame:
  assumes "rq_frame X s s'" "tcb_at p s = Some t"
  shows "assert_budget p s' = assert_budget p s"
proof -
  obtain t' where t': "tcb_at p s' = Some t'" "core t' = core t"
    using rq_frame_tcb[OF assms] by blast
  show ?thesis
    using rest_eqD(1,15)[OF rq_frame_rest[OF assms(1)]] budget_core(4)[OF _ _ assms(2) t'] by blast
qed

definition rq_ok :: "(nat \<Rightarrow> ptr list) \<Rightarrow> ptr list \<Rightarrow> nat \<Rightarrow> ptr \<Rightarrow> kstate \<Rightarrow> bool" where
  "rq_ok Q R i p s \<longleftrightarrow> (\<exists>t. tcb_at p s = Some t \<and> thread_home t i) \<and> assert_budget p s = Some ()
     \<and> unqueued (Q(i := [])) R p"

lemma unqueued_upd: "unqueued (Q(i := xs)) R p \<longleftrightarrow> unqueued (Q(i := [])) R p \<and> (i < NUM_READY_QUEUES \<longrightarrow> p \<notin> set xs)"
  by (auto simp: unqueued_def)

interpretation rq: fifo "\<lambda>s xs. i < NUM_READY_QUEUES \<and> sched_inv s (Q(i := xs)) R" "rq_ok Q R i" sched_append sched_dequeue
  for Q :: "nat \<Rightarrow> ptr list" and R :: "ptr list" and i :: nat
proof unfold_locales
  fix s xs p assume A: "i < NUM_READY_QUEUES \<and> sched_inv s (Q(i := xs)) R" "p \<notin> set xs" "rq_ok Q R i p s"
  then obtain t where t: "tcb_at p s = Some t" "thread_home t i"
    by (auto simp: rq_ok_def)
  moreover have "unqueued (Q(i := xs)) R p"
    using A(2,3) by (simp add: rq_ok_def unqueued_upd[of Q i xs])
  ultimately show "\<exists>s'. sched_append p s = Some s' \<and> i < NUM_READY_QUEUES \<and> sched_inv s' (Q(i := xs @ [p])) R"
    using sched_append_inv[of s "Q(i := xs)" R p t i] A(1,3) by (auto simp: rq_ok_def)
next
  fix s xs p assume A: "i < NUM_READY_QUEUES \<and> sched_inv s (Q(i := xs)) R" "p \<in> set xs"
  then show "\<exists>s'. sched_dequeue p s = Some s' \<and> i < NUM_READY_QUEUES \<and> sched_inv s' (Q(i := remove1 p xs)) R"
    using sched_dequeue_inv[of s "Q(i := xs)" R i p] by auto
  fix s' q assume D: "sched_dequeue p s = Some s'" "rq_ok Q R i q s"
  then have frame: "rq_frame (set xs - {p}) s s'"
    using A sched_dequeue_inv[of s "Q(i := xs)" R i p] by auto
  obtain t where t: "tcb_at q s = Some t" "thread_home t i"
    using D(2) by (auto simp: rq_ok_def)
  then obtain t' where "tcb_at q s' = Some t'" "thread_home t' i"
    using rq_frame_tcb[OF frame] core_eqD(6) by blast
  then show "rq_ok Q R i q s'"
    using D(2) assert_budget_rq_frame[OF frame t(1)] by (simp add: rq_ok_def)
next
  fix s xs assume "i < NUM_READY_QUEUES \<and> sched_inv s (Q(i := xs)) R"
  then show "distinct xs"
    using dll_distinct[OF rq_invD(3)[OF sched_invD(1)], of s "Q(i := xs)" R i] by simp
qed

section \<open>Properties\<close>

definition blank_tcb :: ktcb where
  "blank_tcb = \<lparr>option = 0, obj_ptr = 0, obj_state = 0, sched_prior = 0, sched_locked = 0, mcp = 0, domain = 0,
     level = 0, swap_data = 0, callee_saved_mr = replicate 8 0, psp = 0, thread_id = 0, user = 0, abort_handle = 0,
     notifation_node = 0, message_node = 0, sched = 0, yield = 0, ready_q_next = 0, ready_q_prev = 0,
     mesg_q_next = 0, mesg_q_prev = 0, swap_return_value = 0\<rparr>"

lemma sched_inv_zero: "sched_inv ((zero_kstate i m p)\<lparr>tcbs := t\<rparr>) (\<lambda>_. []) []"
proof -
  have "ready_queues (zero_kstate i m p) = replicate 256 \<lparr>head = 0, tail = 0\<rparr>" "release_queue (zero_kstate i m p) = 0"
    by (simp_all add: zero_kstate_def config_simps)
  then show ?thesis
    using bitmap_ok_zero[of i m p] by (simp add: sched_inv_def rq_inv_def rel_inv_def last0_def config_simps)
qed

lemma thread_home_blank: "thread_home (blank_tcb\<lparr>sched_prior := word_of_nat k\<rparr>) k" if "k < 256"
proof -
  have "unat (word_of_nat k :: 8 word) = k"
    using that by (intro unat_word_of_nat) simp
  then show ?thesis
    using that by (simp add: thread_home_def prio_of_def blank_tcb_def config_simps unsigned_ucast_eq take_bit_nat_eq_self)
qed

definition state_ex :: "(ptr \<Rightarrow> ktcb option) \<Rightarrow> kstate" where
  "state_ex m = (zero_kstate 8 16 24)\<lparr>tcbs := m\<rparr>"

lemma state_ex_simps [simp]:
  "tcbs (state_ex m) = m" "current_time (state_ex m) = 0" "release_queue (state_ex m) = 0"
  "scheduler_action (state_ex m) = 0" "current_domain (state_ex m) = 0"
  by (simp_all add: state_ex_def zero_kstate_def)

lemma state_ex_inv: "sched_inv (state_ex m) (\<lambda>_. []) []"
  by (simp add: state_ex_def sched_inv_zero)

lemma blank_budget:
  "\<lbrakk>tcb_at p s = Some t; sched t = NULL\<rbrakk> \<Longrightarrow> assert_budget p s = Some ()"
  by (simp add: assert_budget_def is_time_sensitived_def)

text \<open>
  C2: \<open>sched_append\<close> refines appending to the list of its priority: for a thread that is in no queue
  and passes the budget assertions it returns, and afterwards the doubly linked queue of its priority
  represents the old list with the thread last; all other queues, the bitmap invariant and the
  release queue are kept.
\<close>
theorem sched_append_refines:
  assumes "sched_inv s Q R" "tcb_at p s = Some t" "thread_home t i" "unqueued Q R p" "assert_budget p s = Some ()"
  shows "\<exists>s'. sched_append p s = Some s' \<and> sched_inv s' (Q(i := Q i @ [p])) R"
  using sched_append_inv[OF assms] by blast

theorem sched_append_refines_witness:
  "\<exists>s'. sched_append 100 (state_ex [100 \<mapsto> blank_tcb\<lparr>sched_prior := word_of_nat 5\<rparr>]) = Some s'
    \<and> sched_inv s' ((\<lambda>_. [])(5 := [100])) []"
  using sched_append_refines[OF state_ex_inv _ thread_home_blank, of 100 "[100 \<mapsto> blank_tcb\<lparr>sched_prior := word_of_nat 5\<rparr>]" 5]
    blank_budget[of 100 "state_ex [100 \<mapsto> blank_tcb\<lparr>sched_prior := word_of_nat 5\<rparr>]"]
  by (simp add: unqueued_def tcb_at_def blank_tcb_def)

text \<open>
  \<open>sched_enqueue\<close> refines inserting at the front of the list of its priority.
\<close>
theorem sched_enqueue_refines:
  assumes "sched_inv s Q R" "tcb_at p s = Some t" "thread_home t i" "unqueued Q R p" "assert_budget p s = Some ()"
  shows "\<exists>s'. sched_enqueue p s = Some s' \<and> sched_inv s' (Q(i := p # Q i)) R"
  using sched_enqueue_inv[OF assms] by blast

theorem sched_enqueue_refines_witness:
  "\<exists>s'. sched_enqueue 100 (state_ex [100 \<mapsto> blank_tcb\<lparr>sched_prior := word_of_nat 255\<rparr>]) = Some s'
    \<and> sched_inv s' ((\<lambda>_. [])(255 := [100])) []"
  using sched_enqueue_refines[OF state_ex_inv _ thread_home_blank, of 100 "[100 \<mapsto> blank_tcb\<lparr>sched_prior := word_of_nat 255\<rparr>]" 255]
    blank_budget[of 100 "state_ex [100 \<mapsto> blank_tcb\<lparr>sched_prior := word_of_nat 255\<rparr>]"]
  by (simp add: unqueued_def tcb_at_def blank_tcb_def)

text \<open>
  C3: \<open>sched_dequeue\<close> of a queued thread refines removing it from its list, wherever in the queue it
  is, and clears the bitmap bit exactly when the queue becomes empty (part of the invariant).
\<close>
theorem sched_dequeue_refines:
  assumes "sched_inv s Q R" "i < NUM_READY_QUEUES" "p \<in> set (Q i)"
  shows "\<exists>s'. sched_dequeue p s = Some s' \<and> sched_inv s' (Q(i := remove1 p (Q i))) R"
  using sched_dequeue_inv[OF assms] by blast

theorem sched_dequeue_refines_witness:
  "\<exists>s s'. sched_append 100 (state_ex [100 \<mapsto> blank_tcb\<lparr>sched_prior := word_of_nat 5\<rparr>]) = Some s
    \<and> sched_dequeue 100 s = Some s' \<and> sched_inv s' (\<lambda>_. []) []"
proof -
  obtain s where s: "sched_append 100 (state_ex [100 \<mapsto> blank_tcb\<lparr>sched_prior := word_of_nat 5\<rparr>]) = Some s"
    "sched_inv s ((\<lambda>_. [])(5 := [100])) []"
    using sched_append_inv[OF state_ex_inv _ thread_home_blank, of 100 "[100 \<mapsto> blank_tcb\<lparr>sched_prior := word_of_nat 5\<rparr>]" 5]
      blank_budget[of 100 "state_ex [100 \<mapsto> blank_tcb\<lparr>sched_prior := word_of_nat 5\<rparr>]"]
    by (auto simp: unqueued_def tcb_at_def blank_tcb_def)
  then show ?thesis
    using sched_dequeue_refines[OF s(2), of 5 100] by (simp add: config_simps fun_upd_idem)
qed

text \<open>
  C17: \<open>release_enqueue\<close> inserts a thread into the release queue behind all threads that are
  replenished no later, so the queue stays ordered by replenishment time (part of the invariant); the
  search loop always ends.
\<close>
theorem release_enqueue_sorted:
  assumes "sched_inv s Q R" "unqueued Q R p" "release_time s p = Some tm"
  shows "\<exists>s'. release_enqueue p s = Some s'
    \<and> sched_inv s' Q (takeWhile (\<lambda>x. the (release_time s x) \<le> tm) R @ p # dropWhile (\<lambda>x. the (release_time s x) \<le> tm) R)"
  using release_enqueue_inv[OF assms] by blast

theorem release_enqueue_sorted_witness:
  "\<exists>s'. release_enqueue 100 ((state_ex [100 \<mapsto> blank_tcb\<lparr>sched := 300\<rparr>])
      \<lparr>scheds := [300 \<mapsto> sc_example 8 [\<lparr>refill_time = 7, refill_amount = 50\<rparr>]]\<rparr>) = Some s'
    \<and> sched_inv s' (\<lambda>_. []) [100]"
proof -
  let ?s = "(state_ex [100 \<mapsto> blank_tcb\<lparr>sched := 300\<rparr>])
      \<lparr>scheds := [300 \<mapsto> sc_example 8 [\<lparr>refill_time = 7, refill_amount = 50\<rparr>]]\<rparr>"
  have "sched_inv ?s (\<lambda>_. []) []"
    using state_ex_inv[of "[100 \<mapsto> blank_tcb\<lparr>sched := 300\<rparr>]"] bitmap_ok_cong[of ?s "state_ex [100 \<mapsto> blank_tcb\<lparr>sched := 300\<rparr>]"]
    by (simp add: sched_inv_def rq_inv_def rel_inv_def)
  moreover have "release_time ?s 100 = Some 7"
    by (simp add: release_time_def sched_of_def tcb_at_def sched_at_def REFILL_HEAD_def REFILL_INDEX_def sc_example_def)
  ultimately show ?thesis
    using release_enqueue_sorted[of ?s "\<lambda>_. []" "[]" 100 7] by (simp add: unqueued_def)
qed

text \<open>
  taking the thread at the front of a priority out and appending it again rotates the queue, so
  threads of equal priority are served in turn.
\<close>
theorem sched_round_robin:
  assumes "sched_inv s (Q(i := p # xs)) R" "i < NUM_READY_QUEUES" "rq_ok Q R i p s"
  shows "\<exists>s'. (sched_dequeue p s \<bind> sched_append p) = Some s' \<and> sched_inv s' (Q(i := xs @ [p])) R"
  using rq.round_robin[of i s Q p xs R] assms by blast

theorem sched_round_robin_witness:
  "\<exists>s s'. sched_append 100 (state_ex [100 \<mapsto> blank_tcb\<lparr>sched_prior := word_of_nat 5\<rparr>]) = Some s
    \<and> (sched_dequeue 100 s \<bind> sched_append 100) = Some s' \<and> sched_inv s' ((\<lambda>_. [])(5 := [100])) []"
proof -
  let ?t = "blank_tcb\<lparr>sched_prior := word_of_nat 5\<rparr>"
  have at: "tcb_at 100 (state_ex [100 \<mapsto> ?t]) = Some ?t" and b: "assert_budget 100 (state_ex [100 \<mapsto> ?t]) = Some ()"
    using blank_budget[of 100 "state_ex [100 \<mapsto> ?t]" ?t] by (simp_all add: tcb_at_def blank_tcb_def)
  obtain s where s: "sched_append 100 (state_ex [100 \<mapsto> ?t]) = Some s"
    "sched_inv s ((\<lambda>_. [])(5 := [100])) []" "rq_frame {100} (state_ex [100 \<mapsto> ?t]) s"
    using sched_append_inv[OF state_ex_inv at thread_home_blank _ b] by (auto simp: unqueued_def)
  obtain t where t: "tcb_at 100 s = Some t" "core t = core ?t"
    using rq_frame_tcb[OF s(3) at] by blast
  have "rq_ok (\<lambda>_. []) [] 5 100 s"
    using t(1) core_eqD(6)[OF t(2), of 5] thread_home_blank[of 5] assert_budget_rq_frame[OF s(3) at] b
    by (simp add: rq_ok_def unqueued_def)
  then show ?thesis
    using sched_round_robin[of s "\<lambda>_. []" 5 100 "[]" "[]"] s by (simp add: config_simps)
qed

text \<open>
  \<open>sched_dequeue\<close> does not check that the thread is queued.  Called on a thread with NULL links
  that is in no queue, it empties the ready queue of the thread's priority and clears its bitmap bit,
  so every thread that was queued there is lost for the scheduler.
\<close>
theorem sched_dequeue_unqueued_drops:
  assumes "rq_inv s Q" "tcb_at p s = Some t" "thread_home t i" "ready_q_next t = NULL" "ready_q_prev t = NULL"
  shows "\<exists>s'. sched_dequeue p s = Some s' \<and> ready_queues s' ! i = \<lparr>head = NULL, tail = NULL\<rparr>
    \<and> unat (prio_of t) \<notin> prio_set s' (unat (domain t))"
proof -
  obtain idx where idx: "ready_queues_index (domain t) (prio_of t) = Some idx" "unat idx = i"
    using thread_home_index[OF assms(3)] by blast
  obtain s1 where s1: "remove_from_bitmap (domain t) (prio_of t) s = Some s1" "bitmap_frame s s1"
    "prio_set s1 = (prio_set s)(unat (domain t) := prio_set s (unat (domain t)) - {unat (prio_of t)})"
    using remove_from_bitmap_set[OF rq_invD(2)[OF assms(1)] _ prio_of_less, of "domain t" t] assms(3)
    by (auto simp: thread_home_def)
  note f = bitmap_frameD(1-3)[OF s1(2)]
  show ?thesis
    using assms(2,4,5) idx s1(1,3) f rq_invD(1)[OF assms(1)] thread_home_less[OF assms(3)]
    by (simp add: sched_dequeue_def)
qed

theorem sched_dequeue_unqueued_drops_witness:
  "\<exists>s s'. sched_append 100 (state_ex [100 \<mapsto> blank_tcb\<lparr>sched_prior := word_of_nat 5\<rparr>, 200 \<mapsto> blank_tcb\<lparr>sched_prior := word_of_nat 5\<rparr>]) = Some s
    \<and> head (ready_queues s ! 5) = 100 \<and> sched_dequeue 200 s = Some s' \<and> head (ready_queues s' ! 5) = NULL"
proof -
  let ?t = "blank_tcb\<lparr>sched_prior := word_of_nat 5\<rparr>"
  let ?s = "state_ex [100 \<mapsto> ?t, 200 \<mapsto> ?t]"
  have at: "tcb_at 100 ?s = Some ?t" and b: "assert_budget 100 ?s = Some ()"
    using blank_budget[of 100 ?s ?t] by (simp_all add: tcb_at_def blank_tcb_def)
  obtain s where s: "sched_append 100 ?s = Some s" "sched_inv s ((\<lambda>_. [])(5 := [100])) []" "rq_frame {100} ?s s"
    using sched_append_inv[OF state_ex_inv at thread_home_blank _ b] by (auto simp: unqueued_def)
  have "tcb_at 200 s = Some ?t"
    using rq_frame_outside[OF s(3), of 200] by (simp add: tcb_at_def)
  moreover have "head (ready_queues s ! 5) = 100"
    using dll_head[OF rq_invD(3)[OF sched_invD(1)[OF s(2)], of 5]] by (simp add: config_simps)
  ultimately show ?thesis
    using sched_dequeue_unqueued_drops[OF sched_invD(1)[OF s(2)] _ thread_home_blank, of 200 5] s(1)
    by (auto simp: blank_tcb_def)
qed

end
