(* ===== verification/Thread_State.thy ===== *)
theory Thread_State
  imports Ready_Queues
begin

text \<open>
  The state word of a thread: the predicates and markers of \<^verbatim>\<open>inc/kernel/thread.h\<close>, the priority
  comparisons, and the fact that the scheduler invariant only depends on a view of each thread, so that
  operations on the state word, on message links or on registers preserve it.
\<close>

unbundle bit_operations_syntax

section \<open>Predicates\<close>

definition is_blocked :: "ktcb \<Rightarrow> bool" where
  "is_blocked t \<longleftrightarrow> obj_state t = state_suspended_state"

definition is_thread_dummy :: "ktcb \<Rightarrow> bool" where
  "is_thread_dummy t \<longleftrightarrow> obj_state t AND state_dummy_state \<noteq> 0"

definition is_thread_pending :: "ktcb \<Rightarrow> bool" where
  "is_thread_pending t \<longleftrightarrow>
     obj_state t AND (state_send_blocked_state OR state_recv_blocked_state OR state_notify_blocked_state) \<noteq> 0"

definition is_thread_not_running :: "ktcb \<Rightarrow> bool" where
  "is_thread_not_running t \<longleftrightarrow>
     (let state = ucast (obj_state t) :: byte_t
      in ucast state AND (state_send_blocked_state OR state_recv_blocked_state OR state_notify_blocked_state
           OR state_restart_state OR state_dead_state OR state_dummy_state OR state_suspended_state) \<noteq> 0)"

definition is_thread_ready :: "ktcb \<Rightarrow> bool" where
  "is_thread_ready t \<longleftrightarrow> \<not> is_thread_not_running t"

definition has_thread_started :: "ktcb \<Rightarrow> bool" where
  "has_thread_started t \<longleftrightarrow> obj_state t AND state_restart_state = 0"

definition is_thread_state_set :: "ktcb \<Rightarrow> word_t \<Rightarrow> bool" where
  "is_thread_state_set t state \<longleftrightarrow> obj_state t AND state \<noteq> 0"

definition is_thread_queued :: "ktcb \<Rightarrow> bool" where
  "is_thread_queued t = is_thread_state_set t state_queued_state"

definition is_thread_running :: "ktcb \<Rightarrow> bool" where
  "is_thread_running t \<longleftrightarrow> \<not> is_thread_not_running t \<and> \<not> is_thread_queued t"

section \<open>Markers\<close>

definition set_thread_states :: "word_t \<Rightarrow> ktcb \<Rightarrow> ktcb" where
  "set_thread_states states t = t\<lparr>obj_state := obj_state t OR states\<rparr>"

definition reset_thread_states :: "word_t \<Rightarrow> ktcb \<Rightarrow> ktcb" where
  "reset_thread_states states t = t\<lparr>obj_state := obj_state t AND NOT states\<rparr>"

definition marktcb_as_not_dummy :: "ktcb \<Rightarrow> ktcb" where
  "marktcb_as_not_dummy t = t\<lparr>obj_state := obj_state t AND NOT state_dummy_state\<rparr>"

definition marktcb_as_suspended :: "ktcb \<Rightarrow> ktcb" where
  "marktcb_as_suspended t = t\<lparr>obj_state := obj_state t OR state_suspended_state\<rparr>"

definition marktcb_as_not_suspended :: "ktcb \<Rightarrow> ktcb" where
  "marktcb_as_not_suspended t = t\<lparr>obj_state := obj_state t AND NOT state_suspended_state\<rparr>"

definition marktcb_as_started :: "ktcb \<Rightarrow> ktcb" where
  "marktcb_as_started t = t\<lparr>obj_state := obj_state t AND NOT state_restart_state\<rparr>"

definition marktcb_as_s_pending :: "ktcb \<Rightarrow> ktcb" where
  "marktcb_as_s_pending t = t\<lparr>obj_state := obj_state t OR state_send_blocked_state\<rparr>"

definition marktcb_as_s_not_pending :: "ktcb \<Rightarrow> ktcb" where
  "marktcb_as_s_not_pending t = t\<lparr>obj_state := obj_state t AND NOT state_send_blocked_state\<rparr>"

definition marktcb_as_r_pending :: "ktcb \<Rightarrow> ktcb" where
  "marktcb_as_r_pending t = t\<lparr>obj_state := obj_state t OR state_send_blocked_state\<rparr>"

definition marktcb_as_r_not_pending :: "ktcb \<Rightarrow> ktcb" where
  "marktcb_as_r_not_pending t = t\<lparr>obj_state := obj_state t AND NOT state_send_blocked_state\<rparr>"

definition marktcb_as_queued :: "ktcb \<Rightarrow> ktcb" where
  "marktcb_as_queued t = set_thread_states state_queued_state t"

definition marktcb_as_not_queued :: "ktcb \<Rightarrow> ktcb" where
  "marktcb_as_not_queued t = reset_thread_states state_queued_state t"

section \<open>Priorities\<close>

definition check_prio :: "word_t \<Rightarrow> ktcb \<Rightarrow> bool option" where
  "check_prio prio t = do {
     assertK (mcp t \<le> word_of_nat NUM_PRIORITIES);
     Some (\<not> prio > mcp t) }"

definition is_prio1_higher_than_or_equal_to_prio2 :: "word_t \<Rightarrow> word_t \<Rightarrow> bool" where
  "is_prio1_higher_than_or_equal_to_prio2 p1 p2 \<longleftrightarrow> p1 \<le>s p2"

definition is_prio_higher_or_equal :: "word_t \<Rightarrow> word_t \<Rightarrow> bool" where
  "is_prio_higher_or_equal p1 p2 = is_prio1_higher_than_or_equal_to_prio2 p1 p2"

definition is_prio1_lower_than_or_equal_to_prio2 :: "word_t \<Rightarrow> word_t \<Rightarrow> bool" where
  "is_prio1_lower_than_or_equal_to_prio2 p1 p2 \<longleftrightarrow> p2 \<le>s p1"

definition is_prio1_higher_than_prio2 :: "word_t \<Rightarrow> word_t \<Rightarrow> bool" where
  "is_prio1_higher_than_prio2 p1 p2 \<longleftrightarrow> p1 <s p2"

definition is_prio_higher :: "word_t \<Rightarrow> word_t \<Rightarrow> bool" where
  "is_prio_higher p q = is_prio1_higher_than_prio2 p q"

definition is_prio_lower_or_equal :: "word_t \<Rightarrow> word_t \<Rightarrow> bool" where
  "is_prio_lower_or_equal p1 p2 = is_prio1_lower_than_or_equal_to_prio2 p1 p2"

definition is_t1_higher_prio_than_t2 :: "ktcb \<Rightarrow> ktcb \<Rightarrow> bool" where
  "is_t1_higher_prio_than_t2 t1 t2 \<longleftrightarrow> sched_prior t1 > sched_prior t2"

section \<open>What the scheduler queues depend on\<close>

definition qview :: "ktcb \<Rightarrow> ptr \<times> ptr \<times> word_t \<times> byte_t \<times> ptr" where
  "qview t = (ready_q_next t, ready_q_prev t, domain t, sched_prior t, sched t)"

definition same_view :: "kstate \<Rightarrow> kstate \<Rightarrow> bool" where
  "same_view s s' \<longleftrightarrow> (\<forall>p. map_option qview (tcbs s' p) = map_option qview (tcbs s p))
     \<and> ready_queues s' = ready_queues s \<and> ready_queues_l1_bitmap s' = ready_queues_l1_bitmap s
     \<and> ready_queues_l2_bitmap s' = ready_queues_l2_bitmap s \<and> release_queue s' = release_queue s
     \<and> scheds s' = scheds s"

lemma same_view_refl [simp]: "same_view s s"
  by (simp add: same_view_def)

lemma tcb_at_frame [simp]:
  "tcb_at p (s\<lparr>messages := v0\<rparr>) = tcb_at p s"
  "tcb_at p (s\<lparr>notifations := v1\<rparr>) = tcb_at p s"
  "tcb_at p (s\<lparr>utcbs := v2\<rparr>) = tcb_at p s"
  "tcb_at p (s\<lparr>scheds := v3\<rparr>) = tcb_at p s"
  "tcb_at p (s\<lparr>current_thread := v4\<rparr>) = tcb_at p s"
  "tcb_at p (s\<lparr>swap_ok := v5\<rparr>) = tcb_at p s"
  "tcb_at p (s\<lparr>ready_thread := v6\<rparr>) = tcb_at p s"
  "tcb_at p (s\<lparr>scheduler_action := v7\<rparr>) = tcb_at p s"
  "tcb_at p (s\<lparr>ready_queues := v8\<rparr>) = tcb_at p s"
  "tcb_at p (s\<lparr>release_queue := v9\<rparr>) = tcb_at p s"
  "tcb_at p (s\<lparr>reprogram := v10\<rparr>) = tcb_at p s"
  "tcb_at p (s\<lparr>consume_time := v11\<rparr>) = tcb_at p s"
  "tcb_at p (s\<lparr>current_time := v12\<rparr>) = tcb_at p s"
  "tcb_at p (s\<lparr>current_domain_time := v13\<rparr>) = tcb_at p s"
  "tcb_at p (s\<lparr>current_domain := v14\<rparr>) = tcb_at p s"
  "tcb_at p (s\<lparr>current_domain_schedule_idx := v15\<rparr>) = tcb_at p s"
  "tcb_at p (s\<lparr>work_units_completed := v16\<rparr>) = tcb_at p s"
  "tcb_at p (s\<lparr>current_sched := v17\<rparr>) = tcb_at p s"
  "tcb_at p (s\<lparr>current_syscall_error_code := v18\<rparr>) = tcb_at p s"
  "tcb_at p (s\<lparr>current_kernel_status_code := v19\<rparr>) = tcb_at p s"
  "tcb_at p (s\<lparr>privilege_thread_status := v20\<rparr>) = tcb_at p s"
  "tcb_at p (s\<lparr>timers := v21\<rparr>) = tcb_at p s"
  "tcb_at p (s\<lparr>free_objects := fv22\<rparr>) = tcb_at p s"
  "tcb_at p (s\<lparr>d_objects := dv22\<rparr>) = tcb_at p s"
  "tcb_at p (s\<lparr>d_obj_type := tv22\<rparr>) = tcb_at p s"
  "tcb_at p (s\<lparr>pendsv := v23\<rparr>) = tcb_at p s"
  "tcb_at p (s\<lparr>ready_queues_l1_bitmap := v24\<rparr>) = tcb_at p s"
  "tcb_at p (s\<lparr>ready_queues_l2_bitmap := v25\<rparr>) = tcb_at p s"
  "tcb_at p (s\<lparr>fastipc_caller := v26\<rparr>) = tcb_at p s"
  "tcb_at p (s\<lparr>record_threads := v27\<rparr>) = tcb_at p s"
  "tcb_at p (s\<lparr>record_thread_count := v28\<rparr>) = tcb_at p s"
  by (simp_all add: tcb_at_def)

lemma sched_at_frame [simp]:
  "sched_at p (s\<lparr>messages := v0\<rparr>) = sched_at p s"
  "sched_at p (s\<lparr>notifations := v1\<rparr>) = sched_at p s"
  "sched_at p (s\<lparr>utcbs := v2\<rparr>) = sched_at p s"
  "sched_at p (s\<lparr>current_thread := v3\<rparr>) = sched_at p s"
  "sched_at p (s\<lparr>swap_ok := v4\<rparr>) = sched_at p s"
  "sched_at p (s\<lparr>ready_thread := v5\<rparr>) = sched_at p s"
  "sched_at p (s\<lparr>scheduler_action := v6\<rparr>) = sched_at p s"
  "sched_at p (s\<lparr>ready_queues := v7\<rparr>) = sched_at p s"
  "sched_at p (s\<lparr>release_queue := v8\<rparr>) = sched_at p s"
  "sched_at p (s\<lparr>reprogram := v9\<rparr>) = sched_at p s"
  "sched_at p (s\<lparr>consume_time := v10\<rparr>) = sched_at p s"
  "sched_at p (s\<lparr>current_time := v11\<rparr>) = sched_at p s"
  "sched_at p (s\<lparr>current_domain_time := v12\<rparr>) = sched_at p s"
  "sched_at p (s\<lparr>current_domain := v13\<rparr>) = sched_at p s"
  "sched_at p (s\<lparr>current_domain_schedule_idx := v14\<rparr>) = sched_at p s"
  "sched_at p (s\<lparr>work_units_completed := v15\<rparr>) = sched_at p s"
  "sched_at p (s\<lparr>current_sched := v16\<rparr>) = sched_at p s"
  "sched_at p (s\<lparr>current_syscall_error_code := v17\<rparr>) = sched_at p s"
  "sched_at p (s\<lparr>current_kernel_status_code := v18\<rparr>) = sched_at p s"
  "sched_at p (s\<lparr>privilege_thread_status := v19\<rparr>) = sched_at p s"
  "sched_at p (s\<lparr>timers := v20\<rparr>) = sched_at p s"
  "sched_at p (s\<lparr>free_objects := fv21\<rparr>) = sched_at p s"
  "sched_at p (s\<lparr>d_objects := dv21\<rparr>) = sched_at p s"
  "sched_at p (s\<lparr>d_obj_type := tv21\<rparr>) = sched_at p s"
  "sched_at p (s\<lparr>pendsv := v22\<rparr>) = sched_at p s"
  "sched_at p (s\<lparr>ready_queues_l1_bitmap := v23\<rparr>) = sched_at p s"
  "sched_at p (s\<lparr>ready_queues_l2_bitmap := v24\<rparr>) = sched_at p s"
  "sched_at p (s\<lparr>fastipc_caller := v25\<rparr>) = sched_at p s"
  "sched_at p (s\<lparr>record_threads := v26\<rparr>) = sched_at p s"
  "sched_at p (s\<lparr>record_thread_count := v27\<rparr>) = sched_at p s"
  "sched_at p (s\<lparr>tcbs := v28\<rparr>) = sched_at p s"
  by (simp_all add: sched_at_def)

lemma same_view_frame [simp]:
  "same_view s (s1\<lparr>messages := v0\<rparr>) = same_view s s1"
  "same_view s (s1\<lparr>notifations := v1\<rparr>) = same_view s s1"
  "same_view s (s1\<lparr>utcbs := v2\<rparr>) = same_view s s1"
  "same_view s (s1\<lparr>current_thread := v3\<rparr>) = same_view s s1"
  "same_view s (s1\<lparr>swap_ok := v4\<rparr>) = same_view s s1"
  "same_view s (s1\<lparr>ready_thread := v5\<rparr>) = same_view s s1"
  "same_view s (s1\<lparr>scheduler_action := v6\<rparr>) = same_view s s1"
  "same_view s (s1\<lparr>reprogram := v7\<rparr>) = same_view s s1"
  "same_view s (s1\<lparr>consume_time := v8\<rparr>) = same_view s s1"
  "same_view s (s1\<lparr>current_time := v9\<rparr>) = same_view s s1"
  "same_view s (s1\<lparr>current_domain_time := v10\<rparr>) = same_view s s1"
  "same_view s (s1\<lparr>current_domain := v11\<rparr>) = same_view s s1"
  "same_view s (s1\<lparr>current_domain_schedule_idx := v12\<rparr>) = same_view s s1"
  "same_view s (s1\<lparr>work_units_completed := v13\<rparr>) = same_view s s1"
  "same_view s (s1\<lparr>current_sched := v14\<rparr>) = same_view s s1"
  "same_view s (s1\<lparr>current_syscall_error_code := v15\<rparr>) = same_view s s1"
  "same_view s (s1\<lparr>current_kernel_status_code := v16\<rparr>) = same_view s s1"
  "same_view s (s1\<lparr>privilege_thread_status := v17\<rparr>) = same_view s s1"
  "same_view s (s1\<lparr>timers := v18\<rparr>) = same_view s s1"
  "same_view s (s1\<lparr>free_objects := fv19\<rparr>) = same_view s s1"
  "same_view s (s1\<lparr>d_objects := dv19\<rparr>) = same_view s s1"
  "same_view s (s1\<lparr>d_obj_type := tv19\<rparr>) = same_view s s1"
  "same_view s (s1\<lparr>pendsv := v20\<rparr>) = same_view s s1"
  "same_view s (s1\<lparr>fastipc_caller := v21\<rparr>) = same_view s s1"
  "same_view s (s1\<lparr>record_threads := v22\<rparr>) = same_view s s1"
  "same_view s (s1\<lparr>record_thread_count := v23\<rparr>) = same_view s s1"
  by (simp_all add: same_view_def)

lemma same_view_trans: "same_view s s1 \<Longrightarrow> same_view s1 s2 \<Longrightarrow> same_view s s2"
  by (simp add: same_view_def)

lemma same_view_sym: "same_view s s' \<Longrightarrow> same_view s' s"
  by (simp add: same_view_def)

lemma same_view_upd:
  assumes "tcb_at p s = Some t" "qview t' = qview t"
  shows "same_view s (s\<lparr>tcbs := (tcbs s)(p \<mapsto> t')\<rparr>)"
  using assms tcb_at_SomeD[OF assms(1)] by (simp add: same_view_def)

lemma same_view_tcb_upd:
  assumes "tcb_upd p f s = Some s'" "\<And>t. qview (f t) = qview t"
  shows "same_view s s'"
  using assms same_view_upd by (auto simp: tcb_upd_def bind_eq_Some_conv)

lemma link_qview:
  "link ready_q_next m p = (case map_option qview (m p) of None \<Rightarrow> NULL | Some v \<Rightarrow> if p = NULL then NULL else fst v)"
  "link ready_q_prev m p = (case map_option qview (m p) of None \<Rightarrow> NULL | Some v \<Rightarrow> if p = NULL then NULL else fst (snd v))"
  by (cases "m p"; simp add: link_def qview_def)+

lemma same_view_link:
  assumes "same_view s s'"
  shows "rnext s' = rnext s" "rprev s' = rprev s"
proof -
  have "map_option qview (tcbs s' p) = map_option qview (tcbs s p)" for p
    using assms by (simp add: same_view_def)
  then show "rnext s' = rnext s" "rprev s' = rprev s"
    unfolding fun_eq_iff link_qview by simp_all
qed

lemma same_view_tcb:
  assumes "same_view s s'" "tcb_at p s = Some t"
  shows "\<exists>t'. tcb_at p s' = Some t' \<and> qview t' = qview t"
proof -
  have "map_option qview (tcbs s' p) = Some (qview t)" "p \<noteq> NULL"
    using assms tcb_at_SomeD[OF assms(2)] by (simp_all add: same_view_def)
  then show ?thesis
    by (auto simp: tcb_at_def)
qed

lemma qview_home: "qview t' = qview t \<Longrightarrow> thread_home t' i = thread_home t i"
  by (simp add: qview_def thread_home_def prio_of_def)

lemma same_view_release_time:
  assumes "same_view s s'"
  shows "release_time s' p = release_time s p"
proof (cases "tcb_at p s")
  case None
  then have "tcb_at p s' = None"
    using same_view_tcb[OF same_view_sym[OF assms], of p] by (cases "tcb_at p s'") auto
  with None show ?thesis
    by (simp add: release_time_def sched_of_def)
next
  case (Some t)
  then show ?thesis
    using same_view_tcb[OF assms Some] assms
    by (auto simp: release_time_def sched_of_def sched_at_def qview_def same_view_def)
qed

lemma sched_inv_view:
  assumes "sched_inv s Q R" "same_view s s'"
  shows "sched_inv s' Q R"
proof -
  have v: "ready_queues s' = ready_queues s" "ready_queues_l1_bitmap s' = ready_queues_l1_bitmap s"
    "ready_queues_l2_bitmap s' = ready_queues_l2_bitmap s" "release_queue s' = release_queue s"
    using assms(2) by (auto simp: same_view_def)
  have b: "bitmap_ok s' = bitmap_ok s" "prio_set s' d = prio_set s d" for d
    using v by (simp_all add: bitmap_ok_def prio_set_def)
  have "rq_inv s' Q"
    unfolding rq_inv_def same_view_link[OF assms(2)] v(1) b
    using rq_invD[OF sched_invD(1)[OF assms(1)]] same_view_tcb[OF assms(2)] qview_home by blast
  moreover have "rel_inv s' R"
    using sched_invD(2)[OF assms(1)]
    unfolding rel_inv_def same_view_link[OF assms(2)] v(4) same_view_release_time[OF assms(2)] .
  ultimately show ?thesis
    using assms(1) by (simp add: sched_inv_def)
qed

lemma qview_mark [simp]:
  "qview (t\<lparr>obj_state := x\<rparr>) = qview t" "qview (t\<lparr>obj_ptr := y\<rparr>) = qview t"
  "qview (t\<lparr>mesg_q_next := n\<rparr>) = qview t" "qview (t\<lparr>mesg_q_prev := n\<rparr>) = qview t"
  "qview (t\<lparr>swap_return_value := w\<rparr>) = qview t" "qview (t\<lparr>notifation_node := n\<rparr>) = qview t"
  "qview (t\<lparr>yield := n\<rparr>) = qview t" "qview (t\<lparr>sched_locked := b\<rparr>) = qview t" "qview (t\<lparr>level := w\<rparr>) = qview t"
  by (simp_all add: qview_def)

lemmas mark_defs = set_thread_states_def reset_thread_states_def marktcb_as_not_dummy_def marktcb_as_suspended_def
  marktcb_as_not_suspended_def marktcb_as_started_def marktcb_as_s_pending_def marktcb_as_s_not_pending_def
  marktcb_as_r_pending_def marktcb_as_r_not_pending_def marktcb_as_queued_def marktcb_as_not_queued_def

lemma qview_marktcb [simp]:
  "qview (marktcb_as_queued t) = qview t" "qview (marktcb_as_not_queued t) = qview t"
  "qview (marktcb_as_started t) = qview t" "qview (marktcb_as_not_suspended t) = qview t"
  "qview (marktcb_as_suspended t) = qview t"
  by (simp_all add: mark_defs)

section \<open>States and markers\<close>

lemmas state_preds = is_thread_dummy_def is_thread_pending_def is_thread_not_running_def is_thread_ready_def
  has_thread_started_def is_thread_state_set_def is_thread_queued_def is_thread_running_def

lemma or_and_neq: "n < 32 \<Longrightarrow> (x OR push_bit n 1) AND push_bit n 1 \<noteq> (0 :: word_t)"
  by (auto simp: bit_eq_iff bit_simps)

lemma and_not_and: "(x AND NOT y) AND y = (0 :: word_t)"
  by (rule bit_eqI) (auto simp: bit_simps)

lemma queued_marked [simp]: "is_thread_queued (marktcb_as_queued t)" "\<not> is_thread_queued (marktcb_as_not_queued t)"
  using or_and_neq[of 7 "obj_state t"]
  by (simp add: state_preds mark_defs state_bits, simp add: state_preds mark_defs and_not_and)

lemma byte_and: "ucast (ucast x :: byte_t) AND y = (x :: word_t) AND (0xFF AND y)"
proof -
  have "ucast (ucast x :: byte_t) = take_bit 8 x"
    by (rule bit_eqI) (auto simp: bit_simps)
  also have "\<dots> = x AND 0xFF"
    by (simp add: take_bit_eq_mask mask_eq_exp_minus_1)
  finally show ?thesis
    by (simp add: and.assoc)
qed

section \<open>Properties\<close>

text \<open>
  the test whether a thread may not run agrees with the blocking, restart, dead, dummy and suspended bits, but not
  with the notification bit: the state is copied into a byte before the test and the notification bit is bit eight, so a
  thread blocked on a notification is both pending and ready.
\<close>

theorem not_running_misses_notify:
  "(is_thread_not_running t \<longleftrightarrow> obj_state t AND (state_send_blocked_state OR state_recv_blocked_state
      OR state_restart_state OR state_dead_state OR state_dummy_state OR state_suspended_state) \<noteq> 0)
   \<and> (obj_state t = state_notify_blocked_state \<longrightarrow> is_thread_ready t \<and> is_thread_pending t)"
  by (simp add: state_preds Let_def byte_and state_bits)

theorem not_running_misses_notify_witness:
  "is_thread_ready (blank_tcb\<lparr>obj_state := state_notify_blocked_state\<rparr>)
   \<and> is_thread_pending (blank_tcb\<lparr>obj_state := state_notify_blocked_state\<rparr>)"
  using not_running_misses_notify[of "blank_tcb\<lparr>obj_state := state_notify_blocked_state\<rparr>"] by simp

end
