(* ===== verification/Message_Queues.thy ===== *)
theory Message_Queues
  imports Thread_State
begin

text \<open>
  The queues of threads waiting at message and notification nodes (\<^verbatim>\<open>message_append\<close> and
  \<^verbatim>\<open>message_dequeue\<close> of \<^verbatim>\<open>inc/kernel/thread.h\<close>), and the operations of \<^verbatim>\<open>src/object/ipc.c\<close> that only
  move a thread inside such a queue.  They use their own pair of links in \<open>struct ktcb\<close>, so they leave the
  scheduler queues alone.
\<close>

section \<open>Operations\<close>

definition message_append :: "ptr \<Rightarrow> tcb_queue \<Rightarrow> kstate \<Rightarrow> (tcb_queue \<times> kstate) option" where
  "message_append thread queue s = do {
     (queue, s) \<leftarrow>
       (if head queue = NULL then Some (queue\<lparr>head := thread\<rparr>, s)
        else do {
          s \<leftarrow> tcb_upd (tail queue) (\<lambda>t. t\<lparr>mesg_q_next := thread\<rparr>) s;
          Some (queue, s) });
     s \<leftarrow> tcb_upd thread (\<lambda>t. t\<lparr>mesg_q_prev := tail queue\<rparr>) s;
     s \<leftarrow> tcb_upd thread (\<lambda>t. t\<lparr>mesg_q_next := NULL\<rparr>) s;
     Some (queue\<lparr>tail := thread\<rparr>, s) }"

definition message_dequeue :: "ptr \<Rightarrow> tcb_queue \<Rightarrow> kstate \<Rightarrow> (tcb_queue \<times> kstate) option" where
  "message_dequeue thread queue s = do {
     t \<leftarrow> tcb_at thread s;
     (queue, s) \<leftarrow>
       (if mesg_q_prev t \<noteq> NULL then do {
          s \<leftarrow> tcb_upd (mesg_q_prev t) (\<lambda>u. u\<lparr>mesg_q_next := mesg_q_next t\<rparr>) s;
          Some (queue, s) }
        else Some (queue\<lparr>head := mesg_q_next t\<rparr>, s));
     t \<leftarrow> tcb_at thread s;
     if mesg_q_next t \<noteq> NULL then do {
       s \<leftarrow> tcb_upd (mesg_q_next t) (\<lambda>u. u\<lparr>mesg_q_prev := mesg_q_prev t\<rparr>) s;
       Some (queue, s) }
     else Some (queue\<lparr>tail := mesg_q_prev t\<rparr>, s) }"

definition set_thread_state_object :: "ptr \<Rightarrow> ptr \<Rightarrow> kstate \<Rightarrow> kstate option" where
  "set_thread_state_object thread object s = do {
     assertK (thread \<noteq> NULL);
     tcb_upd thread (\<lambda>t. t\<lparr>obj_ptr := object\<rparr>) s }"

definition get_thread_state_object :: "ptr \<Rightarrow> kstate \<Rightarrow> ptr option" where
  "get_thread_state_object thread s = do {
     assertK (thread \<noteq> NULL);
     t \<leftarrow> tcb_at thread s;
     Some (obj_ptr t) }"

definition reorder_message_node :: "ptr \<Rightarrow> kstate \<Rightarrow> kstate option" where
  "reorder_message_node thread s = do {
     assertK (thread \<noteq> NULL);
     node \<leftarrow> get_thread_state_object thread s;
     m \<leftarrow> message_at node s;
     (queue, s) \<leftarrow> message_dequeue thread (msg_queue m) s;
     (queue, s) \<leftarrow> message_append thread queue s;
     m \<leftarrow> message_at node s;
     message_put node (m\<lparr>msg_queue := queue\<rparr>) s }"

definition reorder_noticenode :: "ptr \<Rightarrow> kstate \<Rightarrow> kstate option" where
  "reorder_noticenode thread s = do {
     assertK (thread \<noteq> NULL);
     t \<leftarrow> tcb_at thread s;
     let node = notifation_node t;
     assertK (node \<noteq> NULL);
     n \<leftarrow> notifation_at node s;
     (queue, s) \<leftarrow> message_dequeue thread (ntf_queue n) s;
     (queue, s) \<leftarrow> message_append thread queue s;
     n \<leftarrow> notifation_at node s;
     notifation_put node (n\<lparr>ntf_queue := queue\<rparr>) s }"

section \<open>Abstraction\<close>

abbreviation mnext :: "kstate \<Rightarrow> ptr \<Rightarrow> ptr" where
  "mnext s \<equiv> link mesg_q_next (tcbs s)"

abbreviation mprev :: "kstate \<Rightarrow> ptr \<Rightarrow> ptr" where
  "mprev s \<equiv> link mesg_q_prev (tcbs s)"

definition mq_rep :: "kstate \<Rightarrow> tcb_queue \<Rightarrow> ptr list \<Rightarrow> bool" where
  "mq_rep s q xs \<longleftrightarrow> dll (mnext s) (mprev s) q xs \<and> (\<forall>p \<in> set xs. tcb_at p s \<noteq> None)"

definition mcore :: "ktcb \<Rightarrow> ktcb" where
  "mcore t = t\<lparr>mesg_q_next := NULL, mesg_q_prev := NULL\<rparr>"

text \<open>The frame of the message queue operations: nothing but the message links of the threads in \<open>X\<close> changes.\<close>

definition mq_frame :: "ptr set \<Rightarrow> kstate \<Rightarrow> kstate \<Rightarrow> bool" where
  "mq_frame X s s' \<longleftrightarrow> s'\<lparr>tcbs := (\<lambda>_. None)\<rparr> = s\<lparr>tcbs := (\<lambda>_. None)\<rparr> \<and> (\<forall>p. map_option mcore (tcbs s' p) = map_option mcore (tcbs s p))
     \<and> (\<forall>p. p \<notin> X \<longrightarrow> tcbs s' p = tcbs s p)"

lemma mcore_upd [simp]: "mcore (t\<lparr>mesg_q_next := x\<rparr>) = mcore t" "mcore (t\<lparr>mesg_q_prev := x\<rparr>) = mcore t"
  by (simp_all add: mcore_def)

lemma mq_frame_refl [simp]: "mq_frame X s s"
  by (simp add: mq_frame_def)

lemma mq_frame_upd:
  assumes "mq_frame X s s'" "tcbs s' p = Some t" "mcore t' = mcore t" "p \<in> X"
  shows "mq_frame X s (s'\<lparr>tcbs := (tcbs s')(p \<mapsto> t')\<rparr>)"
  using assms unfolding mq_frame_def by auto (metis option.simps(9))

lemma mq_frame_trans: "mq_frame X s s1 \<Longrightarrow> mq_frame Y s1 s2 \<Longrightarrow> mq_frame (X \<union> Y) s s2"
  by (auto simp: mq_frame_def)

lemma mq_frame_tcb:
  assumes "mq_frame X s s'" "tcb_at p s = Some t"
  shows "\<exists>t'. tcb_at p s' = Some t' \<and> mcore t' = mcore t"
proof -
  have "p \<noteq> NULL" "map_option mcore (tcbs s' p) = Some (mcore t)"
    using assms by (auto simp: mq_frame_def tcb_at_def split: if_splits)
  then show ?thesis
    by (auto simp: tcb_at_def)
qed

lemma mq_frame_state:
  assumes "mq_frame X s s'"
  shows "s' = s\<lparr>tcbs := tcbs s'\<rparr>"
proof -
  have "s'\<lparr>tcbs := (\<lambda>_. None)\<rparr> = s\<lparr>tcbs := (\<lambda>_. None)\<rparr>"
    using assms by (simp add: mq_frame_def)
  from arg_cong[OF this, of "tcbs_update (\<lambda>_. tcbs s')"] show ?thesis
    by simp
qed

lemma tcb_at_upd_simp: "tcb_at q (s\<lparr>tcbs := m\<rparr>) = (if q = NULL then None else m q)"
  by (simp add: tcb_at_def)

lemma message_append_rep:
  assumes "mq_rep s q xs" "tcb_at p s = Some t" "p \<notin> set xs"
  shows "\<exists>q' s'. message_append p q s = Some (q', s') \<and> mq_rep s' q' (xs @ [p]) \<and> mq_frame (insert p (set xs)) s s'"
proof (cases xs rule: rev_cases)
  case Nil
  then have "head q = NULL" "tail q = NULL"
    using assms(1) by (auto simp: mq_rep_def)
  moreover have p: "p \<noteq> NULL" "tcbs s p = Some t"
    using tcb_at_SomeD[OF assms(2)] by auto
  ultimately show ?thesis
    using assms(2) Nil
    by (auto simp: message_append_def tcb_upd_def tcb_at_upd_simp mq_rep_def mq_frame_upd fun_upd_upd
        intro!: dll_append_empty)
next
  case (snoc ys x)
  have dll: "dll (mnext s) (mprev s) q (ys @ [x])"
    using assms(1) by (simp add: mq_rep_def snoc)
  have q: "head q \<noteq> NULL" "tail q = x"
    using dll_empty_iff[OF dll] dll_tail[OF dll] by auto
  obtain tx where x: "tcb_at x s = Some tx" "x \<noteq> NULL" "tcbs s x = Some tx" "x \<noteq> p"
    using assms(1,3) by (auto simp: mq_rep_def snoc dest: tcb_at_SomeD)
  have p: "p \<noteq> NULL" "tcbs s p = Some t"
    using tcb_at_SomeD[OF assms(2)] by auto
  let ?s = "s\<lparr>tcbs := (tcbs s)(x \<mapsto> tx\<lparr>mesg_q_next := p\<rparr>, p \<mapsto> t\<lparr>mesg_q_prev := x, mesg_q_next := NULL\<rparr>)\<rparr>"
  have run: "message_append p q s = Some (\<lparr>head = head q, tail = p\<rparr>, ?s)"
    using q x p by (simp add: message_append_def tcb_upd_def tcb_at_upd_simp)
  have "dll (mnext ?s) (mprev ?s) \<lparr>head = head q, tail = p\<rparr> (ys @ [x, p])"
    using dll_snoc[OF dll _ p(1)] assms(3) snoc x p
    by (subst dll_cong[where nx = "(mnext s)(x := p, p := NULL)" and pv = "(mprev s)(p := x)"]) (auto simp: link_def)
  then have "mq_rep ?s \<lparr>head = head q, tail = p\<rparr> (xs @ [p])"
    using assms(1) p(1) by (auto simp: mq_rep_def snoc tcb_at_def)
  moreover have "mq_frame (insert p (set xs)) s ?s"
    using x p snoc by (auto simp: mq_frame_def)
  ultimately show ?thesis
    using run by blast
qed


lemma message_dequeue_rep:
  assumes "mq_rep s q xs" "p \<in> set xs"
  shows "\<exists>q' s'. message_dequeue p q s = Some (q', s') \<and> mq_rep s' q' (remove1 p xs) \<and> mq_frame (set xs - {p}) s s'"
proof -
  obtain as bs where xs: "xs = as @ p # bs"
    using assms(2) by (meson split_list)
  have dll: "dll (mnext s) (mprev s) q (as @ p # bs)"
    using assms(1) by (simp add: mq_rep_def xs)
  note L = dll_split_links[OF dll]
  have d: "distinct (as @ p # bs)" and nn: "\<And>x. x \<in> set xs \<Longrightarrow> x \<noteq> NULL"
    using dll_distinct[OF dll] dll_not_NULL[OF dll] xs by auto
  obtain t where t: "tcb_at p s = Some t" "tcbs s p = Some t" "p \<noteq> NULL"
    using assms by (auto simp: mq_rep_def dest: tcb_at_SomeD)
  have lk: "mprev s p = mesg_q_prev t" "mnext s p = mesg_q_next t"
    using link_tcb[OF t(1)] by auto
  define a b where ab: "a = mesg_q_prev t" "b = mesg_q_next t"
  have in_xs: "a \<noteq> NULL \<Longrightarrow> a \<in> set as" "b \<noteq> NULL \<Longrightarrow> b \<in> set bs"
    using L(1,2) unfolding lk ab by (auto split: if_splits)
  have "\<exists>tx. tcbs s x = Some tx" if "x \<in> set xs" for x
    using assms(1) that tcb_at_SomeD[of x s] by (auto simp: mq_rep_def)
  then have ta: "a \<noteq> NULL \<Longrightarrow> \<exists>ta. tcbs s a = Some ta" "b \<noteq> NULL \<Longrightarrow> \<exists>tb. tcbs s b = Some tb"
    using in_xs by (auto simp: xs)
  have ne: "a \<noteq> p" "b \<noteq> p" "a \<noteq> NULL \<Longrightarrow> b \<noteq> NULL \<Longrightarrow> a \<noteq> b"
    using in_xs d t(3) by auto
  define m1 where "m1 = (if a \<noteq> NULL then (tcbs s)(a \<mapsto> (the (tcbs s a))\<lparr>mesg_q_next := b\<rparr>) else tcbs s)"
  define m2 where "m2 = (if b \<noteq> NULL then m1(b \<mapsto> (the (m1 b))\<lparr>mesg_q_prev := a\<rparr>) else m1)"
  have run: "message_dequeue p q s = Some (unlink_queue (mnext s) (mprev s) p q, s\<lparr>tcbs := m2\<rparr>)"
    using t ta ne unfolding m1_def m2_def message_dequeue_def unlink_queue_def lk ab[symmetric]
    by (auto simp: tcb_upd_def tcb_at_upd_simp tcb_at_def ab[symmetric])
  have "link mesg_q_next m2 = unlink_next (mnext s) (mprev s) p" "link mesg_q_prev m2 = unlink_prev (mnext s) (mprev s) p"
    using ta ne unfolding m1_def m2_def unlink_next_def unlink_prev_def lk ab[symmetric]
    by (auto simp: fun_eq_iff link_def)
  then have "mq_rep (s\<lparr>tcbs := m2\<rparr>) (unlink_queue (mnext s) (mprev s) p q) (remove1 p xs)"
    using dll_remove1[of "mnext s" "mprev s" q xs p] assms set_remove1_subset[of p xs] ta
    unfolding mq_rep_def m2_def m1_def by (auto simp: tcb_at_def split: if_splits)
  moreover have "mq_frame (set xs - {p}) s (s\<lparr>tcbs := m2\<rparr>)"
    using ta ne in_xs unfolding m1_def m2_def mq_frame_def by (auto simp: xs)
  ultimately show ?thesis
    using run by blast
qed

lemma mq_rep_frame:
  assumes "mq_frame X s s'" "mq_rep s q xs" "X \<inter> set xs = {}"
  shows "mq_rep s' q xs"
proof -
  have *: "tcbs s' p = tcbs s p" if "p \<in> set xs" for p
    using assms that by (auto simp: mq_frame_def)
  then have "mnext s' p = mnext s p \<and> mprev s' p = mprev s p" if "p \<in> set xs" for p
    using that by (simp add: link_def)
  then have "dll (mnext s') (mprev s') q xs"
    using assms(2) dll_cong[of xs "mnext s'" "mnext s" "mprev s'" "mprev s" q] by (simp add: mq_rep_def)
  moreover have "tcb_at p s' = tcb_at p s" if "p \<in> set xs" for p
    using * that by (simp add: tcb_at_def)
  ultimately show ?thesis
    using assms(2) by (simp add: mq_rep_def)
qed

interpretation mq: fifo "\<lambda>(q, s) xs. mq_rep s q xs" "\<lambda>p (q, s). tcb_at p s \<noteq> None"
  "\<lambda>p (q, s). message_append p q s" "\<lambda>p (q, s). message_dequeue p q s"
proof (unfold_locales, goal_cases)
  case (1 s xs p)
  then obtain t where "mq_rep (snd s) (fst s) xs" "p \<notin> set xs" "tcb_at p (snd s) = Some t"
    by (cases s) auto
  from message_append_rep[OF this(1,3,2)] show ?case
    by (cases s) auto
next
  case (2 s xs p)
  then have "mq_rep (snd s) (fst s) xs" "p \<in> set xs"
    by (simp_all add: case_prod_beta)
  from message_dequeue_rep[OF this] show ?case
    by (cases s) auto
next
  case (3 s xs p s' q)
  then obtain t where A: "mq_rep (snd s) (fst s) xs" "p \<in> set xs" "message_dequeue p (fst s) (snd s) = Some s'"
    "tcb_at q (snd s) = Some t"
    by (cases s) auto
  then have "mq_frame (set xs - {p}) (snd s) (snd s')"
    using message_dequeue_rep[OF A(1,2)] by auto
  from mq_frame_tcb[OF this A(4)] show ?case
    by (cases s') auto
next
  case (4 s xs)
  then show ?case
    by (cases s) (auto simp: mq_rep_def dll_distinct)
qed


section \<open>The scheduler queues are not affected\<close>

lemma mcore_qview:
  assumes "mcore t' = mcore t"
  shows "qview t' = qview t"
proof -
  have "qview (mcore u) = qview u" for u
    by (simp add: mcore_def)
  then show ?thesis
    using assms by metis
qed

lemma mq_frame_view:
  assumes "mq_frame X s s'"
  shows "same_view s s'"
proof -
  have "map_option qview (tcbs s' p) = map_option qview (tcbs s p)" for p
  proof -
    have "map_option mcore (tcbs s' p) = map_option mcore (tcbs s p)"
      using assms by (simp add: mq_frame_def)
    then show ?thesis
      by (cases "tcbs s' p"; cases "tcbs s p") (auto dest: mcore_qview)
  qed
  note view = this
  note st = mq_frame_state[OF assms]
  show ?thesis
    using view arg_cong[OF st, of ready_queues] arg_cong[OF st, of ready_queues_l1_bitmap] arg_cong[OF st, of ready_queues_l2_bitmap]
      arg_cong[OF st, of release_queue] arg_cong[OF st, of scheds] by (simp add: same_view_def)
qed

lemma mq_frame_heaps:
  assumes "mq_frame X s s'"
  shows "messages s' = messages s" "notifations s' = notifations s" "current_thread s' = current_thread s"
  using arg_cong[OF mq_frame_state[OF assms], of messages] arg_cong[OF mq_frame_state[OF assms], of notifations]
    arg_cong[OF mq_frame_state[OF assms], of current_thread] by simp_all

lemma message_move_back:
  assumes "mq_rep s q xs" "p \<in> set xs"
  shows "\<exists>q1 s1 q' s'. message_dequeue p q s = Some (q1, s1) \<and> message_append p q1 s1 = Some (q', s')
    \<and> mq_rep s' q' (remove1 p xs @ [p]) \<and> mq_frame (set xs) s s'"
proof -
  obtain q1 s1 where d: "message_dequeue p q s = Some (q1, s1)" "mq_rep s1 q1 (remove1 p xs)" "mq_frame (set xs - {p}) s s1"
    using message_dequeue_rep[OF assms] by blast
  obtain t where "tcb_at p s = Some t"
    using assms by (auto simp: mq_rep_def)
  then obtain t1 where t1: "tcb_at p s1 = Some t1"
    using mq_frame_tcb[OF d(3)] by blast
  have "distinct xs"
    using assms(1) dll_distinct unfolding mq_rep_def by blast
  then have "p \<notin> set (remove1 p xs)"
    by simp
  then obtain q' s' where a: "message_append p q1 s1 = Some (q', s')" "mq_rep s' q' (remove1 p xs @ [p])"
    "mq_frame (insert p (set (remove1 p xs))) s1 s'"
    using message_append_rep[OF d(2) t1] by blast
  have "(set xs - {p}) \<union> insert p (set (remove1 p xs)) = set xs"
    using assms set_remove1_subset[of p xs] by auto
  then have "mq_frame (set xs) s s'"
    using mq_frame_trans[OF d(3) a(3)] by simp
  then show ?thesis
    using d(1) a(1,2) by blast
qed

section \<open>Properties\<close>

text \<open>
  C23: after a priority change, \<^verbatim>\<open>reorder_message_node\<close> takes a waiting thread out of the queue of its message
  node and puts it back last; the order of the other waiting threads, the ready queues and the release queue are kept.
\<close>

theorem reorder_message_node_moves:
  assumes "sched_inv s Q R" "tcb_at p s = Some t" "message_at (obj_ptr t) s = Some m" "mq_rep s (msg_queue m) xs" "p \<in> set xs"
  shows "\<exists>s' m'. reorder_message_node p s = Some s' \<and> message_at (obj_ptr t) s' = Some m' \<and> msg_state m' = msg_state m
    \<and> mq_rep s' (msg_queue m') (remove1 p xs @ [p]) \<and> sched_inv s' Q R"
proof -
  obtain q1 s1 q' s' where st: "message_dequeue p (msg_queue m) s = Some (q1, s1)" "message_append p q1 s1 = Some (q', s')"
    "mq_rep s' q' (remove1 p xs @ [p])" "mq_frame (set xs) s s'"
    using message_move_back[OF assms(4,5)] by blast
  have nn: "p \<noteq> NULL" "obj_ptr t \<noteq> NULL"
    using assms(2,3) by (auto simp: message_at_def dest: tcb_at_SomeD split: if_splits)
  have m: "message_at (obj_ptr t) s' = Some m"
    using assms(3) nn mq_frame_heaps(1)[OF st(4)] by (simp add: message_at_def)
  let ?s = "s'\<lparr>messages := (messages s')(obj_ptr t \<mapsto> m\<lparr>msg_queue := q'\<rparr>)\<rparr>"
  have "reorder_message_node p s = Some ?s"
    using nn assms(2,3) st(1,2) m by (simp add: reorder_message_node_def get_thread_state_object_def message_put_def)
  moreover have "message_at (obj_ptr t) ?s = Some (m\<lparr>msg_queue := q'\<rparr>)"
    using nn by (simp add: message_at_def)
  moreover have "mq_rep ?s q' (remove1 p xs @ [p])"
    using st(3) by (simp add: mq_rep_def)
  moreover have "sched_inv ?s Q R"
    by (rule sched_inv_view[OF sched_inv_view[OF assms(1) mq_frame_view[OF st(4)]]]) (simp add: same_view_def)
  ultimately show ?thesis
    by (intro exI[of _ ?s] exI[of _ "m\<lparr>msg_queue := q'\<rparr>"]) simp
qed

definition mq_ex_tcbs :: "ptr \<Rightarrow> ktcb option" where
  "mq_ex_tcbs = [16 \<mapsto> blank_tcb\<lparr>obj_ptr := 64, mesg_q_next := 32\<rparr>, 32 \<mapsto> blank_tcb\<lparr>obj_ptr := 64, mesg_q_prev := 16\<rparr>]"

definition mq_ex :: kstate where
  "mq_ex = (state_ex mq_ex_tcbs)
     \<lparr>messages := [64 \<mapsto> \<lparr>msg_state = message_state_send, msg_queue = \<lparr>head = 16, tail = 32\<rparr>\<rparr>]\<rparr>"

theorem reorder_message_node_moves_witness:
  "\<exists>s' m'. reorder_message_node 16 mq_ex = Some s' \<and> message_at 64 s' = Some m' \<and> msg_state m' = message_state_send
    \<and> mq_rep s' (msg_queue m') [32, 16] \<and> sched_inv s' (\<lambda>_. []) []"
proof -
  have "sched_inv mq_ex (\<lambda>_. []) []"
    by (rule sched_inv_view[OF state_ex_inv[of mq_ex_tcbs]]) (simp add: mq_ex_def same_view_def)
  moreover have "mq_rep mq_ex \<lparr>head = 16, tail = 32\<rparr> [16, 32]"
    by (simp add: mq_rep_def mq_ex_def mq_ex_tcbs_def dll_def link_def tcb_at_def blank_tcb_def)
  ultimately show ?thesis
    using reorder_message_node_moves[of mq_ex "\<lambda>_. []" "[]" 16 "blank_tcb\<lparr>obj_ptr := 64, mesg_q_next := 32\<rparr>" _ "[16, 32]"]
    by (simp add: mq_ex_def mq_ex_tcbs_def tcb_at_def message_at_def)
qed

end
