(* ===== verification/Objects.thy ===== *)
theory Objects
  imports Message_Queues
begin

text \<open>
  Dynamically allocated kernel objects: \<^verbatim>\<open>d_object_alloc\<close> and \<^verbatim>\<open>d_object_free\<close> of
  \<^verbatim>\<open>src/object/objecttype.c\<close> and the lookup and deletion of \<^verbatim>\<open>src/kernel/cspace.c\<close>.

  The memory pool is the list \<open>free_objects\<close> of the addresses it has left; NULL is returned when it is empty.
  The red black tree and the list of objects hold the same objects, so both are the list \<open>d_objects\<close> of
  addresses and types.  Freed objects leave the heap of their type, so that a later access is a fault.
\<close>

section \<open>Types of objects\<close>

definition obj_untyped_obj :: word_t where
  "obj_untyped_obj = 4"

definition obj_message_obj :: word_t where
  "obj_message_obj = 6"

definition obj_notification_obj :: word_t where
  "obj_notification_obj = 8"

definition obj_thread_obj :: word_t where
  "obj_thread_obj = 14"

definition obj_sched_context_obj :: word_t where
  "obj_sched_context_obj = 16"

definition obj_irq_control_obj :: word_t where
  "obj_irq_control_obj = 18"

definition obj_irq_handler_obj :: word_t where
  "obj_irq_handler_obj = 20"

definition obj_domain_obj :: word_t where
  "obj_domain_obj = 22"

definition obj_time_obj :: word_t where
  "obj_time_obj = 24"

definition obj_pager_obj :: word_t where
  "obj_pager_obj = 28"

lemmas obj_defs = obj_null_obj_def obj_untyped_obj_def obj_message_obj_def obj_notification_obj_def obj_thread_obj_def
  obj_sched_context_obj_def obj_irq_control_obj_def obj_irq_handler_obj_def obj_domain_obj_def obj_time_obj_def
  obj_pager_obj_def

section \<open>Comparing objects\<close>

text \<open>The second object is \<open>None\<close> where its address is computed from a NULL list node: reading it is a fault.\<close>

definition is_same_objecttype :: "ptr \<times> word_t \<Rightarrow> (ptr \<times> word_t) option \<Rightarrow> bool option" where
  "is_same_objecttype k1 k2 =
     (if snd k1 \<in> {obj_message_obj, obj_notification_obj, obj_thread_obj, obj_pager_obj, obj_irq_handler_obj,
                    obj_sched_context_obj} then do {
        (n2, t2) \<leftarrow> k2;
        Some (t2 = snd k1 \<and> fst k1 = n2) }
      else if snd k1 = obj_irq_control_obj then do {
        (n2, t2) \<leftarrow> k2;
        Some (t2 = obj_irq_control_obj \<or> t2 = obj_irq_handler_obj) }
      else if snd k1 = obj_domain_obj then do {
        (n2, t2) \<leftarrow> k2;
        Some (t2 = obj_domain_obj) }
      else Some False)"

definition is_same_object :: "ptr \<times> word_t \<Rightarrow> (ptr \<times> word_t) option \<Rightarrow> bool option" where
  "is_same_object k1 k2 =
     (if snd k1 = obj_untyped_obj then Some False
      else do {
        ctl \<leftarrow> (if snd k1 = obj_irq_control_obj then do {
                  (n2, t2) \<leftarrow> k2;
                  Some (t2 = obj_irq_handler_obj) }
                else Some False);
        if ctl then Some False else is_same_objecttype k1 k2 })"

fun next_object :: "ptr \<Rightarrow> (ptr \<times> word_t) list \<Rightarrow> (ptr \<times> word_t) option" where
  "next_object p (x # y # zs) = (if fst x = p then Some y else next_object p (y # zs))"
| "next_object p _ = None"

text \<open>\<^verbatim>\<open>sys_dnode_is_llinked\<close> compares the successor with the tail of the list.\<close>

definition is_final_d_object :: "ptr \<times> word_t \<Rightarrow> (ptr \<times> word_t) list \<Rightarrow> bool option" where
  "is_final_d_object d ds =
     (case next_object (fst d) ds of
        Some nxt \<Rightarrow>
          if fst nxt = fst (last ds) then Some True
          else do { same \<leftarrow> is_same_object d (Some nxt); Some (\<not> same) }
      | None \<Rightarrow> do { same \<leftarrow> is_same_object d None; Some (\<not> same) })"

section \<open>Allocation\<close>

definition zero_sched :: thread_sched where
  "zero_sched = \<lparr>period = 0, consumed = 0, refill_max = 0, refill_head = 0, refill_tail = 0,
     refill_buffer = replicate NUM_SCHED_REFILLS \<lparr>refill_time = 0, refill_amount = 0\<rparr>\<rparr>"

definition zero_object :: "word_t \<Rightarrow> ptr \<Rightarrow> kstate \<Rightarrow> kstate" where
  "zero_object type p s =
     (if type = obj_message_obj then s\<lparr>messages := (messages s)(p \<mapsto>
        \<lparr>msg_state = message_state_idle, msg_queue = \<lparr>head = 0, tail = 0\<rparr>\<rparr>)\<rparr>
      else if type = obj_notification_obj then s\<lparr>notifations := (notifations s)(p \<mapsto>
        \<lparr>ntf_state = notifation_state_idle, ntf_queue = \<lparr>head = 0, tail = 0\<rparr>, bindedtcb = 0\<rparr>)\<rparr>
      else if type = obj_thread_obj then s\<lparr>tcbs := (tcbs s)(p \<mapsto> blank_tcb)\<rparr>
      else if type = obj_sched_context_obj then s\<lparr>scheds := (scheds s)(p \<mapsto> zero_sched)\<rparr>
      else if type = obj_time_obj then s\<lparr>timers := (timers s)\<lparr>
        tl_heap := (tl_heap (timers s))(p \<mapsto> \<lparr>dn_next = 0, dn_prev = 0\<rparr>),
        tl_events := (tl_events (timers s))(p \<mapsto> \<lparr>dvalue = 0, te_data = 0, te_handler = 0\<rparr>)\<rparr>\<rparr>
      else s)"

definition drop_object :: "ptr \<Rightarrow> kstate \<Rightarrow> kstate" where
  "drop_object p s = s\<lparr>messages := (messages s)(p := None), notifations := (notifations s)(p := None),
     tcbs := (tcbs s)(p := None), scheds := (scheds s)(p := None),
     timers := (timers s)\<lparr>tl_heap := (tl_heap (timers s))(p := None),
       tl_events := (tl_events (timers s))(p := None)\<rparr>\<rparr>"

definition d_object_alloc :: "word_t \<Rightarrow> kstate \<Rightarrow> ptr \<times> kstate" where
  "d_object_alloc type s =
     (case free_objects s of
        [] \<Rightarrow> (NULL, s)
      | p # ps \<Rightarrow>
          let s = zero_object type p (s\<lparr>free_objects := ps\<rparr>);
              s = (if d_obj_type s \<noteq> type then s\<lparr>d_objects := d_objects s @ [(p, type)]\<rparr> else s)
          in (p, s\<lparr>d_obj_type := type\<rparr>))"

definition d_object_find :: "ptr \<Rightarrow> kstate \<Rightarrow> (ptr \<times> word_t) option" where
  "d_object_find obj s = find (\<lambda>d. fst d = obj) (d_objects s)"

text \<open>
  The object \<^verbatim>\<open>prepare_k_object_delete\<close> returns is always removable, so the loop of
  \<^verbatim>\<open>prepare_d_object_delete\<close> ends in its first round, without a preemption point.
\<close>

definition d_object_delete :: "ptr \<times> word_t \<Rightarrow> kstate \<Rightarrow> kstate option" where
  "d_object_delete d s = do {
     (if snd d \<noteq> obj_null_obj then do { _ \<leftarrow> is_final_d_object d (d_objects s); Some () } else Some ());
     Some (s\<lparr>d_objects := filter (\<lambda>e. fst e \<noteq> fst d) (d_objects s)\<rparr>) }"

definition d_object_free :: "ptr \<Rightarrow> kstate \<Rightarrow> kstate option" where
  "d_object_free obj s =
     (case d_object_find obj s of
        None \<Rightarrow> Some s
      | Some d \<Rightarrow> do {
          s \<leftarrow> d_object_delete d s;
          let s = drop_object obj s;
          Some (s\<lparr>free_objects := obj # free_objects s\<rparr>) })"

section \<open>Facts\<close>

definition pool_ok :: "kstate \<Rightarrow> bool" where
  "pool_ok s \<longleftrightarrow> NULL \<notin> set (free_objects s) \<and> distinct (free_objects s) \<and> distinct (map fst (d_objects s))
     \<and> (\<forall>p\<in>set (free_objects s). p \<notin> fst ` set (d_objects s))"

lemma zero_object_pool [simp]:
  "free_objects (zero_object t p s) = free_objects s" "d_objects (zero_object t p s) = d_objects s"
  "d_obj_type (zero_object t p s) = d_obj_type s"
  by (simp_all add: zero_object_def)

lemma drop_object_pool [simp]:
  "free_objects (drop_object p s) = free_objects s" "d_objects (drop_object p s) = d_objects s"
  "d_obj_type (drop_object p s) = d_obj_type s"
  by (simp_all add: drop_object_def)

lemma find_fst_None: "p \<notin> fst ` set ds \<Longrightarrow> find (\<lambda>d. fst d = p) ds = None"
  by (force simp: find_None_iff)

lemma find_fst_last: "p \<notin> fst ` set ds \<Longrightarrow> find (\<lambda>d. fst d = p) (ds @ [(p, t)]) = Some (p, t)"
  by (induction ds) auto

lemma find_fst_SomeD: "find (\<lambda>d. fst d = p) ds = Some d \<Longrightarrow> d \<in> set ds \<and> fst d = p"
  by (auto simp: find_Some_iff)

lemma next_object_last: "p \<notin> fst ` set ds \<Longrightarrow> next_object p (ds @ [(p, t)]) = None"
proof (induction ds)
  case (Cons a ds)
  then show ?case by (cases ds) auto
qed simp

lemma pool_ok_alloc:
  assumes "pool_ok s" "d_object_alloc t s = (p, s')"
  shows "pool_ok s'"
  using assms by (auto simp: d_object_alloc_def pool_ok_def Let_def split: list.splits if_splits) force+

lemma d_object_free_pool:
  assumes "d_object_free p s = Some s'"
  shows "if p \<in> fst ` set (d_objects s)
     then free_objects s' = p # free_objects s \<and> d_objects s' = filter (\<lambda>e. fst e \<noteq> p) (d_objects s)
     else s' = s"
proof (cases "d_object_find p s")
  case None
  then have "p \<notin> fst ` set (d_objects s)" by (auto simp: d_object_find_def find_None_iff)
  then show ?thesis using assms None by (simp add: d_object_free_def)
next
  case (Some d)
  then have d: "d \<in> set (d_objects s)" "fst d = p" by (auto simp: d_object_find_def dest: find_fst_SomeD)
  moreover have "free_objects s' = p # free_objects s" "d_objects s' = filter (\<lambda>e. fst e \<noteq> p) (d_objects s)"
    using assms Some d(2) by (auto simp: d_object_free_def d_object_delete_def bind_eq_Some_conv split: if_splits)
  ultimately show ?thesis by force
qed

lemma pool_ok_free:
  assumes "pool_ok s" "d_object_free p s = Some s'" "p \<noteq> NULL"
  shows "pool_ok s'"
proof (cases "p \<in> fst ` set (d_objects s)")
  case True
  then have "p \<notin> set (free_objects s)" using assms(1) by (auto simp: pool_ok_def)
  moreover have "distinct (map fst (filter (\<lambda>e. fst e \<noteq> p) (d_objects s)))"
    using assms(1) by (simp add: pool_ok_def distinct_map_filter)
  ultimately show ?thesis
    using d_object_free_pool[OF assms(2)] True assms(1,3) by (auto simp: pool_ok_def)
next
  case False
  then show ?thesis using d_object_free_pool[OF assms(2)] assms(1) by simp
qed

lemma d_object_free_unknown: "p \<notin> fst ` set (d_objects s) \<Longrightarrow> d_object_free p s = Some s"
  by (simp add: d_object_free_def d_object_find_def find_fst_None)

text \<open>The objects a script of allocations and frees works on.\<close>

datatype obj_op = Alloc word_t | Free ptr

fun obj_run :: "obj_op list \<Rightarrow> kstate \<Rightarrow> kstate option" where
  "obj_run [] s = Some s"
| "obj_run (Alloc t # ops) s = obj_run ops (snd (d_object_alloc t s))"
| "obj_run (Free p # ops) s = do { s \<leftarrow> d_object_free p s; obj_run ops s }"

definition pool_ex :: "ptr list \<Rightarrow> kstate" where
  "pool_ex ps = (state_ex (\<lambda>_. None))\<lparr>free_objects := ps\<rparr>"

lemma pool_ex_simps [simp]:
  "free_objects (pool_ex ps) = ps" "d_objects (pool_ex ps) = []" "d_obj_type (pool_ex ps) = 2"
  by (simp_all add: pool_ex_def state_ex_def zero_kstate_def obj_null_obj_def)

section \<open>Properties\<close>



text \<open>
  Allocating a timer event whose type differs from the last allocated type and freeing it again returns, and
  gives the memory pool and the registered objects back as they were.
\<close>
theorem timer_alloc_free_roundtrip:
  assumes "pool_ok s" "free_objects s = p # ps" "d_obj_type s \<noteq> obj_time_obj"
  shows "\<exists>s1 s2. d_object_alloc obj_time_obj s = (p, s1) \<and> d_object_free p s1 = Some s2
     \<and> free_objects s2 = free_objects s \<and> d_objects s2 = d_objects s"
proof -
  have p: "p \<notin> fst ` set (d_objects s)" using assms(1,2) by (simp add: pool_ok_def)
  then have "filter (\<lambda>e. fst e \<noteq> p) (d_objects s) = d_objects s" by (intro filter_True) force
  then show ?thesis
    using assms p by (simp add: d_object_alloc_def Let_def d_object_free_def d_object_find_def find_fst_last
        d_object_delete_def is_final_d_object_def next_object_last is_same_object_def is_same_objecttype_def obj_defs)
qed

theorem timer_alloc_free_roundtrip_witness:
  "\<exists>s1 s2. d_object_alloc obj_time_obj (pool_ex [64]) = (64, s1) \<and> d_object_free 64 s1 = Some s2
     \<and> free_objects s2 = free_objects (pool_ex [64]) \<and> d_objects s2 = d_objects (pool_ex [64])"
  by (rule timer_alloc_free_roundtrip) (simp_all add: pool_ok_def obj_defs)

text \<open>
  An object allocated right after another one of its type is not registered, so freeing it does
  nothing: its memory never returns to the pool.
\<close>
theorem second_object_leaks:
  assumes "pool_ok s" "free_objects s = p # ps" "d_obj_type s = type" "d_object_alloc type s = (q, s1)"
  shows "q = p \<and> d_object_free p s1 = Some s1 \<and> free_objects s1 = ps"
proof -
  have "p \<notin> fst ` set (d_objects s)" using assms(1,2) by (simp add: pool_ok_def)
  then show ?thesis using assms by (auto simp: d_object_alloc_def Let_def intro!: d_object_free_unknown)
qed

theorem second_object_leaks_witness:
  "\<exists>s1. d_object_alloc 2 (pool_ex [64]) = (64, s1) \<and> d_object_free 64 s1 = Some s1 \<and> free_objects s1 = []"
  using second_object_leaks[of "pool_ex [64]" 64 "[]" 2] by (cases "d_object_alloc 2 (pool_ex [64])") (auto simp: pool_ok_def)

text \<open>
  Freeing the message node that was registered last is a fault: \<^verbatim>\<open>is_final_d_object\<close> takes the tail
  of the object list for an inner node and reads the type of its missing successor.
\<close>
theorem free_last_message_faults:
  assumes "pool_ok s" "free_objects s = p # ps" "d_obj_type s \<noteq> obj_message_obj"
    "d_object_alloc obj_message_obj s = (q, s1)"
  shows "q = p \<and> d_object_free q s1 = None"
proof -
  have "p \<notin> fst ` set (d_objects s)" using assms(1,2) by (simp add: pool_ok_def)
  then show ?thesis
    using assms by (auto simp: d_object_alloc_def Let_def d_object_free_def d_object_find_def find_fst_last
        d_object_delete_def is_final_d_object_def next_object_last is_same_object_def is_same_objecttype_def obj_defs)
qed

theorem free_last_message_faults_witness:
  "\<exists>s1. d_object_alloc obj_message_obj (pool_ex [64]) = (64, s1) \<and> d_object_free 64 s1 = None"
  using free_last_message_faults[of "pool_ex [64]" 64 "[]"]
  by (cases "d_object_alloc obj_message_obj (pool_ex [64])") (auto simp: pool_ok_def obj_defs)

end
