(* ===== verification/Scheduler.thy ===== *)
theory Scheduler
  imports Objects
begin

text \<open>
  The scheduler \<^verbatim>\<open>src/kernel/thread.c\<close> with the functions of \<^verbatim>\<open>src/object/tcb.c\<close>,
  \<^verbatim>\<open>src/kernel/privilege.c\<close>, \<^verbatim>\<open>src/kernel/time.c\<close> and \<^verbatim>\<open>src/arch/arm/aarch32/swap.c\<close> it calls.

  The sections under \<^verbatim>\<open>LOCKED\<close> disable interrupts on the only CPU; they are modelled by their bodies.  The
  saved interrupt mask is not part of the model.  A context switch is requested by setting \<open>pendsv\<close>; the exception
  that performs it calls \<open>set_current_thread\<close> with the cached \<open>ready_thread\<close>.
\<close>

section \<open>Choosing a thread\<close>

definition US_IN_MS :: word_t where
  "US_IN_MS = 1000"

definition HARD_PRIOR_ACTION :: word_t where
  "HARD_PRIOR_ACTION = 0xFF"

definition priv_health_monitor_priv :: word_t where
  "priv_health_monitor_priv = 1"

definition priv_ready_priv :: word_t where
  "priv_ready_priv = 0"

definition smp_idle_thread_object :: "ptr \<Rightarrow> kstate \<Rightarrow> bool" where
  "smp_idle_thread_object thread s \<longleftrightarrow> thread = cpu_idle_thread s"

definition should_preempt :: "ptr \<Rightarrow> word_t \<Rightarrow> kstate \<Rightarrow> bool option" where
  "should_preempt thread preempt_ok s =
     (if preempt_ok \<noteq> 0 then Some True
      else do {
        c \<leftarrow> tcb_at (current_thread s) s;
        if is_thread_not_running c then Some True
        else do {
          t \<leftarrow> tcb_at thread s;
          Some (is_thread_not_running t) } })"

definition is_cur_domain_expired :: "kstate \<Rightarrow> bool" where
  "is_cur_domain_expired s \<longleftrightarrow> CONFIG_NUM_DOMAINS > 1 \<and> current_domain_time s < consume_time s + MIN_BUDGET"

definition next_domain :: "kstate \<Rightarrow> kstate option" where
  "next_domain s = do {
     let s = s\<lparr>current_domain_schedule_idx := current_domain_schedule_idx s + 1\<rparr>;
     let s = (if current_domain_schedule_idx s \<ge> word_of_nat (length (domain_schedule s))
              then s\<lparr>current_domain_schedule_idx := 0\<rparr> else s);
     let s = s\<lparr>work_units_completed := 0, reprogram := True\<rparr>;
     d \<leftarrow> arr_get (domain_schedule s) (current_domain_schedule_idx s);
     Some (s\<lparr>current_domain := ds_domain d,
             current_domain_time := ucast (k_us_to_ticks_ceil32 (ds_length d * US_IN_MS))\<rparr>) }"

text \<open>The part of \<open>next_thread\<close> that compares the first thread of the highest queue with the current one.\<close>

definition pick_thread :: "ptr \<Rightarrow> kstate \<Rightarrow> (ptr \<times> kstate) option" where
  "pick_thread thread s = do {
     let cur = current_thread s;
     assertK (thread \<noteq> NULL);
     assert_budget thread s;
     c \<leftarrow> tcb_at cur s;
     let queued = is_thread_queued c;
     let active = (\<not> is_thread_not_running c);
     thread \<leftarrow>
       (if active then do {
          t \<leftarrow> tcb_at thread s;
          let thread = (if \<not> queued \<and> \<not> is_t1_higher_prio_than_t2 t c then cur else thread);
          pre \<leftarrow> should_preempt thread (ucast (swap_ok s)) s;
          Some (if \<not> pre then cur else thread) }
        else Some thread);
     s \<leftarrow>
       (if active \<and> \<not> queued \<and> \<not> smp_idle_thread_object cur s then do {
          s \<leftarrow> tcb_upd cur marktcb_as_queued s;
          sched_enqueue cur s }
        else Some s);
     t \<leftarrow> tcb_at thread s;
     s \<leftarrow>
       (if is_thread_queued t then do {
          s \<leftarrow> sched_dequeue thread s;
          tcb_upd thread marktcb_as_not_queued s }
        else Some s);
     Some (thread, s) }"

definition next_thread :: "kstate \<Rightarrow> (ptr \<times> kstate) option" where
  "next_thread s = do {
     let dm = (if CONFIG_NUM_DOMAINS > 1 then current_domain s else 0);
     l1 \<leftarrow> arr_get (ready_queues_l1_bitmap s) dm;
     if l1 \<noteq> 0 then do {
       prio \<leftarrow> get_highest_prio dm s;
       idx \<leftarrow> ready_queues_index dm prio;
       q \<leftarrow> arr_get (ready_queues s) idx;
       if head q \<noteq> current_thread s then pick_thread (head q) s
       else Some (current_thread s, s) }
     else Some (idle_thread s, s) }"

definition get_thread_state :: "ptr \<Rightarrow> word_t \<Rightarrow> kstate \<Rightarrow> word_t option" where
  "get_thread_state thread ts s = do {
     assertK (thread \<noteq> NULL);
     t \<leftarrow> tcb_at thread s;
     Some (obj_state t AND ts) }"

definition get_thread_object_state :: "ptr \<Rightarrow> kstate \<Rightarrow> word_t option" where
  "get_thread_object_state thread s = do {
     assertK (thread \<noteq> NULL);
     t \<leftarrow> tcb_at thread s;
     Some (obj_state t) }"

definition set_thread_action :: "ptr \<Rightarrow> word_t \<Rightarrow> kstate \<Rightarrow> kstate option" where
  "set_thread_action thread action s = do {
     assertK (thread \<noteq> NULL);
     tcb_upd thread (\<lambda>t. t\<lparr>level := action\<rparr>) s }"

definition get_thread_action :: "ptr \<Rightarrow> kstate \<Rightarrow> word_t option" where
  "get_thread_action thread s = do {
     assertK (thread \<noteq> NULL);
     t \<leftarrow> tcb_at thread s;
     Some (level t) }"

definition update_cache :: "ptr \<Rightarrow> word_t \<Rightarrow> kstate \<Rightarrow> kstate option" where
  "update_cache thread preempt_ok s = do {
     d \<leftarrow> get_thread_state thread state_dummy_state s;
     assertK (d = 0);
     ts \<leftarrow> is_time_sensitived thread s;
     (if ts then do {
        sc \<leftarrow> sched_of thread s;
        suf \<leftarrow> refill_sufficient sc 0;
        assertK suf;
        rdy \<leftarrow> refill_ready (current_time s) sc;
        assertK rdy }
      else Some ());
     pre \<leftarrow> should_preempt thread preempt_ok s;
     let s = s\<lparr>ready_thread := (if pre then thread else current_thread s)\<rparr>;
     Some (s\<lparr>swap_ok := ucast preempt_ok\<rparr>) }"

definition choose_new_thread :: "kstate \<Rightarrow> kstate option" where
  "choose_new_thread s = do {
     (new_thread, s) \<leftarrow> next_thread s;
     s \<leftarrow> (if current_domain_time s = 0 then next_domain s else Some s);
     update_cache new_thread 1 s }"

section \<open>Ready queue operations\<close>

definition reschedule_required :: "kstate \<Rightarrow> kstate option" where
  "reschedule_required s = do {
     let a = scheduler_action s;
     s \<leftarrow>
       (if a \<noteq> SCHEDULER_ACTION_RESUME_CURRENT_THREAD \<and> a \<noteq> SCHEDULER_ACTION_CHOOSE_NEW_THREAD then do {
          assert_budget a s;
          s \<leftarrow> tcb_upd a marktcb_as_queued s;
          sched_enqueue a s }
        else Some s);
     Some (s\<lparr>scheduler_action := SCHEDULER_ACTION_CHOOSE_NEW_THREAD\<rparr>) }"

definition schedule_tcb :: "ptr \<Rightarrow> kstate \<Rightarrow> kstate option" where
  "schedule_tcb thread s =
     (if thread = current_thread s \<and> scheduler_action s = SCHEDULER_ACTION_RESUME_CURRENT_THREAD then do {
        b \<leftarrow> is_schedulable thread s;
        if \<not> b then reschedule_required s else Some s }
      else Some s)"

definition set_thread_state :: "ptr \<Rightarrow> word_t \<Rightarrow> kstate \<Rightarrow> kstate option" where
  "set_thread_state thread ts s = do {
     assertK (thread \<noteq> NULL);
     s \<leftarrow> tcb_upd thread (\<lambda>t. t\<lparr>obj_state := ts\<rparr>) s;
     schedule_tcb thread s }"

definition add_to_ready_q :: "ptr \<Rightarrow> kstate \<Rightarrow> kstate option" where
  "add_to_ready_q thread s = do {
     s \<leftarrow> tcb_upd thread marktcb_as_queued s;
     sched_enqueue thread s }"

definition add_to_end_ready_q :: "ptr \<Rightarrow> kstate \<Rightarrow> kstate option" where
  "add_to_end_ready_q thread s = do {
     s \<leftarrow> tcb_upd thread marktcb_as_queued s;
     sched_append thread s }"

definition move_to_end_ready_q :: "ptr \<Rightarrow> kstate \<Rightarrow> kstate option" where
  "move_to_end_ready_q thread s = do {
     t \<leftarrow> tcb_at thread s;
     s \<leftarrow> (if is_thread_queued t then do {
             s \<leftarrow> sched_dequeue thread s;
             tcb_upd thread marktcb_as_queued s }
           else Some s);
     sched_append thread s }"

definition remove_from_ready_q :: "ptr \<Rightarrow> kstate \<Rightarrow> kstate option" where
  "remove_from_ready_q thread s = do {
     t \<leftarrow> tcb_at thread s;
     if is_thread_queued t then do {
       s \<leftarrow> sched_dequeue thread s;
       s \<leftarrow> tcb_upd thread marktcb_as_not_queued s;
       set_thread_state thread state_restart_state s }
     else Some s }"

definition postpone_from_ready_q :: "ptr \<Rightarrow> kstate \<Rightarrow> kstate option" where
  "postpone_from_ready_q thread s = do {
     t \<leftarrow> tcb_at thread s;
     s \<leftarrow> (if is_thread_queued t then do {
             s \<leftarrow> sched_dequeue thread s;
             tcb_upd thread marktcb_as_not_queued s }
           else Some s);
     s \<leftarrow> release_enqueue thread s;
     Some (s\<lparr>reprogram := True\<rparr>) }"

definition set_ready_thread :: "ptr \<Rightarrow> kstate \<Rightarrow> kstate option" where
  "set_ready_thread thread s = do {
     t \<leftarrow> tcb_at thread s;
     if is_thread_ready t then add_to_ready_q thread s else Some s }"

definition possible_switchto :: "ptr \<Rightarrow> kstate \<Rightarrow> kstate option" where
  "possible_switchto thread s =
     (if thread = NULL then Some s
      else do {
        t \<leftarrow> tcb_at thread s;
        if is_thread_ready t then
          if current_domain s \<noteq> domain t then move_to_end_ready_q thread s
          else if scheduler_action s \<noteq> SCHEDULER_ACTION_RESUME_CURRENT_THREAD then do {
            s \<leftarrow> move_to_end_ready_q thread s;
            reschedule_required s }
          else Some (s\<lparr>scheduler_action := thread\<rparr>)
        else Some s })"

partial_function (option) awaken :: "kstate \<Rightarrow> kstate option" where
  "awaken s =
     (if release_queue s = NULL then Some s
      else do {
        sc \<leftarrow> sched_of (release_queue s) s;
        rdy \<leftarrow> refill_ready (current_time s) sc;
        if rdy then do {
          (awakened, s) \<leftarrow> release_dequeue s;
          assertK (awakened \<noteq> current_thread s);
          sc \<leftarrow> sched_of awakened s;
          assertK (\<not> is_roundrobin sc);
          suf \<leftarrow> refill_sufficient sc 0;
          assertK suf;
          s \<leftarrow> possible_switchto awakened s;
          awaken (s\<lparr>reprogram := True\<rparr>) }
        else Some s })"

declare awaken.simps [code]

definition schedule :: "kstate \<Rightarrow> kstate option" where
  "schedule s = do {
     s \<leftarrow> awaken s;
     let candidate = scheduler_action s;
     s \<leftarrow>
       (if candidate \<noteq> SCHEDULER_ACTION_RESUME_CURRENT_THREAD then
          if candidate = SCHEDULER_ACTION_CHOOSE_NEW_THREAD then choose_new_thread s
          else if candidate = SCHEDULER_ACTION_CHOOSE_PRIV_THREAD then update_cache (privilege_thread s) 1 s
          else do {
            t \<leftarrow> tcb_at candidate s;
            assertK (is_thread_queued t);
            fastfail \<leftarrow>
              (if current_thread s = cpu_idle_thread s then Some True
               else do {
                 c \<leftarrow> tcb_at (current_thread s) s;
                 Some (sched_prior t < sched_prior c) });
            highest \<leftarrow> (if fastfail then is_highest_prio (current_domain s) (prio_of t) s else Some True);
            s \<leftarrow> tcb_upd candidate marktcb_as_queued s;
            s \<leftarrow> (if fastfail \<and> \<not> highest then sched_enqueue candidate s else sched_append candidate s);
            choose_new_thread (s\<lparr>scheduler_action := SCHEDULER_ACTION_CHOOSE_NEW_THREAD\<rparr>) }
        else Some s);
     Some (s\<lparr>scheduler_action := SCHEDULER_ACTION_RESUME_CURRENT_THREAD\<rparr>) }"


section \<open>Time and context switches\<close>

definition update_timestamp :: "bool \<Rightarrow> kstate \<Rightarrow> kstate option" where
  "update_timestamp is_reset s =
     (if is_reset then Some (s\<lparr>consume_time := 0\<rparr>)
      else do {
        let prev = current_time s;
        let (tick, tm) = get_current_tick (timers s);
        let s = s\<lparr>timers := tm, current_time := tick\<rparr>;
        ts \<leftarrow> is_time_sensitived (current_thread s) s;
        Some (if ts then s\<lparr>consume_time := consume_time s + (current_time s - prev)\<rparr> else s) })"

definition neg_eagain :: word_t where
  "neg_eagain = - 11"

definition arch_swap :: "kstate \<Rightarrow> kstate option" where
  "arch_swap s = do {
     s \<leftarrow> tcb_upd (current_thread s) (\<lambda>t. t\<lparr>swap_return_value := neg_eagain\<rparr>) s;
     Some (s\<lparr>pendsv := True\<rparr>) }"

definition swap_thread_irqlock :: "kstate \<Rightarrow> kstate option" where
  "swap_thread_irqlock s = do {
     s \<leftarrow> update_timestamp True s;
     arch_swap s }"

definition swap_thread :: "kstate \<Rightarrow> kstate option" where
  "swap_thread s = swap_thread_irqlock s"

definition swap_thread_unlocked :: "kstate \<Rightarrow> kstate option" where
  "swap_thread_unlocked s = swap_thread_irqlock s"

definition is_rescheduled :: "word_t \<Rightarrow> kstate \<Rightarrow> bool" where
  "is_rescheduled key s \<longleftrightarrow> key = 0 \<and> \<not> in_isr s"

definition reschedule :: "word_t \<Rightarrow> kstate \<Rightarrow> kstate option" where
  "reschedule key s = (if is_rescheduled key s then swap_thread s else Some s)"

definition reschedule_irqlock :: "word_t \<Rightarrow> kstate \<Rightarrow> kstate option" where
  "reschedule_irqlock key s = (if is_rescheduled key s then swap_thread_irqlock s else Some s)"

definition reschedule_unlocked :: "kstate \<Rightarrow> kstate option" where
  "reschedule_unlocked s = swap_thread_unlocked s"

definition sched_lock :: "kstate \<Rightarrow> kstate option" where
  "sched_lock s = do {
     assertK (\<not> in_isr s);
     c \<leftarrow> tcb_at (current_thread s) s;
     assertK (sched_locked c \<noteq> 1);
     tcb_upd (current_thread s) (\<lambda>t. t\<lparr>sched_locked := sched_locked t - 1\<rparr>) s }"

definition sched_unlock :: "kstate \<Rightarrow> kstate option" where
  "sched_unlock s = do {
     c \<leftarrow> tcb_at (current_thread s) s;
     assertK (sched_locked c \<noteq> 0);
     assertK (\<not> in_isr s);
     s \<leftarrow> tcb_upd (current_thread s) (\<lambda>t. t\<lparr>sched_locked := sched_locked t + 1\<rparr>) s;
     reschedule_unlocked s }"

definition sched_unlock_no_reschedule :: "kstate \<Rightarrow> kstate option" where
  "sched_unlock_no_reschedule s = do {
     assertK (\<not> in_isr s);
     c \<leftarrow> tcb_at (current_thread s) s;
     assertK (sched_locked c \<noteq> 0);
     tcb_upd (current_thread s) (\<lambda>t. t\<lparr>sched_locked := sched_locked t + 1\<rparr>) s }"

definition set_prior :: "ptr \<Rightarrow> word_t \<Rightarrow> word_t \<Rightarrow> kstate \<Rightarrow> kstate option" where
  "set_prior thread prio new_mcp s = do {
     assertK (thread \<noteq> NULL);
     assertK (\<not> in_isr s);
     t \<leftarrow> tcb_at thread s;
     let need_sched = is_thread_ready t;
     let assign = (\<lambda>s. do {
           s \<leftarrow> tcb_upd thread (\<lambda>t. t\<lparr>sched_prior := ucast prio, mcp := new_mcp\<rparr>) s;
           t \<leftarrow> tcb_at thread s;
           ok \<leftarrow> check_prio prio t;
           assertK ok;
           Some s });
     s \<leftarrow>
       (if need_sched then do {
          s \<leftarrow>
            (if is_thread_queued t then do {
               s \<leftarrow> sched_dequeue thread s;
               s \<leftarrow> assign s;
               sched_enqueue thread s }
             else assign s);
          s \<leftarrow> reschedule_required s;
          schedule s }
        else assign s);
     t \<leftarrow> tcb_at thread s;
     s \<leftarrow> (if is_thread_pending t then reorder_message_node thread s else Some s);
     if need_sched then do {
       c \<leftarrow> tcb_at (current_thread s) s;
       if sched_locked c = 0 then reschedule_unlocked s else Some s }
     else Some s }"

section \<open>Budgets\<close>

definition set_privilege_status :: "word_t \<Rightarrow> word_t \<Rightarrow> kstate \<Rightarrow> kstate option" where
  "set_privilege_status type status s = do {
     st \<leftarrow> arr_set (privilege_thread_status s) type status;
     Some (s\<lparr>privilege_thread_status := st\<rparr>) }"

definition get_privilege_status :: "word_t \<Rightarrow> kstate \<Rightarrow> word_t option" where
  "get_privilege_status type s = arr_get (privilege_thread_status s) type"

definition end_timeslice :: "bool \<Rightarrow> kstate \<Rightarrow> kstate option" where
  "end_timeslice can_timeout_fault s =
     (if can_timeout_fault then
        set_privilege_status priv_health_monitor_priv priv_ready_priv
          (s\<lparr>scheduler_action := SCHEDULER_ACTION_CHOOSE_PRIV_THREAD\<rparr>)
      else do {
        sc \<leftarrow> sched_of (current_thread s) s;
        rdy \<leftarrow> refill_ready (current_time s) sc;
        suf \<leftarrow> (if rdy then refill_sufficient sc 0 else Some False);
        if suf then add_to_end_ready_q (current_thread s) s
        else postpone_from_ready_q (current_thread s) s })"

text \<open>The part of \<open>charge_budget\<close> that bills the scheduling context.\<close>

definition charge_refills :: "ticks_t \<Rightarrow> ticks_t \<Rightarrow> kstate \<Rightarrow> kstate option" where
  "charge_refills capacity used s = do {
     c \<leftarrow> tcb_at (current_thread s) s;
     sc \<leftarrow> sched_at (sched c) s;
     s \<leftarrow>
       (if is_roundrobin sc then do {
          assertK (refill_size sc = MIN_REFILLS);
          tl \<leftarrow> REFILL_TAIL sc;
          sc \<leftarrow> set_head sc (\<lambda>r. r\<lparr>refill_amount := refill_amount r + refill_amount tl\<rparr>);
          sc \<leftarrow> set_tail sc (\<lambda>r. r\<lparr>refill_amount := 0\<rparr>);
          sched_put (sched c) sc s }
        else do {
          cs \<leftarrow> sched_at (current_sched s) s;
          cs \<leftarrow> refill_budget_check (current_time s) cs used capacity;
          sched_put (current_sched s) cs s });
     sc \<leftarrow> sched_at (sched c) s;
     hd \<leftarrow> REFILL_HEAD sc;
     assertK (refill_amount hd \<ge> MIN_BUDGET);
     sched_put (sched c) (sc\<lparr>consumed := consumed sc + used\<rparr>) s }"

definition charge_budget :: "ticks_t \<Rightarrow> ticks_t \<Rightarrow> bool \<Rightarrow> kstate \<Rightarrow> kstate option" where
  "charge_budget capacity used canTimeoutFault s = do {
     s \<leftarrow> charge_refills capacity used s;
     c \<leftarrow> tcb_at (current_thread s) s;
     if is_thread_running c then do {
       s \<leftarrow> end_timeslice canTimeoutFault s;
       s \<leftarrow> reschedule_required s;
       Some (s\<lparr>reprogram := True\<rparr>) }
     else Some s }"

definition check_budget :: "kstate \<Rightarrow> (bool \<times> kstate) option" where
  "check_budget s = do {
     ts \<leftarrow> is_time_sensitived (current_thread s) s;
     if ts then do {
       sc \<leftarrow> sched_of (current_thread s) s;
       rdy \<leftarrow> refill_ready (current_time s) sc;
       assertK rdy;
       capacity \<leftarrow> refill_capacity sc (consume_time s);
       if capacity \<ge> MIN_BUDGET \<and> (is_roundrobin sc \<or> \<not> refill_full sc) then
         if is_cur_domain_expired s then do {
           s \<leftarrow> reschedule_required (s\<lparr>reprogram := True\<rparr>);
           Some (False, s) }
         else Some (True, s)
       else do {
         action \<leftarrow> get_thread_action (current_thread s) s;
         s \<leftarrow> charge_budget capacity (consume_time s) (action = HARD_PRIOR_ACTION) s;
         Some (False, s\<lparr>consume_time := 0\<rparr>) } }
     else Some (True, s) }"

definition check_budget_restart :: "kstate \<Rightarrow> (bool \<times> kstate) option" where
  "check_budget_restart s = do {
     (result, s) \<leftarrow> check_budget s;
     c \<leftarrow> tcb_at (current_thread s) s;
     if \<not> result \<and> is_runnable c then do {
       s \<leftarrow> set_thread_state (current_thread s) state_restart_state s;
       Some (result, s) }
     else Some (result, s) }"

definition commit_time :: "kstate \<Rightarrow> kstate option" where
  "commit_time s = do {
     c \<leftarrow> tcb_at (current_thread s) s;
     s \<leftarrow>
       (if consume_time s > 0 then do {
          sc \<leftarrow> sched_at (sched c) s;
          suf \<leftarrow> refill_sufficient sc (consume_time s);
          assertK suf;
          rdy \<leftarrow> refill_ready (current_time s) sc;
          assertK rdy;
          s \<leftarrow>
            (if is_roundrobin sc then do {
               assertK (refill_size sc = MIN_REFILLS);
               sc \<leftarrow> set_head sc (\<lambda>r. r\<lparr>refill_amount := refill_amount r - consume_time s\<rparr>);
               sc \<leftarrow> set_tail sc (\<lambda>r. r\<lparr>refill_amount := refill_amount r + consume_time s\<rparr>);
               sched_put (sched c) sc s }
             else do {
               cs \<leftarrow> sched_at (current_sched s) s;
               cs \<leftarrow> refill_split_check cs (consume_time s);
               sched_put (current_sched s) cs s });
          sc \<leftarrow> sched_at (sched c) s;
          suf \<leftarrow> refill_sufficient sc 0;
          assertK suf;
          rdy \<leftarrow> refill_ready (current_time s) sc;
          assertK rdy;
          Some s }
        else Some s);
     sc \<leftarrow> sched_at (sched c) s;
     s \<leftarrow> sched_put (sched c) (sc\<lparr>consumed := consumed sc + consume_time s\<rparr>) s;
     s \<leftarrow>
       (if CONFIG_NUM_DOMAINS > 1 then do {
          assertK (current_domain_time s > consume_time s);
          assertK (current_domain_time s - consume_time s \<ge> MIN_BUDGET);
          Some (s\<lparr>current_domain_time := current_domain_time s - consume_time s\<rparr>) }
        else Some s);
     Some (s\<lparr>consume_time := 0\<rparr>) }"

section \<open>Switching to a thread\<close>

definition switch_to_sc :: "kstate \<Rightarrow> kstate option" where
  "switch_to_sc s = do {
     c \<leftarrow> tcb_at (current_thread s) s;
     assertK (sched c \<noteq> NULL);
     sc \<leftarrow> sched_at (sched c) s;
     s \<leftarrow>
       (if refill_max sc > 0 then do {
          let s = s\<lparr>reprogram := True\<rparr>;
          sc \<leftarrow> refill_noblock_check (current_time s) sc;
          s \<leftarrow> sched_put (sched c) sc s;
          rdy \<leftarrow> refill_ready (current_time s) sc;
          assertK rdy;
          suf \<leftarrow> refill_sufficient sc 0;
          assertK suf;
          Some s }
        else Some s);
     Some (s\<lparr>current_sched := sched c\<rparr>) }"

text \<open>
  The data of a deadline event is the address of the identifier of a thread; the model keeps the address of the
  thread.  A handler is a function pointer, of which only the identity matters: the number of
  \<open>deadline_timeout_handler\<close> is arbitrary, but not NULL.
\<close>

definition deadline_timeout_handler_ptr :: ptr where
  "deadline_timeout_handler_ptr = 1"

definition set_deadline :: "ticks_t \<Rightarrow> ptr \<Rightarrow> kstate \<Rightarrow> kstate option" where
  "set_deadline deadline deadline_gid s = do {
     let (new_timer_event, s) = d_object_alloc obj_time_obj s;
     if new_timer_event \<noteq> NULL then do {
       tm \<leftarrow> initialize_timelist new_timer_event (timers s);
       let s = s\<lparr>timers := tm\<rparr>;
       if deadline = 0 then d_object_free new_timer_event s
       else do {
         tm \<leftarrow> add_to_timelist new_timer_event deadline_timeout_handler_ptr deadline_gid (ucast deadline) (timers s);
         Some (s\<lparr>timers := tm\<rparr>) } }
     else Some s }"

definition get_timer_precision :: ticks_t where
  "get_timer_precision = 0"

definition set_next_arrival_interrupt :: "kstate \<Rightarrow> kstate option" where
  "set_next_arrival_interrupt s = do {
     sc \<leftarrow> sched_of (current_thread s) s;
     hd \<leftarrow> REFILL_HEAD sc;
     let next_interrupt = current_time s + refill_amount hd;
     let next_interrupt = (if CONFIG_NUM_DOMAINS > 1 then min next_interrupt (current_time s + current_domain_time s)
                           else next_interrupt);
     next_interrupt \<leftarrow>
       (if release_queue s \<noteq> NULL then do {
          rs \<leftarrow> sched_of (release_queue s) s;
          rh \<leftarrow> REFILL_HEAD rs;
          Some (if refill_time rh < next_interrupt then refill_time rh else next_interrupt) }
        else Some next_interrupt);
     if next_interrupt \<noteq> 0 then set_deadline (next_interrupt - get_timer_precision - current_time s) (current_thread s) s
     else Some s }"

definition get_max_ticks :: ticks_t where
  "get_max_ticks = 0xFFFFFFFFFFFFFFFF"

definition update_consumed :: "ptr \<Rightarrow> kstate \<Rightarrow> kstate option" where
  "update_consumed thread s =
     (if thread \<noteq> NULL then do {
        t \<leftarrow> tcb_at thread s;
        sc \<leftarrow> sched_at (sched t) s;
        sched_put (sched t) (sc\<lparr>consumed := (if consumed sc \<ge> get_max_ticks then consumed sc - get_max_ticks else 0)\<rparr>) s }
      else Some s)"

definition cancel_yield :: "ptr \<Rightarrow> kstate \<Rightarrow> kstate option" where
  "cancel_yield thread s =
     (if thread \<noteq> NULL then do {
        t \<leftarrow> tcb_at thread s;
        if yield t \<noteq> NULL then tcb_upd thread (\<lambda>t. t\<lparr>yield := NULL\<rparr>) s else Some s }
      else Some s)"

definition thread_activate :: "kstate \<Rightarrow> kstate option" where
  "thread_activate s = do {
     c \<leftarrow> tcb_at (current_thread s) s;
     if yield c \<noteq> NULL then do {
       s \<leftarrow> update_consumed (yield c) s;
       s \<leftarrow> cancel_yield (current_thread s) s;
       c \<leftarrow> tcb_at (current_thread s) s;
       assertK (is_thread_running c);
       Some s }
     else Some s }"

definition set_current_thread :: "ptr \<Rightarrow> kstate \<Rightarrow> kstate option" where
  "set_current_thread thread s = do {
     assertK (thread \<noteq> NULL);
     let s = s\<lparr>current_thread := thread\<rparr>;
     ts \<leftarrow> is_time_sensitived thread s;
     if ts then do {
       t \<leftarrow> tcb_at thread s;
       assertK (is_thread_running t);
       s \<leftarrow> switch_to_sc s;
       s \<leftarrow>
         (if reprogram s then do {
            s \<leftarrow> commit_time s;
            s \<leftarrow> set_next_arrival_interrupt s;
            Some (s\<lparr>reprogram := False\<rparr>) }
          else Some s);
       thread_activate s }
     else Some s }"

definition postpone_cur_irqlock :: "kstate \<Rightarrow> kstate option" where
  "postpone_cur_irqlock s = do {
     s \<leftarrow> postpone_from_ready_q (current_thread s) s;
     s \<leftarrow> reschedule_required s;
     s \<leftarrow> schedule s;
     swap_thread_irqlock s }"

definition postpone_cur :: "kstate \<Rightarrow> kstate option" where
  "postpone_cur s = do {
     s \<leftarrow> postpone_from_ready_q (current_thread s) s;
     s \<leftarrow> reschedule_required s;
     s \<leftarrow> schedule s;
     swap_thread s }"

definition domain_length :: "word_t list" where
  "domain_length = [1]"

definition init_schedule_object_module :: "kstate \<Rightarrow> kstate" where
  "init_schedule_object_module s =
     (let s = s\<lparr>domain_schedule := map (\<lambda>i. \<lparr>ds_domain = word_of_nat i, ds_length = domain_length ! i\<rparr>) [0..<CONFIG_NUM_DOMAINS],
            ready_queues := map (\<lambda>q. \<lparr>head = NULL, tail = NULL\<rparr>) (ready_queues s),
            scheduler_action := SCHEDULER_ACTION_RESUME_CURRENT_THREAD, current_thread := NULL,
            release_queue := NULL, reprogram := False, consume_time := 0\<rparr>;
          (tick, tm) = get_current_tick (timers s)
      in s\<lparr>timers := tm, current_time := tick\<rparr>)"


section \<open>Facts\<close>

subsection \<open>The highest queue\<close>

lemma prio_set_queues:
  assumes "sched_inv s Q R"
  shows "prio_set s 0 = {p. p < 256 \<and> Q p \<noteq> []}"
proof -
  have "p \<in> prio_set s 0 \<longleftrightarrow> Q p \<noteq> []" if "p < 256" for p
    using rq_invD(5)[OF sched_invD(1)[OF assms], of 0 p] that by (simp add: config_simps)
  moreover have "p < 256" if "p \<in> prio_set s 0" for p
    using that by (simp add: prio_set_def row_set_def config_simps)
  ultimately show ?thesis by blast
qed

lemma l1_bitmap_zero:
  assumes "sched_inv s Q R"
  shows "\<exists>w. arr_get (ready_queues_l1_bitmap s) (0 :: word_t) = Some w \<and> (w = 0 \<longleftrightarrow> (\<forall>p<256. Q p = []))"
proof -
  have "bitmap_ok s" using rq_invD(2)[OF sched_invD(1)[OF assms]] .
  then have "length (ready_queues_l1_bitmap s) = 1" "row_ok (ready_queues_l1_bitmap s ! 0) (ready_queues_l2_bitmap s ! 0)"
    by (simp_all add: bitmap_ok_def config_simps)
  moreover from this(2) have "ready_queues_l1_bitmap s ! 0 = 0 \<longleftrightarrow> prio_set s 0 = {}"
    by (simp add: row_set_empty prio_set_def)
  ultimately show ?thesis
    using prio_set_queues[OF assms] by auto
qed

definition top_queue :: "(nat \<Rightarrow> ptr list) \<Rightarrow> nat \<Rightarrow> bool" where
  "top_queue Q i \<longleftrightarrow> i < 256 \<and> Q i \<noteq> [] \<and> (\<forall>j. i < j \<longrightarrow> j < 256 \<longrightarrow> Q j = [])"

lemma highest_queue:
  assumes "sched_inv s Q R" "top_queue Q i"
  shows "\<exists>prio q. get_highest_prio 0 s = Some prio \<and> ready_queues_index 0 prio = Some prio
    \<and> arr_get (ready_queues s) prio = Some q \<and> head q = hd (Q i)"
proof -
  have i: "i < 256" "Q i \<noteq> []" "\<And>j. j < 256 \<Longrightarrow> Q j \<noteq> [] \<Longrightarrow> j \<le> i"
    using assms(2) by (auto simp: top_queue_def not_le[symmetric])
  note rq = sched_invD(1)[OF assms(1)]
  have "Max (prio_set s 0) = i"
    unfolding prio_set_queues[OF assms(1)] using i by (intro Max_eqI) auto
  moreover have "prio_set s (unat (0 :: word_t)) \<noteq> {}"
    using i prio_set_queues[OF assms(1)] by auto
  ultimately obtain prio where p: "get_highest_prio 0 s = Some prio" "unat prio = i"
    using get_highest_prio_Max[OF rq_invD(2)[OF rq], of 0] by (auto simp: config_simps)
  moreover have "length (ready_queues s) = 256"
    using rq_invD(1)[OF rq] by (simp add: config_simps)
  moreover have "head (ready_queues s ! i) = hd (Q i)"
    using dll_head[OF rq_invD(3)[OF rq, of i]] i by (simp add: config_simps)
  ultimately show ?thesis
    using i(1) by (simp add: ready_queues_index_def config_simps)
qed

subsection \<open>Budgets of marked threads\<close>

definition has_budget :: "ptr \<Rightarrow> kstate \<Rightarrow> bool option" where
  "has_budget p s = do {
     ts \<leftarrow> is_time_sensitived p s;
     if ts then do {
       sc \<leftarrow> sched_of p s;
       suf \<leftarrow> refill_sufficient sc 0;
       rdy \<leftarrow> refill_ready (current_time s) sc;
       Some (suf \<and> rdy) }
     else Some True }"

lemma is_runnable_queued: "is_runnable t = is_thread_queued t"
proof -
  have "x AND BIT 7 = (if bit x 7 then BIT 7 else 0)" for x :: word_t
    by (rule bit_eqI) (auto simp: bit_and_iff bit_BIT)
  moreover have "BIT 7 \<noteq> 0"
    by (simp add: BIT_def)
  ultimately have "x AND BIT 7 = BIT 7 \<longleftrightarrow> x AND BIT 7 \<noteq> 0" for x :: word_t
    by simp
  then show ?thesis
    by (simp add: is_runnable_def state_preds state_queued_state_def)
qed

lemma assert_budget_marked:
  assumes "tcb_at p s = Some t" "has_budget p s = Some True"
    and "tcb_at p s' = Some t'" "qview t' = qview t" "is_thread_queued t'"
    and "scheds s' = scheds s" "current_time s' = current_time s"
  shows "assert_budget p s' = Some ()"
proof -
  have v: "sched t' = sched t" "sched_at (sched t) s' = sched_at (sched t) s"
    using assms(4,6) by (simp_all add: qview_def sched_at_def)
  have ts: "is_time_sensitived p s' = is_time_sensitived p s" and so: "sched_of p s' = sched_of p s"
    using assms(1,3) v by (simp_all add: is_time_sensitived_def sched_of_def)
  show ?thesis
  proof (cases "is_time_sensitived p s = Some True")
    case True
    then obtain sc where sc: "sched t \<noteq> NULL" "sched_at (sched t) s = Some sc" "refill_max sc > 0"
      by (simp add: is_time_sensitived_def assms(1) bind_eq_Some_conv split: if_splits) blast
    then have "is_schedulable p s' = Some True"
      by (simp add: is_schedulable_def assms(3,5) v is_runnable_queued)
    moreover have so': "sched_of p s = Some sc"
      by (simp add: sched_of_def assms(1) sc)
    moreover have "refill_sufficient sc 0 = Some True" "refill_ready (current_time s) sc = Some True"
      using assms(2) unfolding has_budget_def True so'
      by (cases "refill_sufficient sc 0"; cases "refill_ready (current_time s) sc"; simp)+
    ultimately show ?thesis
      unfolding assert_budget_def ts so assms(7) True by simp
  next
    case False
    then have "is_time_sensitived p s = Some False"
      using assms(2) unfolding has_budget_def by (cases "is_time_sensitived p s") simp_all
    then show ?thesis
      unfolding assert_budget_def ts by simp
  qed
qed

lemma tcb_upd_mark:
  assumes "sched_inv s Q R" "tcb_at p s = Some t" "\<And>t. qview (f t) = qview t"
  shows "\<exists>s'. tcb_upd p f s = Some s' \<and> sched_inv s' Q R \<and> tcb_at p s' = Some (f t)
    \<and> (\<forall>q. q \<noteq> p \<longrightarrow> tcb_at q s' = tcb_at q s) \<and> s' = s\<lparr>tcbs := (tcbs s)(p \<mapsto> f t)\<rparr>"
proof -
  have "same_view s (s\<lparr>tcbs := (tcbs s)(p \<mapsto> f t)\<rparr>)"
    using same_view_upd[OF assms(2,3)] .
  then show ?thesis
    using sched_inv_view[OF assms(1)] tcb_at_SomeD[OF assms(2)] by (simp add: tcb_upd_Some[OF assms(2)] tcb_at_def)
qed

subsection \<open>Choosing\<close>

lemma next_thread_idle:
  assumes "sched_inv s Q R" "\<forall>p<256. Q p = []"
  shows "next_thread s = Some (idle_thread s, s)"
  using l1_bitmap_zero[OF assms(1)] assms(2) by (auto simp: next_thread_def config_simps)

lemma take_out:
  assumes inv: "sched_inv s Q R" and i: "i < 256" "p \<in> set (Q i)"
  shows "\<exists>s0 s' t'. sched_dequeue p s = Some s0 \<and> tcb_upd p marktcb_as_not_queued s0 = Some s'
    \<and> sched_inv s' (Q(i := remove1 p (Q i))) R \<and> unqueued (Q(i := remove1 p (Q i))) R p
    \<and> tcb_at p s' = Some t' \<and> \<not> is_thread_queued t' \<and> release_time s' = release_time s"
proof -
  have i': "i < NUM_READY_QUEUES" using i by (simp add: config_simps)
  obtain s1 where s1: "sched_dequeue p s = Some s1" "sched_inv s1 (Q(i := remove1 p (Q i))) R"
    "unqueued (Q(i := remove1 p (Q i))) R p" "rq_frame (set (Q i) - {p}) s s1"
    using sched_dequeue_inv[OF inv i' i(2)] by blast
  obtain t where "tcb_at p s = Some t" using rq_invD(4)[OF sched_invD(1)[OF inv] i' i(2)] by blast
  then obtain t1 where t1: "tcb_at p s1 = Some t1" using rq_frame_tcb[OF s1(4)] by blast
  obtain s2 where s2: "tcb_upd p marktcb_as_not_queued s1 = Some s2" "sched_inv s2 (Q(i := remove1 p (Q i))) R"
    "tcb_at p s2 = Some (marktcb_as_not_queued t1)" "s2 = s1\<lparr>tcbs := (tcbs s1)(p \<mapsto> marktcb_as_not_queued t1)\<rparr>"
    using tcb_upd_mark[OF s1(2) t1, of marktcb_as_not_queued] by auto
  have "same_view s1 s2"
    using same_view_tcb_upd[OF s2(1)] by simp
  then have "release_time s2 = release_time s"
    using same_view_release_time[of s1 s2] release_time_same_core[of s1 s] rest_eqD(1)[OF rq_frame_rest[OF s1(4)]] s1(4)
    by (auto simp: rq_frame_def fun_eq_iff)
  then show ?thesis using s1 s2(1-3) by auto
qed

lemma put_back:
  assumes inv: "sched_inv s Q R" and c: "tcb_at p s = Some c" "thread_home c j" and u: "unqueued Q R p"
    and b: "has_budget p s = Some True"
  shows "\<exists>s0 s' c'. tcb_upd p marktcb_as_queued s = Some s0 \<and> sched_enqueue p s0 = Some s'
    \<and> sched_inv s' (Q(j := p # Q j)) R \<and> tcb_at p s' = Some c' \<and> is_thread_queued c'
    \<and> (\<forall>q t. q \<noteq> p \<longrightarrow> tcb_at q s = Some t \<longrightarrow> (\<exists>t'. tcb_at q s' = Some t' \<and> core t' = core t))"
proof -
  obtain s1 where s1: "tcb_upd p marktcb_as_queued s = Some s1" "sched_inv s1 Q R" "tcb_at p s1 = Some (marktcb_as_queued c)"
    "\<And>q. q \<noteq> p \<Longrightarrow> tcb_at q s1 = tcb_at q s" "s1 = s\<lparr>tcbs := (tcbs s)(p \<mapsto> marktcb_as_queued c)\<rparr>"
    using tcb_upd_mark[OF inv c(1), of marktcb_as_queued] by auto
  have same: "scheds s1 = scheds s" "current_time s1 = current_time s"
    by (simp_all add: s1(5))
  have "assert_budget p s1 = Some ()"
    by (rule assert_budget_marked[OF c(1) b s1(3) _ _ same]) simp_all
  moreover have "thread_home (marktcb_as_queued c) j"
    using c(2) qview_home[of "marktcb_as_queued c" c] by simp
  ultimately obtain s2 where s2: "sched_enqueue p s1 = Some s2" "sched_inv s2 (Q(j := p # Q j)) R"
    "rq_frame (insert p (set (Q j))) s1 s2"
    using sched_enqueue_inv[OF s1(2,3) _ u] by blast
  obtain c' where c': "tcb_at p s2 = Some c'" "core c' = core (marktcb_as_queued c)"
    using rq_frame_tcb[OF s2(3) s1(3)] by blast
  then have "is_thread_queued c'"
    using core_eqD(4)[OF c'(2)] queued_marked(1)[of c] by (simp add: is_thread_queued_def is_thread_state_set_def)
  moreover have "\<exists>t'. tcb_at q s2 = Some t' \<and> core t' = core t" if "q \<noteq> p" "tcb_at q s = Some t" for q t
    using rq_frame_tcb[OF s2(3)] s1(4)[OF that(1)] that(2) by simp
  ultimately show ?thesis
    using s1(1) s2(1,2) c'(1) by auto
qed

lemma top_thread:
  assumes inv: "sched_inv s Q R" and top: "top_queue Q i" and Qi: "Q i = h # xs"
  shows "\<exists>t. tcb_at h s = Some t \<and> thread_home t i" "h \<noteq> NULL"
    "next_thread s = (if h \<noteq> current_thread s then pick_thread h s else Some (current_thread s, s))"
proof -
  have i: "i < NUM_READY_QUEUES" using top by (simp add: top_queue_def config_simps)
  show t: "\<exists>t. tcb_at h s = Some t \<and> thread_home t i"
    using rq_invD(4)[OF sched_invD(1)[OF inv] i, of h] Qi by simp
  then show nn: "h \<noteq> NULL" by (auto dest: tcb_at_SomeD)
  obtain w where w: "arr_get (ready_queues_l1_bitmap s) (0 :: word_t) = Some w" "w \<noteq> 0"
    using l1_bitmap_zero[OF inv] top by (auto simp: top_queue_def)
  obtain prio q where q: "get_highest_prio 0 s = Some prio" "ready_queues_index 0 prio = Some prio"
    "arr_get (ready_queues s) prio = Some q" "head q = h"
    using highest_queue[OF inv top] Qi by auto
  then show "next_thread s = (if h \<noteq> current_thread s then pick_thread h s else Some (current_thread s, s))"
    unfolding next_thread_def using w by (simp add: config_simps)
qed

lemma unat_ucast_byte: "unat (ucast (b :: byte_t) :: word_t) = unat b"
proof -
  have "unat b < 2 ^ 8"
    by (rule order_less_le_trans[OF unsigned_less]) simp
  then show ?thesis
    by (simp add: unsigned_ucast_eq take_bit_nat_eq_self)
qed

lemma ucast_byte_0: "ucast (b :: byte_t) = (0 :: word_t) \<longleftrightarrow> b = 0"
  by (metis unat_ucast_byte unat_eq_zero)

lemma home_prio:
  assumes "thread_home t i" "thread_home c j"
  shows "is_t1_higher_prio_than_t2 t c \<longleftrightarrow> j < i"
  using assms by (simp add: thread_home_def is_t1_higher_prio_than_t2_def prio_of_def config_simps unat_ucast_byte
      word_less_nat_alt)

text \<open>A thread of priority five is queued while thread 200 runs.\<close>

definition run_ex :: "ktcb \<Rightarrow> kstate" where
  "run_ex c = (state_ex [100 \<mapsto> marktcb_as_queued (blank_tcb\<lparr>sched_prior := word_of_nat 5\<rparr>), 200 \<mapsto> c])
     \<lparr>current_thread := 200, swap_ok := 1\<rparr>"

lemma run_ex_queued:
  assumes "sched c = NULL"
  shows "\<exists>s t. sched_append 100 (run_ex c) = Some s \<and> sched_inv s ((\<lambda>_. [])(5 := [100])) []
    \<and> tcb_at 100 s = Some t \<and> is_thread_queued t \<and> thread_home t 5 \<and> assert_budget 100 s = Some ()
    \<and> tcb_at 200 s = Some c \<and> has_budget 200 s = Some True
    \<and> current_thread s = 200 \<and> swap_ok s = 1 \<and> cpu_idle_thread s = 0"
proof -
  let ?t = "marktcb_as_queued (blank_tcb\<lparr>sched_prior := word_of_nat 5\<rparr>)"
  have at: "tcb_at 100 (run_ex c) = Some ?t" by (simp add: run_ex_def tcb_at_def)
  have home: "thread_home ?t 5"
    using thread_home_blank[of 5] qview_home[of ?t "blank_tcb\<lparr>sched_prior := word_of_nat 5\<rparr>" 5] by simp
  have inv: "sched_inv (run_ex c) (\<lambda>_. []) []"
    using sched_inv_view[OF state_ex_inv[of "[100 \<mapsto> ?t, 200 \<mapsto> c]"], of "run_ex c"] by (simp add: run_ex_def)
  have b: "assert_budget 100 (run_ex c) = Some ()"
    using blank_budget[OF at] by (simp add: mark_defs blank_tcb_def)
  obtain s where s: "sched_append 100 (run_ex c) = Some s" "sched_inv s ((\<lambda>_. [])(5 := [100])) []"
    "rq_frame {100} (run_ex c) s"
    using sched_append_inv[OF inv at home _ b] by (auto simp: unqueued_def)
  obtain t where t: "tcb_at 100 s = Some t" "core t = core ?t" using rq_frame_tcb[OF s(3) at] by blast
  have "is_thread_queued t" "thread_home t 5"
    using core_eqD(4)[OF t(2)] core_eqD(6)[OF t(2), of 5] home queued_marked(1)[of "blank_tcb\<lparr>sched_prior := word_of_nat 5\<rparr>"]
    by (simp_all add: is_thread_queued_def is_thread_state_set_def)
  moreover have c: "tcb_at 200 s = Some c"
    using rq_frame_outside[OF s(3), of 200] by (simp add: tcb_at_def run_ex_def)
  moreover have "has_budget 200 s = Some True"
    using c assms by (simp add: has_budget_def is_time_sensitived_def)
  moreover have "current_thread s = 200" "swap_ok s = 1" "cpu_idle_thread s = 0"
    using rest_eqD[OF rq_frame_rest[OF s(3)]] by (simp_all add: run_ex_def state_ex_def zero_kstate_def)
  ultimately show ?thesis
    using s(1,2) t(1) b assert_budget_rq_frame[OF s(3) at] by auto
qed

lemma top_ex: "top_queue ((\<lambda>_. [])(5 := [100])) 5"
  by (simp add: top_queue_def)

text \<open>A thread with a scheduling context whose only refill is due at time zero, next to the running thread 200.\<close>

definition budget_sc :: thread_sched where
  "budget_sc = sc_example 8 [\<lparr>refill_time = 0, refill_amount = 50\<rparr>]"

definition budget_ex :: "ktcb \<Rightarrow> kstate" where
  "budget_ex c = (state_ex [100 \<mapsto> blank_tcb\<lparr>sched := 300\<rparr>, 200 \<mapsto> c])
     \<lparr>scheds := [300 \<mapsto> budget_sc], current_thread := 200\<rparr>"

lemma budget_ex_inv: "sched_inv (budget_ex c) (\<lambda>_. []) []"
  using state_ex_inv[of "[100 \<mapsto> blank_tcb\<lparr>sched := 300\<rparr>, 200 \<mapsto> c]"]
    bitmap_ok_cong[of "budget_ex c" "state_ex [100 \<mapsto> blank_tcb\<lparr>sched := 300\<rparr>, 200 \<mapsto> c]"]
  by (simp add: sched_inv_def rq_inv_def rel_inv_def budget_ex_def)

lemma budget_ex_simps:
  "tcb_at 100 (budget_ex c) = Some (blank_tcb\<lparr>sched := 300\<rparr>)" "tcb_at 200 (budget_ex c) = Some c"
  "sched_of 100 (budget_ex c) = Some budget_sc" "release_time (budget_ex c) 100 = Some 0"
  "refill_ready 0 budget_sc = Some True" "refill_sufficient budget_sc 0 = Some True" "\<not> is_roundrobin budget_sc"
  "current_thread (budget_ex c) = 200" "current_time (budget_ex c) = 0" "scheduler_action (budget_ex c) = 0"
  "current_domain (budget_ex c) = 0"
  by (simp_all add: budget_ex_def tcb_at_def sched_of_def sched_at_def release_time_def budget_sc_def sporadic_eval
      is_roundrobin_def get_kernel_wcet_us_def us_to_ticks_def)

lemma budget_ex_has_budget: "has_budget 100 (budget_ex c) = Some True"
proof -
  have "sched_at 300 (budget_ex c) = Some budget_sc" "0 < refill_max budget_sc"
    by (simp_all add: budget_ex_def sched_at_def budget_sc_def sc_example_def)
  then show ?thesis
    by (simp add: has_budget_def is_time_sensitived_def budget_ex_simps)
qed

section \<open>Properties\<close>

text \<open>
  C5: When the current thread cannot run, \<open>next_thread\<close> returns the first thread of the highest non-empty priority, takes
  it out of its queue and marks it as no longer queued; the other queues and the scheduler invariant are kept.
\<close>
theorem next_thread_blocked:
  assumes "sched_inv s Q R" "top_queue Q i" "Q i = h # xs" "h \<noteq> current_thread s"
    and "tcb_at (current_thread s) s = Some c" "is_thread_not_running c"
    and "tcb_at h s = Some t" "is_thread_queued t" "assert_budget h s = Some ()"
  shows "\<exists>s' t'. next_thread s = Some (h, s') \<and> sched_inv s' (Q(i := xs)) R \<and> unqueued (Q(i := xs)) R h
    \<and> tcb_at h s' = Some t' \<and> \<not> is_thread_queued t'"
proof -
  have i: "i < 256" using assms(2) by (simp add: top_queue_def)
  obtain s0 s' t' where s': "sched_dequeue h s = Some s0" "tcb_upd h marktcb_as_not_queued s0 = Some s'"
    "sched_inv s' (Q(i := xs)) R" "unqueued (Q(i := xs)) R h" "tcb_at h s' = Some t'" "\<not> is_thread_queued t'"
    using take_out[OF assms(1) i, of h] assms(3) by auto
  then show ?thesis
    using top_thread[OF assms(1-3)] assms(4-9) by (simp add: pick_thread_def)
qed

theorem next_thread_blocked_witness:
  "\<exists>s s'. sched_append 100 (run_ex (blank_tcb\<lparr>obj_state := 2\<rparr>)) = Some s \<and> next_thread s = Some (100, s')
    \<and> sched_inv s' (\<lambda>_. []) []"
proof -
  obtain s t where s: "sched_append 100 (run_ex (blank_tcb\<lparr>obj_state := 2\<rparr>)) = Some s"
    "sched_inv s ((\<lambda>_. [])(5 := [100])) []" "tcb_at 100 s = Some t" "is_thread_queued t" "assert_budget 100 s = Some ()"
    "tcb_at 200 s = Some (blank_tcb\<lparr>obj_state := 2\<rparr>)" "current_thread s = 200"
    using run_ex_queued[of "blank_tcb\<lparr>obj_state := 2\<rparr>"] by (auto simp: blank_tcb_def)
  moreover have "is_thread_not_running (blank_tcb\<lparr>obj_state := 2\<rparr>)"
    by (simp add: is_thread_not_running_def state_bits)
  ultimately show ?thesis
    using next_thread_blocked[OF s(2) top_ex, of 100 "[]" "blank_tcb\<lparr>obj_state := 2\<rparr>" t] by (auto simp: fun_upd_idem)
qed

text \<open>
  C4: When the current thread can run but a thread of higher priority is ready, \<open>next_thread\<close> returns that thread,
  and the preempted thread goes to the front of the queue of its own priority, so it is the next of them to run.
\<close>
theorem next_thread_preempts:
  assumes "sched_inv s Q R" "top_queue Q i" "Q i = h # xs" "h \<noteq> current_thread s" "swap_ok s \<noteq> 0"
    and "tcb_at (current_thread s) s = Some c" "is_thread_running c" "thread_home c j" "unqueued Q R (current_thread s)"
    and "has_budget (current_thread s) s = Some True" "current_thread s \<noteq> cpu_idle_thread s"
    and "tcb_at h s = Some t" "is_thread_queued t" "assert_budget h s = Some ()" "is_t1_higher_prio_than_t2 t c"
  shows "\<exists>s'. next_thread s = Some (h, s') \<and> sched_inv s' (Q(j := current_thread s # Q j, i := xs)) R
    \<and> unqueued (Q(j := current_thread s # Q j, i := xs)) R h"
proof -
  have i: "i < 256" using assms(2) by (simp add: top_queue_def)
  obtain t0 where "tcb_at h s = Some t0" "thread_home t0 i" using top_thread(1)[OF assms(1-3)] by blast
  then have "thread_home t i" using assms(12) by simp
  then have ji: "j \<noteq> i" using home_prio[of t i c j] assms(8,15) by simp
  obtain s0 s1 where s1: "tcb_upd (current_thread s) marktcb_as_queued s = Some s0" "sched_enqueue (current_thread s) s0 = Some s1"
    "sched_inv s1 (Q(j := current_thread s # Q j)) R" "\<exists>t'. tcb_at h s1 = Some t' \<and> core t' = core t"
    using put_back[OF assms(1,6,8,9,10)] assms(4,12) by blast
  obtain t' where t': "tcb_at h s1 = Some t'" "core t' = core t" using s1(4) by blast
  have "is_thread_queued t'"
    using core_eqD(4)[OF t'(2)] assms(13) by (simp add: is_thread_queued_def is_thread_state_set_def)
  moreover obtain s2 s' where s': "sched_dequeue h s1 = Some s2" "tcb_upd h marktcb_as_not_queued s2 = Some s'"
    "sched_inv s' (Q(j := current_thread s # Q j, i := xs)) R" "unqueued (Q(j := current_thread s # Q j, i := xs)) R h"
    using take_out[OF s1(3) i, of h] assms(3) ji by auto
  moreover have "ucast (swap_ok s) \<noteq> (0 :: word_t)"
    using assms(5) by (simp add: ucast_byte_0)
  ultimately show ?thesis
    using top_thread(2,3)[OF assms(1-3)] assms(4-7,11,12,14,15) s1(1,2) t'(1)
    by (simp add: pick_thread_def should_preempt_def is_thread_running_def smp_idle_thread_object_def)
qed


theorem next_thread_preempts_witness:
  "\<exists>s s'. sched_append 100 (run_ex (blank_tcb\<lparr>sched_prior := word_of_nat 3\<rparr>)) = Some s \<and> next_thread s = Some (100, s')
    \<and> sched_inv s' ((\<lambda>_. [])(3 := [200])) []"
proof -
  let ?c = "blank_tcb\<lparr>sched_prior := word_of_nat 3\<rparr>"
  obtain s t where s: "sched_append 100 (run_ex ?c) = Some s"
    "sched_inv s ((\<lambda>_. [])(5 := [100])) []" "tcb_at 100 s = Some t" "is_thread_queued t" "thread_home t 5"
    "assert_budget 100 s = Some ()" "tcb_at 200 s = Some ?c" "has_budget 200 s = Some True"
    "current_thread s = 200" "swap_ok s = 1" "cpu_idle_thread s = 0"
    using run_ex_queued[of ?c] by (auto simp: blank_tcb_def)
  have "is_thread_running ?c"
    by (simp add: state_preds Let_def blank_tcb_def)
  moreover have "is_t1_higher_prio_than_t2 t ?c"
    using home_prio[OF s(5) thread_home_blank[of 3]] by simp
  moreover have "(\<lambda>_::nat. [])(5 := [100], 3 := [200], 5 := []) = (\<lambda>_. [])(3 := [200::ptr])"
    by (simp add: fun_eq_iff)
  ultimately show ?thesis
    using next_thread_preempts[OF s(2) top_ex, of 100 "[]" ?c 3 t] thread_home_blank[of 3] s
    by (auto simp: unqueued_def)
qed

text \<open>
  C6: A thread that can run is not preempted by a thread of the same or a lower priority: \<open>next_thread\<close> returns the
  current thread and leaves every queue as it was.
\<close>
theorem next_thread_keeps:
  assumes "sched_inv s Q R" "top_queue Q i" "Q i = h # xs" "h \<noteq> current_thread s"
    and "tcb_at (current_thread s) s = Some c" "is_thread_running c" "thread_home c j" "unqueued Q R (current_thread s)"
    and "has_budget (current_thread s) s = Some True" "current_thread s \<noteq> cpu_idle_thread s"
    and "assert_budget h s = Some ()" "i \<le> j"
  shows "\<exists>s'. next_thread s = Some (current_thread s, s') \<and> sched_inv s' Q R \<and> unqueued Q R (current_thread s)"
proof -
  let ?cur = "current_thread s"
  obtain t where t: "tcb_at h s = Some t" "thread_home t i" using top_thread(1)[OF assms(1-3)] by blast
  have prio: "\<not> is_t1_higher_prio_than_t2 t c" using home_prio[OF t(2) assms(7)] assms(12) by simp
  have j: "j < 256" using thread_home_less[OF assms(7)] by (simp add: config_simps)
  obtain s0 s1 c' where s1: "tcb_upd ?cur marktcb_as_queued s = Some s0" "sched_enqueue ?cur s0 = Some s1"
    "sched_inv s1 (Q(j := ?cur # Q j)) R" "tcb_at ?cur s1 = Some c'" "is_thread_queued c'"
    using put_back[OF assms(1,5,7,8,9)] by blast
  obtain s2 s' where s': "sched_dequeue ?cur s1 = Some s2" "tcb_upd ?cur marktcb_as_not_queued s2 = Some s'"
    "sched_inv s' (Q(j := ?cur # Q j, j := Q j)) R"
    using take_out[OF s1(3) j, of ?cur] by auto
  have "\<exists>b. should_preempt ?cur w s = Some b" for w
    using assms(5,6) by (auto simp: should_preempt_def is_thread_running_def)
  then obtain b where "should_preempt ?cur (ucast (swap_ok s)) s = Some b" by blast
  then have "pick_thread h s = Some (?cur, s')"
    using top_thread(2)[OF assms(1-3)] assms(5,6,10,11) t(1) prio s1(1,2,4,5) s'(1,2)
    by (simp add: pick_thread_def is_thread_running_def smp_idle_thread_object_def)
  then show ?thesis
    using top_thread(3)[OF assms(1-3)] assms(4,8) s'(3) by simp
qed

theorem next_thread_keeps_witness:
  "\<exists>s s'. sched_append 100 (run_ex (blank_tcb\<lparr>sched_prior := word_of_nat 5\<rparr>)) = Some s \<and> next_thread s = Some (200, s')
    \<and> sched_inv s' ((\<lambda>_. [])(5 := [100])) []"
proof -
  let ?c = "blank_tcb\<lparr>sched_prior := word_of_nat 5\<rparr>"
  obtain s t where s: "sched_append 100 (run_ex ?c) = Some s"
    "sched_inv s ((\<lambda>_. [])(5 := [100])) []" "tcb_at 100 s = Some t" "assert_budget 100 s = Some ()"
    "tcb_at 200 s = Some ?c" "has_budget 200 s = Some True" "current_thread s = 200" "cpu_idle_thread s = 0"
    using run_ex_queued[of ?c] by (auto simp: blank_tcb_def)
  have "is_thread_running ?c"
    by (simp add: state_preds Let_def blank_tcb_def)
  then show ?thesis
    using next_thread_keeps[OF s(2) top_ex, of 100 "[]" ?c 5] thread_home_blank[of 5] s
    by (auto simp: unqueued_def)
qed


text \<open>
  C16: \<open>postpone_from_ready_q\<close> moves a ready thread from its priority queue to the release queue, behind all threads
  that are replenished no later; the scheduler invariant is kept and the timer is to be reprogrammed.
\<close>
theorem postpone_moves_to_release:
  assumes "sched_inv s Q R" "i < 256" "p \<in> set (Q i)" "tcb_at p s = Some t" "is_thread_queued t"
    and "release_time s p = Some tm"
  shows "\<exists>s'. postpone_from_ready_q p s = Some s' \<and> reprogram s'
    \<and> sched_inv s' (Q(i := remove1 p (Q i)))
        (takeWhile (\<lambda>x. the (release_time s x) \<le> tm) R @ p # dropWhile (\<lambda>x. the (release_time s x) \<le> tm) R)"
proof -
  obtain s0 s1 where s1: "sched_dequeue p s = Some s0" "tcb_upd p marktcb_as_not_queued s0 = Some s1"
    "sched_inv s1 (Q(i := remove1 p (Q i))) R" "unqueued (Q(i := remove1 p (Q i))) R p" "release_time s1 = release_time s"
    using take_out[OF assms(1-3)] by blast
  then obtain s2 where s2: "release_enqueue p s1 = Some s2" "sched_inv s2 (Q(i := remove1 p (Q i)))
      (takeWhile (\<lambda>x. the (release_time s x) \<le> tm) R @ p # dropWhile (\<lambda>x. the (release_time s x) \<le> tm) R)"
    using release_enqueue_inv[OF s1(3,4), of tm] assms(6) by auto
  moreover have "sched_inv (s2\<lparr>reprogram := True\<rparr>) (Q(i := remove1 p (Q i)))
      (takeWhile (\<lambda>x. the (release_time s x) \<le> tm) R @ p # dropWhile (\<lambda>x. the (release_time s x) \<le> tm) R)"
    by (rule sched_inv_view[OF s2(2)]) simp
  ultimately show ?thesis
    using assms(4,5) s1(1,2) by (simp add: postpone_from_ready_q_def)
qed

theorem postpone_moves_to_release_witness:
  "\<exists>s s'. add_to_end_ready_q 100 (budget_ex blank_tcb) = Some s \<and> postpone_from_ready_q 100 s = Some s'
    \<and> sched_inv s' (\<lambda>_. []) [100]"
proof -
  let ?s = "budget_ex blank_tcb" and ?t = "marktcb_as_queued (blank_tcb\<lparr>sched := 300\<rparr>)"
  obtain s0 where s0: "tcb_upd 100 marktcb_as_queued ?s = Some s0" "sched_inv s0 (\<lambda>_. []) []" "tcb_at 100 s0 = Some ?t"
    "s0 = ?s\<lparr>tcbs := (tcbs ?s)(100 \<mapsto> ?t)\<rparr>"
    using tcb_upd_mark[OF budget_ex_inv budget_ex_simps(1), of marktcb_as_queued] by auto
  have b: "assert_budget 100 s0 = Some ()"
    by (rule assert_budget_marked[OF budget_ex_simps(1) budget_ex_has_budget s0(3)]) (simp_all add: s0(4))
  have home: "thread_home ?t 0"
    by (simp add: thread_home_def prio_of_def mark_defs blank_tcb_def config_simps)
  obtain s where s: "sched_append 100 s0 = Some s" "sched_inv s ((\<lambda>_. [])(0 := [100])) []" "rq_frame {100} s0 s"
    using sched_append_inv[OF s0(2,3) home _ b] by (auto simp: unqueued_def)
  obtain t where t: "tcb_at 100 s = Some t" "core t = core ?t" using rq_frame_tcb[OF s(3) s0(3)] by blast
  have q: "is_thread_queued t"
    using core_eqD(4)[OF t(2)] queued_marked(1)[of "blank_tcb\<lparr>sched := 300\<rparr>"]
    by (simp add: is_thread_queued_def is_thread_state_set_def)
  have "release_time s = release_time s0"
    using release_time_same_core[of s s0] rest_eqD(1)[OF rq_frame_rest[OF s(3)]] s(3) by (simp add: rq_frame_def)
  moreover have "release_time s0 100 = Some 0"
    using same_view_release_time[OF same_view_tcb_upd[OF s0(1)], of 100] budget_ex_simps(4)[of blank_tcb] by simp
  ultimately show ?thesis
    using postpone_moves_to_release[OF s(2) _ _ t(1) q, of 0 0] s0(1) s(1)
    by (auto simp: add_to_end_ready_q_def fun_upd_idem)
qed

text \<open>
  Replenishing a postponed thread stops the kernel.  \<open>awaken\<close> takes the thread out of the release queue and
  makes it the scheduler action without queueing it, and \<open>schedule\<close> asserts that the scheduler action is queued.
\<close>
theorem awakened_thread_panics:
  assumes "sched_inv s Q [p]" "p \<noteq> current_thread s" "scheduler_action s = SCHEDULER_ACTION_RESUME_CURRENT_THREAD"
    and "tcb_at p s = Some t" "is_thread_running t" "domain t = current_domain s" "p \<noteq> 1" "p \<noteq> 2"
    and "sched_of p s = Some sc" "refill_ready (current_time s) sc = Some True" "refill_sufficient sc 0 = Some True"
    and "\<not> is_roundrobin sc"
  shows "schedule s = None"
proof -
  obtain s1 where s1: "release_dequeue s = Some (p, s1)" "sched_inv s1 Q []" "rel_frame {p} s s1"
    using release_dequeue_inv[OF assms(1)] by auto
  note F = rel_frameD(1-5,9)[OF s1(3)]
  obtain t1 where t1: "tcb_at p s1 = Some t1" "core t1 = core t"
    using same_core_tcb[OF F(6) assms(4)] by blast
  note C = core_eqD(1,4,5)[OF t1(2)]
  have rq: "release_queue s = p" "release_queue s1 = NULL"
    using dll_head[OF rel_invD(1)[OF sched_invD(2)[OF assms(1)]]] dll_head[OF rel_invD(1)[OF sched_invD(2)[OF s1(2)]]] by simp_all
  have sc: "sched_of p s1 = Some sc"
    using assms(4,9) t1(1) C(3) F(1) by (auto simp: sched_of_def sched_at_def)
  have p: "p \<noteq> NULL" using assms(4) by (auto dest: tcb_at_SomeD)
  have st: "is_thread_ready t1" "\<not> is_thread_queued t1"
    using assms(5) C(2) by (simp_all add: state_preds)
  have "possible_switchto p s1 = Some (s1\<lparr>scheduler_action := p\<rparr>)"
    using p t1(1) st(1) C(1) F(4,5) assms(3,6) by (simp add: possible_switchto_def)
  then have "awaken s = awaken (s1\<lparr>scheduler_action := p, reprogram := True\<rparr>)"
    using assms(2,9-12) rq(1) p s1(1) sc F(2) by (subst awaken.simps) simp
  also have "\<dots> = Some (s1\<lparr>scheduler_action := p, reprogram := True\<rparr>)"
    using rq(2) by (subst awaken.simps) simp
  finally show ?thesis
    using p assms(7,8) t1(1) st(2) by (simp add: schedule_def action_defs)
qed

theorem awakened_thread_panics_witness:
  "\<exists>s. release_enqueue 100 (budget_ex blank_tcb) = Some s \<and> schedule s = None"
proof -
  obtain s where s: "release_enqueue 100 (budget_ex blank_tcb) = Some s" "sched_inv s (\<lambda>_. []) [100]"
    "rel_frame {100} (budget_ex blank_tcb) s"
    using release_enqueue_inv[OF budget_ex_inv _ budget_ex_simps(4), of blank_tcb] by (auto simp: unqueued_def)
  note F = rel_frameD(1-5,9)[OF s(3)]
  obtain t where t: "tcb_at 100 s = Some t" "core t = core (blank_tcb\<lparr>sched := 300\<rparr>)"
    using same_core_tcb[OF F(6) budget_ex_simps(1)] by blast
  note C = core_eqD(1,4,5)[OF t(2)]
  have "is_thread_running t" using C(2) by (simp add: state_preds Let_def blank_tcb_def)
  moreover have "sched_of 100 s = Some budget_sc"
    using t(1) C(3) F(1) by (simp add: sched_of_def sched_at_def budget_ex_def)
  ultimately show ?thesis
    using awakened_thread_panics[OF s(2) _ _ t(1)] s(1) F(2-5) C(1) budget_ex_simps(5-)
    by (auto simp: action_defs blank_tcb_def)
qed

lemma charge_refills_frame:
  assumes "charge_refills cap used s = Some s'"
  shows "tcbs s' = tcbs s" "current_thread s' = current_thread s"
  using assms by (auto simp: charge_refills_def sched_put_def bind_eq_Some_conv split: if_splits)

text \<open>
  A running thread with a hard deadline that has used up its budget stops the kernel: \<open>end_timeslice\<close> sets the
  scheduler action to the constant that chooses the privileged thread, and \<open>reschedule_required\<close> dereferences it.
\<close>
theorem hard_deadline_faults:
  assumes "is_time_sensitived (current_thread s) s = Some True" "sched_of (current_thread s) s = Some sc"
    and "refill_ready (current_time s) sc = Some True" "refill_capacity sc (consume_time s) = Some cap" "cap < MIN_BUDGET"
    and "tcb_at (current_thread s) s = Some c" "level c = HARD_PRIOR_ACTION" "is_thread_running c" "tcbs s 2 = None"
  shows "check_budget s = None"
proof -
  have hard: "(end_timeslice True s1 \<bind> reschedule_required) = None" if "tcbs s1 = tcbs s" for s1
    using that assms(9) by (auto simp: end_timeslice_def set_privilege_status_def reschedule_required_def action_defs
        assert_budget_def is_time_sensitived_def tcb_at_def arr_set_def)
  have "charge_budget cap used True s = None" for used
  proof (cases "charge_refills cap used s")
    case (Some s1)
    then show ?thesis
      using hard[of s1] charge_refills_frame[OF Some] assms(6,8)
      by (auto simp: charge_budget_def tcb_at_def bind_eq_None_conv split: if_splits)
  qed (simp add: charge_budget_def)
  then show ?thesis
    using assms(1-7) tcb_at_SomeD[OF assms(6)] by (simp add: check_budget_def get_thread_action_def is_cur_domain_expired_def config_simps linorder_not_le[symmetric])
qed

theorem hard_deadline_faults_witness:
  "check_budget ((budget_ex blank_tcb)\<lparr>tcbs := [200 \<mapsto> blank_tcb\<lparr>sched := 300, level := 0xFF\<rparr>], consume_time := 45\<rparr>) = None"
  by (rule hard_deadline_faults[of _ budget_sc 5 "blank_tcb\<lparr>sched := 300, level := 0xFF\<rparr>"])
    (simp_all add: budget_ex_def tcb_at_def sched_of_def sched_at_def is_time_sensitived_def budget_sc_def sporadic_eval
      get_kernel_wcet_us_def us_to_ticks_def HARD_PRIOR_ACTION_def state_preds Let_def blank_tcb_def)

text \<open>
  Locking the scheduler and unlocking it again without rescheduling gives back the same state.
\<close>
theorem sched_lock_unlock:
  assumes "\<not> in_isr s" "tcb_at (current_thread s) s = Some c" "sched_locked c \<noteq> 1"
  shows "(sched_lock s \<bind> sched_unlock_no_reschedule) = Some s"
proof -
  have "s\<lparr>tcbs := (tcbs s)(current_thread s \<mapsto> c)\<rparr> = s"
    using tcb_at_SomeD[OF assms(2)] by (simp add: fun_upd_idem)
  then show ?thesis
    using assms tcb_at_SomeD[OF assms(2)] by (simp add: sched_lock_def sched_unlock_no_reschedule_def tcb_upd_def)
qed

theorem sched_lock_unlock_witness:
  "(sched_lock (run_ex (blank_tcb\<lparr>sched_locked := 0\<rparr>)) \<bind> sched_unlock_no_reschedule)
    = Some (run_ex (blank_tcb\<lparr>sched_locked := 0\<rparr>))"
  by (rule sched_lock_unlock[of _ "blank_tcb\<lparr>sched_locked := 0\<rparr>"])
    (simp_all add: run_ex_def state_ex_def zero_kstate_def tcb_at_def)



end
