(* ===== verification/Thread_Table.thy ===== *)
theory Thread_Table
  imports Scheduler
begin

text \<open>
  The table of user threads of \<^verbatim>\<open>src/object/tcb.c\<close>, ordered by thread number: \<^verbatim>\<open>find_thread\<close>,
  \<^verbatim>\<open>add_to_threads\<close>, \<^verbatim>\<open>delete_from_threads\<close> and \<^verbatim>\<open>get_thread\<close>.  The abstraction is the list of the
  registered threads; the binary search is shown to find the first thread whose number is not smaller.
\<close>

section \<open>Operations\<close>

definition GLOBALID_TO_TID :: "word_t \<Rightarrow> word_t" where
  "GLOBALID_TO_TID gid = drop_bit 14 gid"

definition id_idle_id :: word_t where
  "id_idle_id = 1"

definition id_main_id :: word_t where
  "id_main_id = 2"

definition id_privilege_id :: word_t where
  "id_privilege_id = 3"

definition id_scheduler_id :: word_t where
  "id_scheduler_id = 4"

definition id_spacer_id :: word_t where
  "id_spacer_id = 5"

definition id_end_special_id :: word_t where
  "id_end_special_id = 8"

lemmas id_defs = id_idle_id_def id_main_id_def id_privilege_id_def id_scheduler_id_def id_spacer_id_def id_end_special_id_def

definition is_user_vaild :: "word_t \<Rightarrow> bool" where
  "is_user_vaild gid \<longleftrightarrow> GLOBALID_TO_TID gid \<ge> id_end_special_id"

definition record_id :: "word_t \<Rightarrow> kstate \<Rightarrow> word_t option" where
  "record_id i s = do {
     p \<leftarrow> arr_get (record_threads s) i;
     t \<leftarrow> tcb_at p s;
     Some (thread_id t) }"

partial_function (option) find_thread_loop :: "word_t \<Rightarrow> word_t \<Rightarrow> word_t \<Rightarrow> kstate \<Rightarrow> word_t option" where
  "find_thread_loop tid from to s =
     (if from \<le> to then
        if to - from \<le> 1 then Some to
        else do {
          let mid = from + drop_bit 1 (to - from);
          gid \<leftarrow> record_id mid s;
          if GLOBALID_TO_TID gid > tid then find_thread_loop tid from mid s
          else if GLOBALID_TO_TID gid < tid then find_thread_loop tid mid to s
          else Some mid }
      else Some 0)"

declare find_thread_loop.simps [code]

definition find_thread :: "word_t \<Rightarrow> word_t \<Rightarrow> word_t \<Rightarrow> kstate \<Rightarrow> word_t option" where
  "find_thread tid from to s =
     (if from = to then Some from
      else do {
        gid \<leftarrow> record_id from s;
        if GLOBALID_TO_TID gid \<ge> tid then Some from else find_thread_loop tid from to s })"

partial_function (option) shift_up :: "word_t \<Rightarrow> word_t \<Rightarrow> ptr list \<Rightarrow> ptr list option" where
  "shift_up i j ths =
     (if i \<le> j then do {
        p \<leftarrow> arr_get ths (j - 1);
        ths \<leftarrow> arr_set ths j p;
        shift_up i (j - 1) ths }
      else Some ths)"

declare shift_up.simps [code]

definition add_to_threads :: "word_t \<Rightarrow> ptr \<Rightarrow> kstate \<Rightarrow> kstate option" where
  "add_to_threads tid thread s =
     (if record_thread_count s = 0 then do {
        ths \<leftarrow> arr_set (record_threads s) (record_thread_count s) thread;
        Some (s\<lparr>record_threads := ths, record_thread_count := record_thread_count s + 1\<rparr>) }
      else do {
        i \<leftarrow> find_thread tid 0 (record_thread_count s) s;
        ths \<leftarrow> shift_up i (record_thread_count s) (record_threads s);
        ths \<leftarrow> arr_set ths i thread;
        Some (s\<lparr>record_threads := ths, record_thread_count := record_thread_count s + 1\<rparr>) })"

partial_function (option) shift_down :: "word_t \<Rightarrow> word_t \<Rightarrow> ptr list \<Rightarrow> ptr list option" where
  "shift_down i n ths =
     (if i < n then do {
        p \<leftarrow> arr_get ths (i + 1);
        ths \<leftarrow> arr_set ths i p;
        shift_down (i + 1) n ths }
      else Some ths)"

declare shift_down.simps [code]

definition delete_from_threads :: "word_t \<Rightarrow> kstate \<Rightarrow> kstate option" where
  "delete_from_threads tid s =
     (if record_thread_count s = 1 then Some (s\<lparr>record_thread_count := record_thread_count s - 1\<rparr>)
      else do {
        i \<leftarrow> find_thread tid 0 (record_thread_count s) s;
        let n = record_thread_count s - 1;
        ths \<leftarrow> shift_down i n (record_threads s);
        Some (s\<lparr>record_thread_count := n, record_threads := ths\<rparr>) })"

definition get_thread :: "word_t \<Rightarrow> kstate \<Rightarrow> ptr option" where
  "get_thread gid s =
     (let target_id = GLOBALID_TO_TID gid
      in if target_id = id_idle_id then Some (idle_thread s)
         else if target_id = id_main_id then Some (main_thread s)
         else if target_id = id_privilege_id then Some (privilege_thread s)
         else if target_id = id_scheduler_id \<or> target_id = id_spacer_id then Some NULL
         else do {
           map_index \<leftarrow> find_thread target_id 0 (record_thread_count s) s;
           rid \<leftarrow> record_id map_index s;
           if rid \<noteq> gid then Some NULL else arr_get (record_threads s) map_index })"

section \<open>Abstraction\<close>

definition tid_of :: "kstate \<Rightarrow> ptr \<Rightarrow> nat" where
  "tid_of s p = (case tcb_at p s of None \<Rightarrow> 0 | Some t \<Rightarrow> unat (GLOBALID_TO_TID (thread_id t)))"

definition table_ok :: "kstate \<Rightarrow> ptr list \<Rightarrow> bool" where
  "table_ok s ts \<longleftrightarrow> length (record_threads s) = 256 \<and> length ts \<le> 256 \<and> record_thread_count s = word_of_nat (length ts)
     \<and> take (length ts) (record_threads s) = ts \<and> (\<forall>p \<in> set ts. tcb_at p s \<noteq> None)
     \<and> sorted_wrt (<) (map (tid_of s) ts)"

text \<open>The first place of a number in the ordered list.\<close>

definition place :: "kstate \<Rightarrow> nat \<Rightarrow> ptr list \<Rightarrow> nat" where
  "place s n ts = length (takeWhile (\<lambda>p. tid_of s p < n) ts)"

lemma table_okD:
  assumes "table_ok s ts"
  shows "length (record_threads s) = 256" "length ts \<le> 256" "unat (record_thread_count s) = length ts"
    "i < length ts \<Longrightarrow> record_threads s ! i = ts ! i" "sorted_wrt (<) (map (tid_of s) ts)"
proof -
  have c: "record_thread_count s = word_of_nat (length ts)" "length ts \<le> 256" "take (length ts) (record_threads s) = ts"
    using assms by (auto simp: table_ok_def)
  show "unat (record_thread_count s) = length ts"
    unfolding c(1) using c(2) by (intro unat_word_of_nat) simp
  show "record_threads s ! i = ts ! i" if "i < length ts"
    using nth_take[OF that, of "record_threads s"] c(3) by simp
qed (use assms in \<open>auto simp: table_ok_def\<close>)

lemma record_id_ok:
  assumes "table_ok s ts" "unat i < length ts"
  shows "\<exists>gid. record_id i s = Some gid \<and> unat (GLOBALID_TO_TID gid) = tid_of s (ts ! unat i)
    \<and> (\<exists>t. tcb_at (ts ! unat i) s = Some t \<and> thread_id t = gid)"
proof -
  note D = table_okD[OF assms(1)]
  obtain t where t: "tcb_at (ts ! unat i) s = Some t"
    using assms(1) nth_mem[OF assms(2)] unfolding table_ok_def by blast
  have "unat i < length (record_threads s)" using D(1,2) assms(2) by simp
  then show ?thesis
    using t D(4)[OF assms(2)] by (simp add: record_id_def tid_of_def)
qed

lemma place_eqI:
  assumes "sorted_wrt (<) (map (tid_of s) ts)" "k \<le> length ts"
    and "\<And>j. j < k \<Longrightarrow> tid_of s (ts ! j) < n" "k < length ts \<Longrightarrow> n \<le> tid_of s (ts ! k)"
  shows "place s n ts = k"
proof -
  have "takeWhile (\<lambda>p. tid_of s p < n) ts = take k ts"
    by (rule takeWhile_eq_take_P_nth) (use assms(2-4) in \<open>auto simp: not_less\<close>)
  then show ?thesis using assms(2) by (simp add: place_def)
qed

lemma tids_less:
  "sorted_wrt (<) (map (tid_of s) ts) \<Longrightarrow> i < j \<Longrightarrow> j < length ts \<Longrightarrow> tid_of s (ts ! i) < tid_of s (ts ! j)"
  using sorted_wrt_nth_less[of "(<)" "map (tid_of s) ts" i j] by simp

lemma mid_index:
  fixes a b :: word_t
  assumes "unat a < unat b" "1 < unat b - unat a"
  shows "unat (a + drop_bit 1 (b - a)) = unat a + (unat b - unat a) div 2" "\<not> b - a \<le> 1" "a \<le> b"
proof -
  show le: "a \<le> b" using assms by (simp add: word_le_nat_alt)
  have d: "unat (b - a) = unat b - unat a" using le by (simp add: unat_sub)
  then have h: "unat (drop_bit 1 (b - a)) = (unat b - unat a) div 2"
    by (simp add: drop_bit_eq_div unat_div)
  have "unat a + (unat b - unat a) div 2 < 2 ^ 32"
    using unat_bound32[of b] assms by linarith
  then show "unat (a + drop_bit 1 (b - a)) = unat a + (unat b - unat a) div 2"
    unfolding h[symmetric] by (subst unat_add_lem[THEN iffD1]) simp_all
  show "\<not> b - a \<le> 1" using d assms(2) by (simp add: word_le_nat_alt)
qed

lemma find_thread_loop_ok:
  assumes "table_ok s ts" "unat a < unat b" "unat b \<le> length ts" "tid_of s (ts ! unat a) < unat tid"
    and "unat b < length ts \<Longrightarrow> unat tid < tid_of s (ts ! unat b)"
  shows "\<exists>r. find_thread_loop tid a b s = Some r \<and> unat r = place s (unat tid) ts"
  using assms(2-5)
proof (induction "unat b - unat a" arbitrary: a b rule: less_induct)
  case less
  note D = table_okD[OF assms(1)]
  show ?case
  proof (cases "unat b - unat a = 1")
    case True
    have le: "a \<le> b" "b - a \<le> 1"
      using less.prems(1) True by (simp_all add: word_le_nat_alt unat_sub)
    have "tid_of s (ts ! j) < unat tid" if "j < unat b" for j
    proof (cases "j = unat a")
      case False
      then have "j < unat a" using that True by linarith
      then have "tid_of s (ts ! j) < tid_of s (ts ! unat a)"
        using tids_less[OF D(5)] less.prems(1,2) by simp
      then show ?thesis using less.prems(3) by simp
    qed (use less.prems(3) in simp)
    then have "place s (unat tid) ts = unat b"
      using D(5) less.prems(2,4) by (intro place_eqI) auto
    then show ?thesis
      using le by (subst find_thread_loop.simps) simp
  next
    case False
    then have gap: "1 < unat b - unat a" using less.prems(1) by linarith
    note m = mid_index[OF less.prems(1) gap]
    let ?m = "a + drop_bit 1 (b - a)"
    have mb: "unat a < unat ?m" "unat ?m < unat b" unfolding m(1) using gap by linarith+
    obtain i where i: "record_id ?m s = Some i" "unat (GLOBALID_TO_TID i) = tid_of s (ts ! unat ?m)"
      using record_id_ok[OF assms(1), of ?m] mb(2) less.prems(2) by auto
    have step: "find_thread_loop tid a b s = (if GLOBALID_TO_TID i > tid then find_thread_loop tid a ?m s
        else if GLOBALID_TO_TID i < tid then find_thread_loop tid ?m b s else Some ?m)"
      using m(2,3) i(1) by (subst find_thread_loop.simps) (simp add: Let_def)
    consider "GLOBALID_TO_TID i > tid" | "GLOBALID_TO_TID i < tid" | "GLOBALID_TO_TID i = tid" by (metis linorder_less_linear)
    then show ?thesis
    proof cases
      case 1
      then show ?thesis
        using less.hyps[of ?m a] mb less.prems i(2) step by (simp add: word_less_nat_alt)
    next
      case 2
      then show ?thesis
        using less.hyps[of b ?m] mb less.prems i(2) step by (simp add: word_less_nat_alt)
    next
      case 3
      have "tid_of s (ts ! j) < unat tid" if "j < unat ?m" for j
        using tids_less[OF D(5) that] mb(2) less.prems(2) i(2) 3 by simp
      then have "place s (unat tid) ts = unat ?m"
        using D(5) mb(2) less.prems(2) i(2) 3 by (intro place_eqI) auto
      then show ?thesis using 3 step by simp
    qed
  qed
qed

lemma find_thread_ok:
  assumes "table_ok s ts"
  shows "\<exists>r. find_thread tid 0 (record_thread_count s) s = Some r \<and> unat r = place s (unat tid) ts"
proof (cases "ts = []")
  case True
  then show ?thesis
    using assms by (simp add: find_thread_def table_ok_def place_def)
next
  case False
  note D = table_okD[OF assms]
  have n: "record_thread_count s \<noteq> 0" using D(3) False by auto
  obtain i where i: "record_id 0 s = Some i" "unat (GLOBALID_TO_TID i) = tid_of s (ts ! 0)"
    using record_id_ok[OF assms, of 0] False by auto
  show ?thesis
  proof (cases "GLOBALID_TO_TID i \<ge> tid")
    case True
    then have "place s (unat tid) ts = 0"
      using D(5) i(2) by (intro place_eqI) (auto simp: word_le_nat_alt)
    then show ?thesis using i(1) n True by (simp add: find_thread_def)
  next
    case lt: False
    then have "tid_of s (ts ! 0) < unat tid" using i(2) by (simp add: word_le_nat_alt)
    then show ?thesis
      using find_thread_loop_ok[OF assms, of 0 "record_thread_count s" tid] D(3) False i(1) n lt
      by (simp add: find_thread_def)
  qed
qed

subsection \<open>Shifting\<close>

lemma unat_pred: "x \<noteq> 0 \<Longrightarrow> unat (x - 1 :: word_t) = unat x - 1"
  by (simp add: unat_minus_one)

lemma unat_succ: "unat (x :: word_t) + 1 < 2 ^ 32 \<Longrightarrow> unat (x + 1) = unat x + 1"
  using unat_plus_no_overflow[of x 1] by simp

lemma shift_up_nth:
  assumes "1 \<le> unat i" "unat i \<le> unat j + 1" "unat j < length ths"
  shows "\<exists>ths'. shift_up i j ths = Some ths' \<and> length ths' = length ths
    \<and> (\<forall>k < length ths. ths' ! k = (if unat i \<le> k \<and> k \<le> unat j then ths ! (k - 1) else ths ! k))"
  using assms
proof (induction "unat j + 1 - unat i" arbitrary: j ths)
  case 0
  then have "\<not> i \<le> j" by (simp add: word_le_nat)
  then show ?case using 0 by (subst shift_up.simps) auto
next
  case (Suc n)
  have ij: "i \<le> j" using Suc.hyps(2) by (simp add: word_le_nat)
  have j0: "j \<noteq> 0" using ij Suc.prems(1) by (auto simp: word_le_nat)
  have p: "unat (j - 1) = unat j - 1" using unat_pred[OF j0] .
  have jn: "0 < unat j" using j0 by (simp add: unat_gt_0)
  have hyp: "n = unat (j - 1) + 1 - unat i" "unat i \<le> unat (j - 1) + 1"
    using Suc.hyps(2) ij jn p by (auto simp: word_le_nat)
  let ?t = "ths[unat j := ths ! (unat j - 1)]"
  have lt: "unat (j - 1) < length ?t" using Suc.prems(3) p by simp
  obtain ths' where t': "shift_up i (j - 1) ?t = Some ths'" "length ths' = length ths"
    "\<And>k. k < length ths \<Longrightarrow> ths' ! k = (if unat i \<le> k \<and> k \<le> unat (j - 1) then ?t ! (k - 1) else ?t ! k)"
    using Suc.hyps(1)[OF hyp(1) Suc.prems(1) hyp(2) lt] unfolding length_list_update by blast
  have "shift_up i j ths = Some ths'"
    using ij t'(1) Suc.prems(3) p by (subst shift_up.simps) simp
  moreover have "ths' ! k = (if unat i \<le> k \<and> k \<le> unat j then ths ! (k - 1) else ths ! k)" if "k < length ths" for k
    using t'(3)[OF that] that ij Suc.prems(3) p jn by (auto simp: nth_list_update word_le_nat)
  ultimately show ?case using t'(2) by auto
qed

lemma shift_up_zero:
  assumes "unat j < length ths" "length ths < 2 ^ 32 - 1"
  shows "shift_up 0 j ths = None"
  using assms
proof (induction "unat j" arbitrary: j ths)
  case 0
  then have "j = 0" by (simp add: unat_eq_zero)
  moreover have "unat (- 1 :: word_t) = 2 ^ 32 - 1" by (simp add: unsigned_minus_1_eq_mask mask_eq_exp_minus_1)
  ultimately show ?case using 0 by (subst shift_up.simps) (simp add: arr_get_def)
next
  case (Suc n)
  have j0: "j \<noteq> 0" using Suc.hyps(2) by auto
  then have p: "unat (j - 1) = n" "j \<noteq> 0" using unat_pred[OF j0] Suc.hyps(2) by simp_all
  then show ?case
    using Suc.hyps(1)[of "j - 1" "ths[unat j := ths ! n]"] Suc.hyps(2) Suc.prems by (subst shift_up.simps) simp
qed

lemma shift_down_nth:
  assumes "unat n < length ths" "length ths < 2 ^ 32"
  shows "\<exists>ths'. shift_down i n ths = Some ths' \<and> length ths' = length ths
    \<and> (\<forall>k < length ths. ths' ! k = (if unat i \<le> k \<and> k < unat n then ths ! (k + 1) else ths ! k))"
  using assms
proof (induction "unat n - unat i" arbitrary: i ths)
  case 0
  then have "\<not> i < n" by (simp add: word_less_nat)
  then show ?case using 0 by (subst shift_down.simps) auto
next
  case (Suc m)
  have i: "i < n" using Suc.hyps(2) by (simp add: word_less_nat)
  have s: "unat (i + 1) = unat i + 1" using Suc.hyps(2) Suc.prems by (intro unat_succ) linarith
  let ?t = "ths[unat i := ths ! (unat i + 1)]"
  have m: "m = unat n - unat (i + 1)" and lt: "unat n < length ?t" "length ?t < 2 ^ 32"
    using Suc.hyps(2) Suc.prems s by simp_all
  obtain ths' where t': "shift_down (i + 1) n ?t = Some ths'" "length ths' = length ths"
    "\<And>k. k < length ths \<Longrightarrow> ths' ! k = (if unat (i + 1) \<le> k \<and> k < unat n then ?t ! (k + 1) else ?t ! k)"
    using Suc.hyps(1)[OF m lt] unfolding length_list_update by blast
  have "shift_down i n ths = Some ths'"
    using i t'(1) Suc.prems s Suc.hyps(2) by (subst shift_down.simps) simp
  moreover have "ths' ! k = (if unat i \<le> k \<and> k < unat n then ths ! (k + 1) else ths ! k)" if "k < length ths" for k
    using t'(3)[OF that] that s Suc.hyps(2) by (cases "k = unat i") (auto simp: nth_list_update)
  ultimately show ?case using t'(2) by auto
qed

lemma place_le: "place s n ts \<le> length ts"
  by (simp add: place_def length_takeWhile_le)

lemma place_split:
  assumes "sorted_wrt (<) (map (tid_of s) ts)"
  shows "\<forall>p \<in> set (take (place s n ts) ts). tid_of s p < n" "\<forall>p \<in> set (drop (place s n ts) ts). n \<le> tid_of s p"
proof -
  have tw: "take (place s n ts) ts = takeWhile (\<lambda>p. tid_of s p < n) ts" "drop (place s n ts) ts = dropWhile (\<lambda>p. tid_of s p < n) ts"
    by (simp_all add: place_def takeWhile_eq_take[symmetric] dropWhile_eq_drop[symmetric])
  show "\<forall>p \<in> set (take (place s n ts) ts). tid_of s p < n" unfolding tw by (auto dest: set_takeWhileD)
  show "\<forall>p \<in> set (drop (place s n ts) ts). n \<le> tid_of s p"
  proof (cases "drop (place s n ts) ts")
    case (Cons a as)
    have "n \<le> tid_of s a" using Cons hd_dropWhile[of "\<lambda>p. tid_of s p < n" ts] tw(2) by (simp add: not_less)
    moreover have "sorted_wrt (<) (map (tid_of s) (a # as))"
      using sorted_wrt_drop[OF assms, of "place s n ts"] Cons by (simp add: drop_map)
    ultimately show ?thesis using Cons by auto
  qed simp
qed

subsection \<open>Updating the table\<close>

lemma table_ok_update:
  assumes "table_ok s ts" "length ths = 256" "length us \<le> 256" "take (length us) ths = us"
    and "\<forall>p \<in> set us. tcb_at p s \<noteq> None" "sorted_wrt (<) (map (tid_of s) us)" "n = word_of_nat (length us)"
  shows "table_ok (s\<lparr>record_threads := ths, record_thread_count := n\<rparr>) us"
proof -
  have "tid_of (s\<lparr>record_threads := ths, record_thread_count := n\<rparr>) = tid_of s"
    by (simp add: tid_of_def fun_eq_iff)
  then show ?thesis using assms by (simp add: table_ok_def)
qed

lemma sorted_split:
  assumes "sorted_wrt (<) (map (f :: ptr \<Rightarrow> nat) ts)"
  shows "sorted_wrt (<) (map f (take i ts))" "sorted_wrt (<) (map f (drop i ts))"
    "\<And>x y. x \<in> set (take i ts) \<Longrightarrow> y \<in> set (drop i ts) \<Longrightarrow> f x < f y"
proof -
  have "sorted_wrt (<) (map f (take i ts) @ map f (drop i ts))"
    unfolding map_append[symmetric] append_take_drop_id by (rule assms)
  then show "sorted_wrt (<) (map f (take i ts))" "sorted_wrt (<) (map f (drop i ts))"
    "\<And>x y. x \<in> set (take i ts) \<Longrightarrow> y \<in> set (drop i ts) \<Longrightarrow> f x < f y"
    unfolding sorted_wrt_append by auto
qed

lemma sorted_insert:
  assumes "sorted_wrt (<) (map (f :: ptr \<Rightarrow> nat) ts)" "\<forall>p \<in> set (take i ts). f p < f x" "\<forall>p \<in> set (drop i ts). f x < f p"
  shows "sorted_wrt (<) (map f (take i ts @ x # drop i ts))"
  using sorted_split[OF assms(1), where i = i] assms(2,3) by (auto simp: sorted_wrt_append)

lemma sorted_delete:
  assumes "sorted_wrt (<) (map (f :: ptr \<Rightarrow> nat) ts)"
  shows "sorted_wrt (<) (map f (take i ts @ drop (Suc i) ts))"
proof -
  have "set (drop (Suc i) ts) \<subseteq> set (drop i ts)" by (simp add: set_drop_subset_set_drop)
  then show ?thesis
    using sorted_split[OF assms, where i = i] sorted_split(2)[OF assms, where i = "Suc i"] by (auto simp: sorted_wrt_append)
qed

lemma get_user_thread:
  assumes "is_user_vaild gid"
  shows "get_thread gid s = do {
     map_index \<leftarrow> find_thread (GLOBALID_TO_TID gid) 0 (record_thread_count s) s;
     rid \<leftarrow> record_id map_index s;
     if rid \<noteq> gid then Some NULL else arr_get (record_threads s) map_index }"
proof -
  have "8 \<le> unat (GLOBALID_TO_TID gid)" using assms by (simp add: is_user_vaild_def id_defs word_le_nat)
  then have "GLOBALID_TO_TID gid \<noteq> 1" "GLOBALID_TO_TID gid \<noteq> 2" "GLOBALID_TO_TID gid \<noteq> 3" "GLOBALID_TO_TID gid \<noteq> 4"
    "GLOBALID_TO_TID gid \<noteq> 5" by auto
  then show ?thesis by (simp add: get_thread_def Let_def id_defs)
qed

lemma add_to_threads_ok:
  assumes "table_ok s ts" "length ts < 256" "tcb_at p s = Some t" "tid = GLOBALID_TO_TID (thread_id t)"
    and "\<forall>q \<in> set ts. tid_of s q \<noteq> unat tid" "ts = [] \<or> 0 < place s (unat tid) ts"
  shows "\<exists>s'. add_to_threads tid p s = Some s'
    \<and> table_ok s' (take (place s (unat tid) ts) ts @ p # drop (place s (unat tid) ts) ts)"
proof -
  note D = table_okD[OF assms(1)]
  let ?k = "place s (unat tid) ts" and ?n = "record_thread_count s"
  let ?us = "take ?k ts @ p # drop ?k ts"
  have k: "?k \<le> length ts" by (rule place_le)
  have len: "length ?us = Suc (length ts)" using k by simp
  have tid: "tid_of s p = unat tid" using assms(3,4) by (simp add: tid_of_def)
  have mem: "q \<in> set ts" if "q \<in> set (take ?k ts) \<or> q \<in> set (drop ?k ts)" for q
    using that by (auto dest: in_set_takeD in_set_dropD)
  have sorted: "sorted_wrt (<) (map (tid_of s) ?us)"
    using place_split[OF D(5), of "unat tid"] assms(5) mem tid D(5) by (intro sorted_insert) (auto simp: order_less_le)
  have all: "\<forall>q \<in> set ?us. tcb_at q s \<noteq> None"
    using assms(1,3) mem by (auto simp: table_ok_def)
  have cnt: "?n + 1 = word_of_nat (length ?us)"
    using assms(1) len by (simp add: table_ok_def)
  have upd: "table_ok (s\<lparr>record_threads := ths, record_thread_count := ?n + 1\<rparr>) ?us"
    if "length ths = 256" "take (length ?us) ths = ?us" for ths
    using table_ok_update[OF assms(1) that(1) _ that(2) all sorted cnt] len assms(2) by simp
  show ?thesis
  proof (cases "ts = []")
    case True
    then show ?thesis
      using upd[of "(record_threads s)[0 := p]"] D(1,3) assms(1)
      by (auto simp: add_to_threads_def place_def table_ok_def take_Suc_conv_app_nth)
  next
    case False
    obtain r where r: "find_thread tid 0 ?n s = Some r" "unat r = ?k" using find_thread_ok[OF assms(1)] by blast
    have n0: "?n \<noteq> 0" using D(3) False by auto
    obtain ths where ths: "shift_up r ?n (record_threads s) = Some ths" "length ths = 256"
      "\<And>x. x < 256 \<Longrightarrow> ths ! x = (if ?k \<le> x \<and> x \<le> length ts then record_threads s ! (x - 1) else record_threads s ! x)"
      using shift_up_nth[of r ?n "record_threads s"] r(2) k D(1,3) assms(2,6) False by auto
    have "take (length ?us) (ths[?k := p]) = ?us"
    proof (rule nth_equalityI)
      fix x assume "x < length (take (length ?us) (ths[?k := p]))"
      then have x: "x \<le> length ts" using len ths(2) by simp
      then show "take (length ?us) (ths[?k := p]) ! x = ?us ! x"
        using ths(2,3) x k D(4) assms(2) len by (auto simp: nth_append nth_list_update nth_Cons' min_def)
    qed (use len ths(2) assms(2) in simp)
    then show ?thesis
      using upd[of "ths[?k := p]"] ths(1,2) r n0 k assms(2) by (simp add: add_to_threads_def)
  qed
qed

lemma get_thread_ok:
  assumes "table_ok s ts" "p \<in> set ts" "tcb_at p s = Some t" "is_user_vaild (thread_id t)"
  shows "get_thread (thread_id t) s = Some p"
proof -
  note D = table_okD[OF assms(1)]
  let ?tid = "GLOBALID_TO_TID (thread_id t)"
  obtain j where j: "j < length ts" "ts ! j = p" using assms(2) by (auto simp: in_set_conv_nth)
  have tid: "tid_of s p = unat ?tid" using assms(3) by (simp add: tid_of_def)
  have "place s (unat ?tid) ts = j"
    using tids_less[OF D(5) _ j(1)] j tid by (intro place_eqI[OF D(5)]) auto
  then obtain r where r: "find_thread ?tid 0 (record_thread_count s) s = Some r" "unat r = j"
    using find_thread_ok[OF assms(1), of ?tid] by auto
  have "record_id r s = Some (thread_id t)" "arr_get (record_threads s) r = Some p"
    using j r(2) D(1,2,4) assms(3) by (simp_all add: record_id_def)
  then show ?thesis
    using r(1) get_user_thread[OF assms(4)] by simp
qed

text \<open>A table with the threads number ten and twenty, next to the unregistered threads number five and fifteen.\<close>

definition numbered :: "nat \<Rightarrow> ktcb" where
  "numbered n = blank_tcb\<lparr>thread_id := word_of_nat (n * 16384)\<rparr>"

definition table_ex :: kstate where
  "table_ex = (state_ex [100 \<mapsto> numbered 10, 200 \<mapsto> numbered 20, 300 \<mapsto> numbered 15, 400 \<mapsto> numbered 5])
     \<lparr>record_threads := 100 # 200 # replicate 254 0, record_thread_count := 2\<rparr>"

lemma table_ex_simps [simp]:
  "record_threads table_ex = 100 # 200 # replicate 254 0" "record_thread_count table_ex = 2"
  "tcb_at 100 table_ex = Some (numbered 10)" "tcb_at 200 table_ex = Some (numbered 20)"
  "tcb_at 300 table_ex = Some (numbered 15)" "tcb_at 400 table_ex = Some (numbered 5)"
  by (simp_all add: table_ex_def tcb_at_def)

lemma table_ex_tids [simp]:
  "GLOBALID_TO_TID (thread_id (numbered 10)) = 10" "GLOBALID_TO_TID (thread_id (numbered 20)) = 20"
  "GLOBALID_TO_TID (thread_id (numbered 15)) = 15" "GLOBALID_TO_TID (thread_id (numbered 5)) = 5"
  "tid_of table_ex 100 = 10" "tid_of table_ex 200 = 20"
  by (simp_all add: tid_of_def, simp_all add: numbered_def GLOBALID_TO_TID_def drop_bit_eq_div)

lemma table_ex_ok: "table_ok table_ex [100, 200]"
  by (simp add: table_ok_def)

section \<open>Properties\<close>

text \<open>
  C27: The binary search of \<open>find_thread\<close> over the whole ordered table ends and returns the first place whose thread has
  a number that is not smaller than the searched one.
\<close>
theorem find_thread_lower_bound:
  assumes "table_ok s ts"
  shows "\<exists>r. find_thread tid 0 (record_thread_count s) s = Some r \<and> unat r \<le> length ts
    \<and> (\<forall>j < unat r. tid_of s (ts ! j) < unat tid) \<and> (\<forall>j. unat r \<le> j \<longrightarrow> j < length ts \<longrightarrow> unat tid \<le> tid_of s (ts ! j))"
proof -
  obtain r where r: "find_thread tid 0 (record_thread_count s) s = Some r" "unat r = place s (unat tid) ts"
    using find_thread_ok[OF assms] by blast
  note P = place_split[OF table_okD(5)[OF assms], of "unat tid"] place_le[of s "unat tid" ts]
  have "tid_of s (ts ! j) < unat tid" if "j < unat r" for j
    using P(1,3) that r(2) by (metis in_set_conv_nth length_take min.absorb2 nth_take)
  moreover have "unat tid \<le> tid_of s (ts ! j)" if "unat r \<le> j" "j < length ts" for j
  proof -
    have "ts ! j = drop (unat r) ts ! (j - unat r)" "j - unat r < length (drop (unat r) ts)" using that by simp_all
    then show ?thesis using P(2) r(2) by (metis nth_mem)
  qed
  ultimately show ?thesis using r P(3) by auto
qed

theorem find_thread_lower_bound_witness:
  "\<exists>r. find_thread 15 0 2 table_ex = Some r \<and> unat r \<le> 2 \<and> (\<forall>j < unat r. tid_of table_ex ([100, 200] ! j) < 15)"
  using find_thread_lower_bound[OF table_ex_ok, of 15] by auto

text \<open>
  C28: Registering a new thread inserts it at its place in the ordered table, unless its number is lower than all
  registered ones.
\<close>
theorem add_to_threads_inserts:
  assumes "table_ok s ts" "length ts < 256" "tcb_at p s = Some t" "tid = GLOBALID_TO_TID (thread_id t)"
    and "\<forall>q \<in> set ts. tid_of s q \<noteq> unat tid" "ts = [] \<or> 0 < place s (unat tid) ts"
  shows "\<exists>s'. add_to_threads tid p s = Some s'
    \<and> table_ok s' (take (place s (unat tid) ts) ts @ p # drop (place s (unat tid) ts) ts)"
  using add_to_threads_ok[OF assms] .

theorem add_to_threads_inserts_witness:
  "\<exists>s'. add_to_threads 15 300 table_ex = Some s' \<and> table_ok s' [100, 300, 200]"
  using add_to_threads_inserts[OF table_ex_ok, of 300 "numbered 15" 15] by (auto simp: place_def)

text \<open>
  Registering a thread whose number is lower than all registered ones is a fault: the loop that makes room counts
  down past index zero.
\<close>
theorem add_lowest_thread_faults:
  assumes "table_ok s ts" "ts \<noteq> []" "length ts < 256" "\<forall>q \<in> set ts. unat tid < tid_of s q"
  shows "add_to_threads tid p s = None"
proof -
  note D = table_okD[OF assms(1)]
  have "place s (unat tid) ts = 0"
    using assms(2,4) by (cases ts) (auto simp: place_def)
  then obtain r where "find_thread tid 0 (record_thread_count s) s = Some r" "r = 0"
    using find_thread_ok[OF assms(1), of tid] by (auto simp: unat_eq_zero)
  moreover have "record_thread_count s \<noteq> 0" using D(3) assms(2) by auto
  ultimately show ?thesis
    using shift_up_zero[of "record_thread_count s" "record_threads s"] D(1,3) assms(3) by (simp add: add_to_threads_def)
qed

theorem add_lowest_thread_faults_witness:
  "add_to_threads 5 400 table_ex = None"
  by (rule add_lowest_thread_faults[OF table_ex_ok]) simp_all

text \<open>
  \<open>get_thread\<close> finds every registered user thread by its identifier.
\<close>
theorem get_thread_finds:
  assumes "table_ok s ts" "p \<in> set ts" "tcb_at p s = Some t" "is_user_vaild (thread_id t)"
  shows "get_thread (thread_id t) s = Some p"
  using get_thread_ok[OF assms] .

theorem get_thread_finds_witness:
  "get_thread (thread_id (numbered 20)) table_ex = Some 200"
  by (rule get_thread_finds[OF table_ex_ok]) (simp_all add: is_user_vaild_def id_defs)

text \<open>
  Looking up a number above all registered ones reads the table behind its last entry, where an empty slot is
  a NULL pointer: the lookup of an unknown thread is a fault instead of returning NULL.
\<close>
theorem get_unknown_thread_faults:
  assumes "table_ok s ts" "length ts < 256" "record_threads s ! length ts = NULL"
    and "is_user_vaild gid" "\<forall>q \<in> set ts. tid_of s q < unat (GLOBALID_TO_TID gid)"
  shows "get_thread gid s = None"
proof -
  note D = table_okD[OF assms(1)]
  let ?tid = "GLOBALID_TO_TID gid"
  have "place s (unat ?tid) ts = length ts"
    using assms(5) by (simp add: place_def takeWhile_eq_all_conv[THEN iffD2])
  then obtain r where r: "find_thread ?tid 0 (record_thread_count s) s = Some r" "unat r = length ts"
    using find_thread_ok[OF assms(1), of ?tid] by auto
  have "record_id r s = None"
    using r(2) D(1) assms(2,3) by (simp add: record_id_def)
  then show ?thesis
    using r(1) get_user_thread[OF assms(4)] by simp
qed

theorem get_unknown_thread_faults_witness:
  "get_thread 0x80000 table_ex = None"
proof -
  have "GLOBALID_TO_TID 0x80000 = 32" by (simp add: GLOBALID_TO_TID_def drop_bit_eq_div)
  then show ?thesis
    by (intro get_unknown_thread_faults[OF table_ex_ok]) (simp_all add: is_user_vaild_def id_defs)
qed

text \<open>
  C29: \<open>delete_from_threads\<close> removes the thread at the place of the number and keeps the table ordered.  For a number
  that is not registered but lower than another one, the thread at that place, which has a different number, is removed.
\<close>
theorem delete_from_threads_removes:
  assumes "table_ok s ts" "1 < length ts" "place s (unat tid) ts < length ts"
  shows "\<exists>s'. delete_from_threads tid s = Some s'
    \<and> table_ok s' (take (place s (unat tid) ts) ts @ drop (Suc (place s (unat tid) ts)) ts)"
proof -
  note D = table_okD[OF assms(1)]
  let ?k = "place s (unat tid) ts" and ?n = "record_thread_count s"
  let ?us = "take ?k ts @ drop (Suc ?k) ts"
  have len: "length ?us = length ts - 1" using assms(3) by simp
  obtain r where r: "find_thread tid 0 ?n s = Some r" "unat r = ?k" using find_thread_ok[OF assms(1)] by blast
  have n0: "?n \<noteq> 0" "?n \<noteq> 1" using D(3) assms(2) by auto
  have n1: "unat (?n - 1) = length ts - 1" using unat_pred[OF n0(1)] D(3) by simp
  have lt: "unat (?n - 1) < length (record_threads s)" "length (record_threads s) < 2 ^ 32"
    using n1 D(1,2) assms(2) by simp_all
  obtain ths where ths: "shift_down r (?n - 1) (record_threads s) = Some ths" "length ths = 256"
    "\<And>x. x < 256 \<Longrightarrow> ths ! x = (if ?k \<le> x \<and> x < length ts - 1 then record_threads s ! (x + 1) else record_threads s ! x)"
    using shift_down_nth[OF lt, of r] unfolding r(2) n1 D(1) by blast
  have tk: "take (length ?us) ths = ?us"
  proof (rule nth_equalityI)
    fix x assume "x < length (take (length ?us) ths)"
    then have x: "x < length ts - 1" using len by simp
    then show "take (length ?us) ths ! x = ?us ! x"
      using ths(3)[of x] x assms(3) D(2) D(4)[of x] D(4)[of "x + 1"] len by (auto simp: nth_append)
  qed (use len ths(2) D(2) in simp)
  have all: "\<forall>q \<in> set ?us. tcb_at q s \<noteq> None"
    using assms(1) by (auto simp: table_ok_def dest: in_set_takeD in_set_dropD)
  have cnt: "?n - 1 = word_of_nat (length ?us)"
    unfolding len using assms(1,2) by (simp add: table_ok_def of_nat_diff)
  have "table_ok (s\<lparr>record_threads := ths, record_thread_count := ?n - 1\<rparr>) ?us"
    by (rule table_ok_update[OF assms(1) ths(2) _ tk all sorted_delete[OF D(5)] cnt]) (use len D(2) in simp)
  moreover have "s\<lparr>record_threads := ths, record_thread_count := ?n - 1\<rparr> = s\<lparr>record_thread_count := ?n - 1, record_threads := ths\<rparr>"
    by simp
  ultimately show ?thesis
    using r(1) n0 ths(1) by (simp add: delete_from_threads_def Let_def)
qed

theorem delete_from_threads_removes_witness:
  "\<exists>s'. delete_from_threads 15 table_ex = Some s' \<and> table_ok s' [100]"
  using delete_from_threads_removes[OF table_ex_ok, of 15] by (auto simp: place_def)

end
