(* ===== verification/Thread_Context.thy ===== *)
theory Thread_Context
  imports Thread_Table
begin

text \<open>
  Operations of \<^verbatim>\<open>src/object/tcb.c\<close> on the scheduling context and the state of a thread: initialisation, start,
  resumption, change of the scheduling parameters and of the domain, yielding and donation.
\<close>

section \<open>Operations\<close>

definition is_thread_in_isr :: "kstate \<Rightarrow> bool" where
  "is_thread_in_isr s = in_isr s"

definition set_base :: "word_t \<Rightarrow> word_t \<Rightarrow> ktcb \<Rightarrow> ktcb" where
  "set_base state opt t = t\<lparr>option := ucast opt, obj_state := state, sched_prior := 0, sched_locked := 0, mcp := 0,
     domain := 0, level := 0, swap_data := NULL\<rparr>"

definition thread_init :: "ptr \<Rightarrow> word_t \<Rightarrow> kstate \<Rightarrow> kstate option" where
  "thread_init thread options s = do {
     assertK (thread \<noteq> NULL);
     s \<leftarrow> tcb_upd thread (set_base state_restart_state options) s;
     s \<leftarrow> tcb_upd thread (\<lambda>t. t\<lparr>abort_handle := NULL\<rparr>) s;
     tcb_upd thread (\<lambda>t. t\<lparr>ready_q_next := NULL, ready_q_prev := NULL, mesg_q_next := NULL, mesg_q_prev := NULL,
       yield := NULL, notifation_node := NULL\<rparr>) s }"

definition thread_deinit :: "ptr \<Rightarrow> kstate \<Rightarrow> kstate option" where
  "thread_deinit thread s = do {
     assertK (thread \<noteq> NULL);
     t \<leftarrow> tcb_at thread s;
     delete_from_threads (GLOBALID_TO_TID (thread_id t)) s }"

definition thread_alloc :: "word_t \<Rightarrow> kstate \<Rightarrow> (ptr \<times> kstate) option" where
  "thread_alloc gid s =
     (if \<not> is_user_vaild gid then Some (NULL, s)
      else do {
        c \<leftarrow> tcb_at (current_thread s) s;
        if gid = thread_id c then Some (current_thread s, s)
        else do {
          let (new_thread, s) = d_object_alloc obj_thread_obj s;
          let (new_sched, s) = d_object_alloc obj_sched_context_obj s;
          if new_thread = NULL \<or> new_sched = NULL then Some (NULL, s)
          else do {
            s \<leftarrow> tcb_upd new_thread (\<lambda>t. t\<lparr>thread_id := gid\<rparr>) s;
            s \<leftarrow> tcb_upd new_thread (\<lambda>t. t\<lparr>sched := new_sched\<rparr>) s;
            s \<leftarrow> add_to_threads (GLOBALID_TO_TID gid) new_thread s;
            Some (new_thread, s) } } })"

definition thread_free :: "ptr \<Rightarrow> kstate \<Rightarrow> kstate option" where
  "thread_free thread s = do {
     s \<leftarrow> d_object_free thread s;
     t \<leftarrow> tcb_at thread s;
     d_object_free (sched t) s }"

definition prepare_start_thread :: "ptr \<Rightarrow> kstate \<Rightarrow> kstate option" where
  "prepare_start_thread thread s = do {
     t \<leftarrow> tcb_at thread s;
     if \<not> has_thread_started t then do {
       s \<leftarrow> tcb_upd thread marktcb_as_started s;
       t \<leftarrow> tcb_at thread s;
       if \<not> is_thread_queued t \<and> is_thread_ready t then add_to_ready_q thread s else Some s }
     else Some s }"

definition thread_resume :: "ptr \<Rightarrow> kstate \<Rightarrow> kstate option" where
  "thread_resume thread s = do {
     assertK (thread \<noteq> NULL);
     os \<leftarrow> get_thread_object_state thread s;
     assertK (os \<noteq> state_dummy_state);
     t \<leftarrow> tcb_at thread s;
     if is_thread_pending t then Some s
     else do {
       s \<leftarrow>
         (if is_thread_ready t then do {
            sc \<leftarrow> sched_at (sched t) s;
            rdy \<leftarrow> refill_ready (current_time s) sc;
            suf \<leftarrow> (if rdy then refill_sufficient sc 0 else Some False);
            if \<not> suf then postpone_from_ready_q thread s else Some s }
          else Some s);
       s \<leftarrow> tcb_upd thread marktcb_as_not_suspended s;
       s \<leftarrow> (if \<not> is_thread_in_isr s then reschedule_unlocked s else Some s);
       reschedule_required s } }"

definition update_context_schedule :: "ptr \<Rightarrow> kstate \<Rightarrow> kstate option" where
  "update_context_schedule thread s = do {
     assertK (thread \<noteq> NULL);
     s \<leftarrow> thread_resume thread s;
     t \<leftarrow> tcb_at thread s;
     s \<leftarrow> (if is_runnable t \<and> thread \<noteq> current_thread s then possible_switchto thread s else Some s);
     if thread = current_thread s then reschedule_required s else Some s }"

definition set_schedule_context :: "ptr \<Rightarrow> ticks_t \<Rightarrow> ticks_t \<Rightarrow> word_t \<Rightarrow> kstate \<Rightarrow> kstate option" where
  "set_schedule_context thread budget per max_refills s = do {
     assertK (thread \<noteq> NULL);
     t \<leftarrow> tcb_at thread s;
     assertK (sched t \<noteq> NULL);
     b \<leftarrow> is_schedulable thread s;
     s \<leftarrow>
       (if b then do {
          s \<leftarrow> release_remove thread s;
          s \<leftarrow> sched_dequeue thread s;
          if current_thread s = thread then do {
            (ok, s) \<leftarrow> check_budget s;
            if ok then commit_time s else Some s }
          else Some s }
        else Some s);
     let (per, max_refills) = (if budget = per then (0, MIN_REFILLS) else (per, max_refills));
     b \<leftarrow> is_schedulable thread s;
     t \<leftarrow> tcb_at thread s;
     sc \<leftarrow> sched_at (sched t) s;
     sc \<leftarrow> (if b then refill_update (current_time s) sc per budget max_refills
            else refill_new (current_time s) sc max_refills budget per);
     s \<leftarrow> sched_put (sched t) sc s;
     if refill_max sc > 0 then update_context_schedule thread s else Some s }"

definition set_domain :: "ptr \<Rightarrow> word_t \<Rightarrow> kstate \<Rightarrow> kstate option" where
  "set_domain thread dm s = do {
     assertK (thread \<noteq> NULL);
     b \<leftarrow> is_schedulable thread s;
     s \<leftarrow>
       (if b then do {
          s \<leftarrow> sched_dequeue thread s;
          s \<leftarrow> tcb_upd thread (\<lambda>t. t\<lparr>domain := dm\<rparr>) s;
          sched_enqueue thread s }
        else tcb_upd thread (\<lambda>t. t\<lparr>domain := dm\<rparr>) s);
     if thread = current_thread s then reschedule_required s else Some s }"

definition thread_yield :: "ptr \<Rightarrow> kstate \<Rightarrow> kstate option" where
  "thread_yield thread s = do {
     assertK (thread \<noteq> NULL);
     assertK (\<not> in_isr s);
     t \<leftarrow> tcb_at thread s;
     s \<leftarrow>
       (if yield t \<noteq> NULL then do {
          s \<leftarrow> update_consumed (yield t) s;
          s \<leftarrow> cancel_yield thread s;
          t \<leftarrow> tcb_at thread s;
          assertK (yield t = NULL);
          Some s }
        else Some s);
     s \<leftarrow> thread_resume thread s;
     b \<leftarrow> is_schedulable thread s;
     (return_now, s) \<leftarrow>
       (if b then do {
          t \<leftarrow> tcb_at thread s;
          sc \<leftarrow> sched_at (sched t) s;
          sc \<leftarrow> refill_noblock_check (current_time s) sc;
          s \<leftarrow> sched_put (sched t) sc s;
          c \<leftarrow> tcb_at (current_thread s) s;
          if sched_prior t < sched_prior c then do {
            s \<leftarrow> sched_dequeue thread s;
            s \<leftarrow> sched_enqueue thread s;
            Some (True, s) }
          else do {
            s \<leftarrow> tcb_upd (current_thread s) (\<lambda>c. c\<lparr>yield := thread\<rparr>) s;
            s \<leftarrow> sched_dequeue thread s;
            s \<leftarrow> sched_dequeue (current_thread s) s;
            s \<leftarrow> sched_enqueue (current_thread s) s;
            s \<leftarrow> sched_enqueue thread s;
            s \<leftarrow> reschedule_required s;
            Some (False, s) } }
        else Some (True, s));
     if return_now then update_consumed thread s else Some s }"

definition thread_donate :: "ptr \<Rightarrow> ptr \<Rightarrow> kstate \<Rightarrow> kstate option" where
  "thread_donate src dest s = do {
     assertK (src \<noteq> NULL);
     assertK (dest \<noteq> NULL);
     b \<leftarrow> is_schedulable src s;
     b \<leftarrow> (if b then do { d \<leftarrow> is_schedulable dest s; Some (\<not> d) } else Some False);
     s \<leftarrow>
       (if b then do {
          s \<leftarrow> sched_dequeue src s;
          s \<leftarrow> tcb_upd src marktcb_as_not_queued s;
          tcb_upd src (\<lambda>t. t\<lparr>sched := NULL\<rparr>) s }
        else Some s);
     s \<leftarrow> (if src = current_thread s then reschedule_required s else Some s);
     t \<leftarrow> tcb_at dest s;
     sc \<leftarrow> sched_at (sched t) s;
     if refill_max sc > 0 then update_context_schedule dest s else Some s }"

section \<open>Facts\<close>

definition sched_map :: "kstate \<Rightarrow> ptr \<Rightarrow> ptr option" where
  "sched_map s = (\<lambda>p. map_option sched (tcbs s p))"

lemma sched_map_tcbs: "tcbs s' = tcbs s \<Longrightarrow> sched_map s' = sched_map s"
  by (simp add: sched_map_def)

lemma sched_map_tcb_upd: "\<lbrakk>tcb_upd p f s = Some s'; \<And>t. sched (f t) = sched t\<rbrakk> \<Longrightarrow> sched_map s' = sched_map s"
  by (auto simp: tcb_upd_def sched_map_def bind_eq_Some_conv tcb_at_def fun_eq_iff split: if_splits)

lemma sched_map_l1 [simp]: "sched_map (s\<lparr>ready_queues_l1_bitmap := b\<rparr>) = sched_map s"
  "sched_map (s\<lparr>ready_queues_l2_bitmap := c\<rparr>) = sched_map s"
  by (simp_all add: sched_map_def)

lemma sched_map_bitmap:
  "add_to_bitmap d p s = Some s' \<Longrightarrow> sched_map s' = sched_map s"
  "remove_from_bitmap d p s = Some s' \<Longrightarrow> sched_map s' = sched_map s"
  unfolding add_to_bitmap_def remove_from_bitmap_def Let_def
  by (elim bind_SomeE; simp split: if_splits; (elim bind_SomeE)?; auto)+

lemma sched_map_upd [simp]: "sched_map (s\<lparr>ready_queues := q\<rparr>) = sched_map s"
  "sched_map (s\<lparr>scheduler_action := a\<rparr>) = sched_map s"
  by (simp_all add: sched_map_def)

lemma sched_map_link:
  "tcb_upd p (ready_q_prev_update f) s = Some s' \<Longrightarrow> sched_map s' = sched_map s"
  "tcb_upd p (ready_q_next_update f) s = Some s' \<Longrightarrow> sched_map s' = sched_map s"
  "tcb_upd p marktcb_as_queued s = Some s' \<Longrightarrow> sched_map s' = sched_map s"
  "tcb_upd p marktcb_as_not_queued s = Some s' \<Longrightarrow> sched_map s' = sched_map s"
  by (rule sched_map_tcb_upd, assumption, simp add: mark_defs)+

lemma sched_map_enqueue: "sched_enqueue p s = Some s' \<Longrightarrow> sched_map s' = sched_map s"
  unfolding sched_enqueue_def Let_def
  by (auto elim!: bind_SomeE split: if_splits prod.splits dest!: sched_map_bitmap sched_map_link)

lemma sched_map_dequeue: "sched_dequeue p s = Some s' \<Longrightarrow> sched_map s' = sched_map s"
  unfolding sched_dequeue_def Let_def
  by (auto elim!: bind_SomeE split: if_splits prod.splits dest!: sched_map_bitmap sched_map_link)

lemma sched_map_required: "reschedule_required s = Some s' \<Longrightarrow> sched_map s' = sched_map s"
  unfolding reschedule_required_def Let_def
  by (auto elim!: bind_SomeE split: if_splits dest!: sched_map_enqueue sched_map_link)

lemma sched_map_at: "sched_map s p = Some x \<Longrightarrow> tcb_at p s = Some t \<Longrightarrow> sched t = x"
  by (auto simp: sched_map_def tcb_at_def split: if_splits)

lemma has_budget_cong:
  assumes "tcb_at p s = Some t" "tcb_at p s' = Some t'" "sched t' = sched t" "scheds s' = scheds s" "current_time s' = current_time s"
  shows "has_budget p s' = has_budget p s"
proof -
  have e: "is_time_sensitived p s' = is_time_sensitived p s" "sched_of p s' = sched_of p s"
    using assms(1-4) by (simp_all add: is_time_sensitived_def sched_of_def sched_at_def)
  show ?thesis unfolding has_budget_def assms(5) e ..
qed

lemma thread_donate_src_kept:
  assumes "tcb_upd src (\<lambda>t. t\<lparr>sched := NULL\<rparr>) s = Some s'" "sched_map s dest = Some NULL"
  shows "sched_map s' dest = Some NULL"
  using assms by (auto simp: tcb_upd_def sched_map_def elim!: bind_SomeE)

lemma thread_donate_no_context:
  assumes "tcb_at dest s = Some d" "sched d = NULL"
  shows "thread_donate src dest s = None"
proof (rule ccontr)
  assume "thread_donate src dest s \<noteq> None"
  then obtain r where "thread_donate src dest s = Some r" by blast
  then obtain b s1 s2 t sc where st: "(if b then do {
          s \<leftarrow> sched_dequeue src s;
          s \<leftarrow> tcb_upd src marktcb_as_not_queued s;
          tcb_upd src (\<lambda>t. t\<lparr>sched := NULL\<rparr>) s }
        else Some s) = Some s1" "(if src = current_thread s1 then reschedule_required s1 else Some s1) = Some s2"
      "tcb_at dest s2 = Some t" "sched_at (sched t) s2 = Some sc"
    unfolding thread_donate_def by (elim bind_SomeE) blast
  have "sched_map s dest = Some NULL" using assms tcb_at_SomeD[OF assms(1)] by (simp add: sched_map_def)
  then have "sched_map s1 dest = Some NULL"
    using st(1) by (auto elim!: bind_SomeE split: if_splits dest!: sched_map_dequeue sched_map_link intro: thread_donate_src_kept)
  then have "sched_map s2 dest = Some NULL"
    using st(2) by (auto split: if_splits dest: sched_map_required)
  then have "sched t = NULL" using st(3) by (rule sched_map_at)
  then show False using st(4) by simp
qed

text \<open>The table of threads does not depend on the links, states and contexts of the threads.\<close>

lemma table_ok_cong:
  assumes "table_ok s ts" "record_threads s' = record_threads s" "record_thread_count s' = record_thread_count s"
    and "\<And>p. p \<in> set ts \<Longrightarrow> tcb_at p s' = tcb_at p s"
  shows "table_ok s' ts"
proof -
  have m: "map (tid_of s') ts = map (tid_of s) ts" using assms(4) by (simp add: tid_of_def)
  show ?thesis using assms unfolding table_ok_def m by simp
qed

section \<open>Properties\<close>

text \<open>
  Donating to a thread without a scheduling context never returns: \<open>thread_donate\<close> takes the context away from
  the source but does not give it to the destination, and then dereferences the context of the destination.
\<close>
theorem thread_donate_faults:
  assumes "tcb_at dest s = Some d" "sched d = NULL"
  shows "thread_donate src dest s = None"
  using assms by (rule thread_donate_no_context)

theorem thread_donate_faults_witness:
  "thread_donate 100 200 (state_ex [100 \<mapsto> blank_tcb\<lparr>sched := 300\<rparr>, 200 \<mapsto> blank_tcb]) = None"
  by (rule thread_donate_faults[of _ _ blank_tcb]) (simp_all add: tcb_at_def blank_tcb_def)

text \<open>
  C30: A thread that waits for its start is marked as started and as queued and put at the front of the queue of its
  priority; the scheduler invariant is kept.
\<close>
theorem prepare_start_thread_queues:
  assumes "sched_inv s Q R" "tcb_at p s = Some t" "obj_state t = state_restart_state" "thread_home t i" "unqueued Q R p"
    and "has_budget p s = Some True"
  shows "\<exists>s' t'. prepare_start_thread p s = Some s' \<and> sched_inv s' (Q(i := p # Q i)) R \<and> tcb_at p s' = Some t'
    \<and> is_thread_queued t'"
proof -
  let ?t = "marktcb_as_started t"
  obtain s1 where s1: "tcb_upd p marktcb_as_started s = Some s1" "sched_inv s1 Q R" "tcb_at p s1 = Some ?t"
    "s1 = s\<lparr>tcbs := (tcbs s)(p \<mapsto> ?t)\<rparr>"
    using tcb_upd_mark[OF assms(1,2), of marktcb_as_started] by auto
  have st: "obj_state ?t = 0" using assms(3) by (simp add: mark_defs state_bits)
  have same: "sched ?t = sched t" "scheds s1 = scheds s" "current_time s1 = current_time s" by (simp_all add: mark_defs s1(4))
  have b: "has_budget p s1 = Some True"
    using has_budget_cong[OF assms(2) s1(3) same] assms(6) by simp
  have home: "thread_home ?t i" using assms(4) qview_home[of ?t t i] by simp
  obtain s2 s3 c where "tcb_upd p marktcb_as_queued s1 = Some s2" "sched_enqueue p s2 = Some s3"
    "sched_inv s3 (Q(i := p # Q i)) R" "tcb_at p s3 = Some c" "is_thread_queued c"
    using put_back[OF s1(2,3) home assms(5) b] by blast
  moreover have "\<not> has_thread_started t" "\<not> is_thread_queued ?t" "is_thread_ready ?t"
    using assms(3) st by (simp_all add: state_preds state_bits Let_def)
  ultimately show ?thesis
    using assms(2) s1(1,3) by (simp add: prepare_start_thread_def add_to_ready_q_def)
qed

theorem prepare_start_thread_queues_witness:
  "\<exists>s'. prepare_start_thread 100 (state_ex [100 \<mapsto> blank_tcb\<lparr>sched_prior := word_of_nat 5, obj_state := state_restart_state\<rparr>]) = Some s'
     \<and> sched_inv s' ((\<lambda>_. [])(5 := [100])) []"
proof -
  let ?t = "blank_tcb\<lparr>sched_prior := word_of_nat 5, obj_state := state_restart_state\<rparr>"
  have "thread_home ?t 5" using thread_home_blank[of 5] qview_home[of ?t "blank_tcb\<lparr>sched_prior := word_of_nat 5\<rparr>" 5] by simp
  then show ?thesis
    using prepare_start_thread_queues[OF state_ex_inv, of 100 "[100 \<mapsto> ?t]" ?t 5]
    by (auto simp: tcb_at_def unqueued_def has_budget_def is_time_sensitived_def blank_tcb_def)
qed



text \<open>
  Freeing a registered thread is a use after free: \<open>thread_free\<close> reads the scheduling context of the thread after
  the thread itself has been freed.
\<close>
theorem thread_free_faults:
  assumes "p \<in> fst ` set (d_objects s)"
  shows "thread_free p s = None"
proof (cases "d_object_free p s")
  case (Some s1)
  moreover have "d_object_find p s \<noteq> None"
    using assms by (auto simp: d_object_find_def find_None_iff)
  ultimately have "tcbs s1 p = None"
    by (auto simp: d_object_free_def drop_object_def elim!: bind_SomeE)
  then show ?thesis using Some by (simp add: thread_free_def tcb_at_def)
qed (simp add: thread_free_def)

theorem thread_free_faults_witness:
  "thread_free 100 (table_ex\<lparr>d_objects := [(100, obj_thread_obj), (300, obj_sched_context_obj)]\<rparr>) = None"
  by (rule thread_free_faults) simp

end
