(* ===== verification/Ipc.thy ===== *)
theory Ipc
  imports Thread_Context
begin

text \<open>
  Inter process communication, \<^verbatim>\<open>src/object/ipc.c\<close> and \<^verbatim>\<open>inc/object/ipc.h\<close>: the transfer of message registers,
  sending to and receiving from a message node, signals, and their cancellation.

  The record \<open>item_env\<close> holds what the transfer of typed items takes from elsewhere: the indeterminate contents of the
  local variable \<^verbatim>\<open>gmsc_item_cur\<close> in each round, and the operations on address spaces
  (\<^verbatim>\<open>src/object/anode.c\<close>) and interrupts (\<^verbatim>\<open>src/object/interrupt.c\<close>).  The transfer is proved for any such operations.
\<close>

unbundle bit_operations_syntax

section \<open>Message registers\<close>

datatype exception = EXCEPTION_NONE | EXCEPTION_FAULT | EXCEPTION_LOOKUP_FAULT | EXCEPTION_SYSCALL_ERROR
  | EXCEPTION_PREEMPTED

definition MESSAGE_REGISTER_NUM :: word_t where
  "MESSAGE_REGISTER_NUM = 16"

definition STRING_ITEM :: word_t where
  "STRING_ITEM = BIT 3"

definition MAP_ITEM :: word_t where
  "MAP_ITEM = BIT 3"

definition GRANT_ITEM :: word_t where
  "GRANT_ITEM = BIT 3 OR BIT 1"

definition CTRLXFER_ITEM :: word_t where
  "CTRLXFER_ITEM = BIT 3 OR BIT 2"

definition IPC_MSG_OVERFLOW :: word_t where
  "IPC_MSG_OVERFLOW = BIT 22"

definition message_get_tag_u :: "word_t \<Rightarrow> word_t" where
  "message_get_tag_u tag = tag AND MASK 6"

definition message_get_tag_t :: "word_t \<Rightarrow> word_t" where
  "message_get_tag_t tag = drop_bit 6 tag AND MASK 6"

definition message_get_encode :: "word_t \<times> word_t \<Rightarrow> word_t" where
  "message_get_encode item = fst item AND 0xF"

definition message_get_base :: "word_t \<times> word_t \<Rightarrow> word_t" where
  "message_get_base item = fst item AND NOT 0x3FF"

definition message_get_page :: "word_t \<times> word_t \<Rightarrow> word_t" where
  "message_get_page item = drop_bit 4 (snd item AND NOT 0xF)"

definition message_get_right :: "word_t \<times> word_t \<Rightarrow> word_t" where
  "message_get_right item = snd item AND 0xF"

definition message_get_length :: "word_t \<times> word_t \<Rightarrow> word_t" where
  "message_get_length item = drop_bit 10 (fst item AND NOT 0x3FF)"

definition message_get_address :: "word_t \<times> word_t \<Rightarrow> word_t" where
  "message_get_address item = snd item"

definition message_get_id :: "word_t \<times> word_t \<Rightarrow> word_t" where
  "message_get_id item = drop_bit 4 (fst item AND 0xFF0)"

definition message_get_mask :: "word_t \<times> word_t \<Rightarrow> word_t" where
  "message_get_mask item = drop_bit 12 (fst item AND NOT 0xFFF)"

definition message_get_reg :: "word_t \<times> word_t \<Rightarrow> word_t" where
  "message_get_reg item = snd item"

definition load_message_registers :: "ptr \<Rightarrow> word_t \<Rightarrow> kstate \<Rightarrow> word_t option" where
  "load_message_registers from msg_num s = do {
     t \<leftarrow> tcb_at from s;
     if msg_num = 0 then arr_get (callee_saved_mr t) (5 :: word_t)
     else if msg_num = 1 then arr_get (callee_saved_mr t) (6 :: word_t)
     else if msg_num = 2 then arr_get (callee_saved_mr t) (7 :: word_t)
     else do {
       u \<leftarrow> utcb_at (user t) s;
       arr_get (utcb_mr u) (msg_num - 8) } }"

definition store_callee :: "ptr \<Rightarrow> word_t \<Rightarrow> word_t \<Rightarrow> kstate \<Rightarrow> kstate option" where
  "store_callee to i v s = do {
     t \<leftarrow> tcb_at to s;
     mr \<leftarrow> arr_set (callee_saved_mr t) i v;
     tcb_upd to (\<lambda>t. t\<lparr>callee_saved_mr := mr\<rparr>) s }"

definition store_message_registers :: "ptr \<Rightarrow> word_t \<Rightarrow> word_t \<Rightarrow> kstate \<Rightarrow> kstate option" where
  "store_message_registers to msg_num msg_data s =
     (if msg_num = 0 then store_callee to 5 msg_data s
      else if msg_num = 1 then store_callee to 6 msg_data s
      else if msg_num = 2 then store_callee to 7 msg_data s
      else do {
        t \<leftarrow> tcb_at to s;
        u \<leftarrow> utcb_at (user t) s;
        mr \<leftarrow> arr_set (utcb_mr u) (msg_num - 8) msg_data;
        utcb_put (user t) (u\<lparr>utcb_mr := mr\<rparr>) s })"

section \<open>Message transfer\<close>

record item_env =
  junk :: "word_t \<Rightarrow> word_t \<times> word_t"
  do_map_page :: "ptr \<Rightarrow> word_t \<Rightarrow> word_t \<Rightarrow> word_t \<Rightarrow> kstate \<Rightarrow> kstate option"
  do_guard_page :: "ptr \<Rightarrow> ptr \<Rightarrow> word_t \<Rightarrow> word_t \<Rightarrow> word_t \<Rightarrow> kstate \<Rightarrow> kstate option"
  do_map_string :: "ptr \<Rightarrow> word_t \<Rightarrow> word_t \<Rightarrow> kstate \<Rightarrow> kstate option"
  do_control_registers :: "ptr \<Rightarrow> word_t \<Rightarrow> word_t \<Rightarrow> word_t \<Rightarrow> kstate \<Rightarrow> kstate option"
  interrupt_request :: "ptr \<Rightarrow> kstate \<Rightarrow> kstate option"
  interrupt_respond :: "ptr \<Rightarrow> kstate \<Rightarrow> kstate option"

definition item_action :: "item_env \<Rightarrow> ptr \<Rightarrow> ptr \<Rightarrow> word_t \<times> word_t \<Rightarrow> kstate \<Rightarrow> kstate option" where
  "item_action env s_thread r_thread item s = do {
     let enc = message_get_encode item;
     s \<leftarrow> (if enc = MAP_ITEM then
             do_map_page env r_thread (message_get_base item) (message_get_page item) (message_get_right item) s
           else Some s);
     s \<leftarrow> (if enc = GRANT_ITEM then
             do_guard_page env s_thread r_thread (message_get_base item) (message_get_page item) (message_get_right item) s
           else Some s);
     s \<leftarrow> (if enc = STRING_ITEM then
             do_map_string env r_thread (message_get_length item) (message_get_address item) s
           else Some s);
     if enc = CTRLXFER_ITEM then
       do_control_registers env r_thread (message_get_id item) (message_get_mask item) (message_get_reg item) s
     else Some s }"

text \<open>The loop over the untyped words: the code advances the bound, not the index.\<close>

partial_function (option) untyped_loop :: "ptr \<Rightarrow> ptr \<Rightarrow> word_t \<Rightarrow> word_t \<Rightarrow> kstate \<Rightarrow> kstate option" where
  "untyped_loop s_thread r_thread index bound s =
     (if index < bound then do {
        w \<leftarrow> load_message_registers s_thread index s;
        s \<leftarrow> store_message_registers r_thread index w s;
        untyped_loop s_thread r_thread index (bound + 1) s }
      else Some s)"

declare untyped_loop.simps [code]

partial_function (option) typed_loop :: "item_env \<Rightarrow> ptr \<Rightarrow> ptr \<Rightarrow> word_t \<Rightarrow> word_t \<Rightarrow> bool \<Rightarrow> kstate \<Rightarrow> kstate option" where
  "typed_loop env s_thread r_thread index bound second s =
     (if index < bound then do {
        w \<leftarrow> load_message_registers s_thread index s;
        let item = (if second then (fst (junk env index), w) else (w, snd (junk env index)));
        s \<leftarrow> store_message_registers r_thread index (if second then fst item else snd item) s;
        s \<leftarrow> (if second then item_action env s_thread r_thread item s else Some s);
        typed_loop env s_thread r_thread (index + 1) bound (\<not> second) s }
      else Some s)"

declare typed_loop.simps [code]

definition message_exchange :: "item_env \<Rightarrow> ptr \<Rightarrow> ptr \<Rightarrow> kstate \<Rightarrow> (exception \<times> kstate) option" where
  "message_exchange env s_thread r_thread s = do {
     assertK (s_thread \<noteq> NULL \<and> r_thread \<noteq> NULL);
     tag \<leftarrow> load_message_registers s_thread 0 s;
     let untyped_item_last = message_get_tag_u tag + 1;
     let gmsc_item_last = message_get_tag_t tag + untyped_item_last;
     if gmsc_item_last > MESSAGE_REGISTER_NUM then do {
       let s = s\<lparr>current_kernel_status_code := IPC_MSG_OVERFLOW\<rparr>;
       s \<leftarrow> set_thread_state s_thread state_queued_state s;
       s \<leftarrow> set_thread_state r_thread state_queued_state s;
       Some (EXCEPTION_FAULT, s) }
     else do {
       s \<leftarrow> store_message_registers r_thread 0 tag s;
       s \<leftarrow> untyped_loop s_thread r_thread 1 untyped_item_last s;
       s \<leftarrow> typed_loop env s_thread r_thread 1 gmsc_item_last False s;
       Some (EXCEPTION_NONE, s) } }"

section \<open>Nodes\<close>

definition message_node_alloc :: "ptr \<Rightarrow> kstate \<Rightarrow> (ptr \<times> kstate) option" where
  "message_node_alloc thread s = do {
     let (node, s) = d_object_alloc obj_message_obj s;
     if node = NULL then Some (NULL, s)
     else do {
       s \<leftarrow> tcb_upd thread (\<lambda>t. t\<lparr>message_node := node\<rparr>) s;
       Some (node, s) } }"

definition message_node_free :: "ptr \<Rightarrow> kstate \<Rightarrow> kstate option" where
  "message_node_free thread s = do {
     t \<leftarrow> tcb_at thread s;
     s \<leftarrow> d_object_free (message_node t) s;
     tcb_upd thread (\<lambda>t. t\<lparr>message_node := NULL\<rparr>) s }"

definition notifation_node_alloc :: "ptr \<Rightarrow> kstate \<Rightarrow> (ptr \<times> kstate) option" where
  "notifation_node_alloc thread s = do {
     let (node, s) = d_object_alloc obj_notification_obj s;
     if node = NULL then Some (NULL, s)
     else do {
       s \<leftarrow> tcb_upd thread (\<lambda>t. t\<lparr>notifation_node := node\<rparr>) s;
       Some (node, s) } }"

definition notifation_node_free :: "ptr \<Rightarrow> kstate \<Rightarrow> kstate option" where
  "notifation_node_free thread s = do {
     t \<leftarrow> tcb_at thread s;
     s \<leftarrow> d_object_free (notifation_node t) s;
     tcb_upd thread (\<lambda>t. t\<lparr>notifation_node := NULL\<rparr>) s }"

section \<open>Signals\<close>

definition cancel_signal :: "ptr \<Rightarrow> ptr \<Rightarrow> kstate \<Rightarrow> kstate option" where
  "cancel_signal thread node s = do {
     n \<leftarrow> notifation_at node s;
     assertK (ntf_state n = notifation_state_wait \<and> thread \<noteq> NULL \<and> node \<noteq> NULL);
     (queue, s) \<leftarrow> message_dequeue thread (ntf_queue n) s;
     s \<leftarrow> notifation_put node (n\<lparr>ntf_queue := queue,
            ntf_state := (if head queue = NULL then notifation_state_idle else ntf_state n)\<rparr>) s;
     set_thread_state thread state_restart_state s }"

definition complete_signal :: "ptr \<Rightarrow> ptr \<Rightarrow> kstate \<Rightarrow> kstate option" where
  "complete_signal thread node s = do {
     assertK (thread \<noteq> NULL \<and> node \<noteq> NULL);
     n \<leftarrow> notifation_at node s;
     if thread \<noteq> NULL \<and> ntf_state n = notifation_state_active then do {
       s \<leftarrow> notifation_put node (n\<lparr>ntf_state := notifation_state_idle\<rparr>) s;
       tcb_upd thread (\<lambda>t. t\<lparr>notifation_node := node\<rparr>) s }
     else Some s }"

definition cancel_ipc :: "ptr \<Rightarrow> kstate \<Rightarrow> kstate option" where
  "cancel_ipc thread s = do {
     assertK (thread \<noteq> NULL);
     state \<leftarrow> get_thread_object_state thread s;
     if state = state_send_blocked_state \<or> state = state_recv_blocked_state then do {
       node \<leftarrow> get_thread_state_object thread s;
       m \<leftarrow> message_at node s;
       assertK (msg_state m \<noteq> message_state_idle);
       (queue, s) \<leftarrow> message_dequeue thread (msg_queue m) s;
       s \<leftarrow> message_put node (m\<lparr>msg_queue := queue,
              msg_state := (if head queue = NULL then message_state_idle else msg_state m)\<rparr>) s;
       set_thread_state thread state_restart_state s }
     else if state = state_notify_blocked_state then do {
       t \<leftarrow> tcb_at thread s;
       cancel_signal thread (notifation_node t) s }
     else Some s }"

definition possible_donate_context :: "ptr \<Rightarrow> ptr \<Rightarrow> kstate \<Rightarrow> kstate option" where
  "possible_donate_context thread node s = do {
     t \<leftarrow> tcb_at thread s;
     if sched t = NULL then do {
       n \<leftarrow> notifation_at node s;
       if bindedtcb n \<noteq> NULL then do {
         s \<leftarrow> thread_donate (bindedtcb n) thread s;
         t \<leftarrow> tcb_at thread s;
         sc \<leftarrow> sched_at (sched t) s;
         sc \<leftarrow> refill_noblock_check (current_time s) sc;
         s \<leftarrow> sched_put (sched t) sc s;
         thread_resume thread s }
       else Some s }
     else Some s }"

definition possible_reset_context :: "ptr \<Rightarrow> ptr \<Rightarrow> kstate \<Rightarrow> kstate option" where
  "possible_reset_context thread node s = do {
     n \<leftarrow> notifation_at node s;
     b \<leftarrow> tcb_at (bindedtcb n) s;
     t \<leftarrow> tcb_at thread s;
     if sched b = sched t then tcb_upd thread (\<lambda>t. t\<lparr>sched := NULL\<rparr>) s else Some s }"

text \<open>A signal to an active node prints the identifier of an uninitialised thread pointer, which is a fault.\<close>

definition send_signal :: "ptr \<Rightarrow> kstate \<Rightarrow> kstate option" where
  "send_signal node s = do {
     assertK (node \<noteq> NULL);
     n \<leftarrow> notifation_at node s;
     let thread = bindedtcb n;
     case ntf_state n of
       notifation_state_idle \<Rightarrow>
         if thread \<noteq> NULL then do {
           t \<leftarrow> tcb_at thread s;
           if obj_state t = state_recv_blocked_state then do {
             s \<leftarrow> cancel_ipc thread s;
             s \<leftarrow> set_thread_state thread state_queued_state s;
             s \<leftarrow> possible_donate_context thread node s;
             b \<leftarrow> is_schedulable thread s;
             if b then possible_switchto thread s else Some s }
           else notifation_put node (n\<lparr>ntf_state := notifation_state_active\<rparr>) s }
         else notifation_put node (n\<lparr>ntf_state := notifation_state_active\<rparr>) s
     | notifation_state_wait \<Rightarrow> do {
         let dest = head (ntf_queue n);
         assertK (dest \<noteq> NULL);
         (queue, s) \<leftarrow> message_dequeue dest (ntf_queue n) s;
         s \<leftarrow> notifation_put node (n\<lparr>ntf_queue := queue,
                ntf_state := (if head queue = NULL then notifation_state_idle else ntf_state n)\<rparr>) s;
         s \<leftarrow> tcb_upd dest (\<lambda>t. t\<lparr>notifation_node := node\<rparr>) s;
         s \<leftarrow> set_thread_state dest state_queued_state s;
         s \<leftarrow> possible_donate_context thread node s;
         b \<leftarrow> is_schedulable dest s;
         if b then possible_switchto dest s else Some s }
     | notifation_state_active \<Rightarrow> None }"

definition recevie_signal :: "ptr \<Rightarrow> ptr \<Rightarrow> bool \<Rightarrow> kstate \<Rightarrow> kstate option" where
  "recevie_signal thread node blocking s = do {
     assertK (thread \<noteq> NULL);
     assertK (node \<noteq> NULL);
     n \<leftarrow> notifation_at node s;
     if ntf_state n = notifation_state_active then do {
       s \<leftarrow> notifation_put node (n\<lparr>ntf_state := notifation_state_idle\<rparr>) s;
       possible_donate_context thread node s }
     else if blocking then do {
       s \<leftarrow> set_thread_state thread state_notify_blocked_state s;
       s \<leftarrow> possible_reset_context thread node s;
       s \<leftarrow> schedule_tcb thread s;
       n \<leftarrow> notifation_at node s;
       (queue, s) \<leftarrow> message_append thread (ntf_queue n) s;
       s \<leftarrow> notifation_put node (n\<lparr>ntf_state := notifation_state_wait, ntf_queue := queue\<rparr>) s;
       tcb_upd thread (\<lambda>t. t\<lparr>notifation_node := node\<rparr>) s }
     else Some s }"

section \<open>Sending and receiving\<close>

text \<open>What both directions do with the partner of a waiting thread and with a thread that has to wait.\<close>

definition take_waiting :: "ptr \<Rightarrow> message \<Rightarrow> kstate \<Rightarrow> (ptr \<times> kstate) option" where
  "take_waiting node m s = do {
     let partner = head (msg_queue m);
     assertK (partner \<noteq> NULL);
     (queue, s) \<leftarrow> message_dequeue partner (msg_queue m) s;
     s \<leftarrow> message_put node (m\<lparr>msg_queue := queue,
            msg_state := (if head queue = NULL then message_state_idle else msg_state m)\<rparr>) s;
     Some (partner, s) }"

definition wait_at :: "ptr \<Rightarrow> ptr \<Rightarrow> word_t \<Rightarrow> message_state \<Rightarrow> kstate \<Rightarrow> kstate option" where
  "wait_at thread node ts st s = do {
     s \<leftarrow> set_thread_state thread ts s;
     s \<leftarrow> set_thread_state_object thread node s;
     s \<leftarrow> schedule_tcb thread s;
     m \<leftarrow> message_at node s;
     (queue, s) \<leftarrow> message_append thread (msg_queue m) s;
     message_put node (m\<lparr>msg_state := st, msg_queue := queue\<rparr>) s }"

definition send_ipc :: "item_env \<Rightarrow> ptr \<Rightarrow> bool \<Rightarrow> bool \<Rightarrow> ptr \<Rightarrow> kstate \<Rightarrow> kstate option" where
  "send_ipc env thread blocking candonate node s = do {
     assertK (thread \<noteq> NULL);
     assertK (node \<noteq> NULL);
     m \<leftarrow> message_at node s;
     if msg_state m = message_state_recv then do {
       (r_thread, s) \<leftarrow> take_waiting node m s;
       (e, s) \<leftarrow> message_exchange env thread r_thread s;
       if e = EXCEPTION_NONE then do {
         r \<leftarrow> tcb_at r_thread s;
         s \<leftarrow> (if candonate \<and> sched r = NULL then thread_donate thread r_thread s else Some s);
         r \<leftarrow> tcb_at r_thread s;
         (if sched r = NULL then Some ()
          else do {
            sc \<leftarrow> sched_at (sched r) s;
            suf \<leftarrow> refill_sufficient sc 0;
            assertK suf;
            rdy \<leftarrow> refill_ready (current_time s) sc;
            assertK rdy });
         s \<leftarrow> set_thread_state r_thread state_queued_state s;
         possible_switchto r_thread s }
       else Some s }
     else if blocking then wait_at thread node state_send_blocked_state message_state_send s
     else Some s }"

definition receive_ipc :: "item_env \<Rightarrow> ptr \<Rightarrow> bool \<Rightarrow> ptr \<Rightarrow> kstate \<Rightarrow> kstate option" where
  "receive_ipc env thread blocking node s = do {
     assertK (thread \<noteq> NULL);
     assertK (node \<noteq> NULL);
     t \<leftarrow> tcb_at thread s;
     active \<leftarrow> (if notifation_node t = NULL then Some False
               else do { n \<leftarrow> notifation_at (notifation_node t) s; Some (ntf_state n = notifation_state_active) });
     if active then complete_signal thread (notifation_node t) s
     else do {
       m \<leftarrow> message_at node s;
       if msg_state m = message_state_send then do {
         (s_thread, s) \<leftarrow> take_waiting node m s;
         (e, s) \<leftarrow> message_exchange env s_thread thread s;
         if e = EXCEPTION_NONE then do {
           s \<leftarrow> set_thread_state s_thread state_queued_state s;
           s \<leftarrow> possible_switchto s_thread s;
           p \<leftarrow> tcb_at s_thread s;
           (if sched p = NULL then Some ()
            else do {
              sc \<leftarrow> sched_at (sched p) s;
              suf \<leftarrow> refill_sufficient sc 0;
              assertK suf });
           Some s }
         else Some s }
       else if blocking then wait_at thread node state_recv_blocked_state message_state_recv s
       else Some s } }"

section \<open>The system call\<close>

definition GLOBALID_NILTHREAD :: word_t where
  "GLOBALID_NILTHREAD = 0"

definition GLOBALID_ANYTHREAD :: word_t where
  "GLOBALID_ANYTHREAD = 0xFFFFFFFF"

definition TID_TO_GLOBALID :: "word_t \<Rightarrow> word_t" where
  "TID_TO_GLOBALID tid = push_bit 14 tid"

definition id_irq_request_id :: word_t where
  "id_irq_request_id = 6"

definition id_irq_ack_id :: word_t where
  "id_irq_ack_id = 7"

definition IPC_NOT_EXIST :: word_t where
  "IPC_NOT_EXIST = BIT 20"

definition TCR_INVAL_PARA :: word_t where
  "TCR_INVAL_PARA = BIT 4"

definition priv_fastipc_priv :: word_t where
  "priv_fastipc_priv = 0"

type_synonym half_t = "16 word"

definition message_time_period_m :: "half_t \<Rightarrow> word_t" where
  "message_time_period_m t = ucast t AND MASK 10"

definition message_time_period_e :: "half_t \<Rightarrow> word_t" where
  "message_time_period_e t = drop_bit 10 (ucast t) AND MASK 5"

definition exchange_ipc_timeout :: "half_t \<Rightarrow> kstate \<Rightarrow> kstate option" where
  "exchange_ipc_timeout t s =
     set_deadline (us_to_ticks (ucast (push_bit (unat (message_time_period_e t)) (message_time_period_m t))))
       (current_thread s) s"

definition ipc_error :: "word_t \<Rightarrow> kstate \<Rightarrow> (exception \<times> word_t option \<times> kstate) option" where
  "ipc_error code s = Some (EXCEPTION_SYSCALL_ERROR, None, s\<lparr>current_syscall_error_code := code\<rparr>)"

partial_function (option) receive_any :: "item_env \<Rightarrow> word_t \<Rightarrow> ptr \<Rightarrow> half_t \<Rightarrow> word_t \<Rightarrow> kstate
    \<Rightarrow> (exception \<times> word_t option \<times> kstate) option" where
  "receive_any env recv_gid r_thread recv_timeout thread_index s =
     (if thread_index < record_thread_count s then do {
        s_thread \<leftarrow> arr_get (record_threads s) thread_index;
        if s_thread = NULL then ipc_error TCR_INVAL_PARA s
        else do {
          state \<leftarrow> get_thread_object_state s_thread s;
          if state = state_send_blocked_state then do {
            s \<leftarrow> (if recv_timeout \<noteq> 0 then exchange_ipc_timeout recv_timeout s else Some s);
            p \<leftarrow> tcb_at s_thread s;
            s \<leftarrow> receive_ipc env (if recv_gid \<noteq> GLOBALID_NILTHREAD then r_thread else current_thread s) True (message_node p) s;
            p \<leftarrow> tcb_at s_thread s;
            Some (EXCEPTION_NONE, Some (thread_id p), s) }
          else receive_any env recv_gid r_thread recv_timeout (thread_index + 1) s } }
      else Some (EXCEPTION_NONE, None, s))"

declare receive_any.simps [code]

text \<open>
  The phases of \<open>do_exchange_ipc\<close>.  \<open>Inl\<close> is an early return of the whole function, \<open>Inr\<close> the state
  with which it goes on.  The identifier that the code writes to \<^verbatim>\<open>*send_any_gid\<close> is the second component of
  the result.  In the mask of the receive timeout the shift binds tighter than the conjunction, as in the code.
\<close>

definition ipc_check :: "word_t \<Rightarrow> word_t \<Rightarrow> half_t \<Rightarrow> kstate
    \<Rightarrow> ((exception \<times> word_t option \<times> kstate) + kstate) option" where
  "ipc_check recv_gid send_gid wait_timeout s = do {
     r \<leftarrow>
       (if recv_gid = GLOBALID_NILTHREAD \<and> send_gid = GLOBALID_NILTHREAD then
          if wait_timeout \<noteq> 0 then map_option Inr (exchange_ipc_timeout wait_timeout s)
          else do {
            s \<leftarrow> set_thread_state (current_thread s) state_restart_state s;
            map_option Inl (ipc_error IPC_NOT_EXIST s) }
        else Some (Inr s));
     case r of Inl e \<Rightarrow> Some (Inl e)
     | Inr s \<Rightarrow>
         if recv_gid = GLOBALID_ANYTHREAD \<and> send_gid = GLOBALID_ANYTHREAD then do {
           s \<leftarrow> set_thread_state (current_thread s) state_restart_state s;
           map_option Inl (ipc_error IPC_NOT_EXIST s) }
         else Some (Inr s) }"

definition ipc_send_phase :: "item_env \<Rightarrow> word_t \<Rightarrow> word_t \<Rightarrow> ptr \<Rightarrow> ptr \<Rightarrow> half_t \<Rightarrow> kstate
    \<Rightarrow> ((exception \<times> word_t option \<times> kstate) + kstate) option" where
  "ipc_send_phase env recv_gid send_gid r_thread s_thread send_timeout s =
     (if recv_gid = GLOBALID_NILTHREAD then Some (Inr s)
      else if recv_gid = TID_TO_GLOBALID id_irq_request_id then do {
        s \<leftarrow> interrupt_request env (current_thread s) s;
        Some (Inl (EXCEPTION_NONE, None, s)) }
      else if r_thread = NULL then map_option Inl (ipc_error TCR_INVAL_PARA s)
      else if send_gid \<noteq> GLOBALID_NILTHREAD then
        if s_thread = NULL then map_option Inl (ipc_error TCR_INVAL_PARA s)
        else do {
          (e, s) \<leftarrow> message_exchange env s_thread r_thread s;
          Some (Inl (EXCEPTION_NONE, None, s)) }
      else do {
        s \<leftarrow> (if send_timeout \<noteq> 0 then exchange_ipc_timeout send_timeout s else Some s);
        r \<leftarrow> tcb_at r_thread s;
        map_option Inr (send_ipc env (current_thread s) True True (message_node r) s) })"

definition ipc_recv_phase :: "item_env \<Rightarrow> word_t \<Rightarrow> ptr \<Rightarrow> half_t \<Rightarrow> kstate
    \<Rightarrow> ((exception \<times> word_t option \<times> kstate) + kstate) option" where
  "ipc_recv_phase env send_gid s_thread recv_timeout s =
     (if send_gid = GLOBALID_NILTHREAD then Some (Inr s)
      else if send_gid = TID_TO_GLOBALID id_irq_ack_id then do {
        s \<leftarrow> interrupt_respond env (current_thread s) s;
        Some (Inl (EXCEPTION_NONE, None, s)) }
      else if s_thread = NULL then map_option Inl (ipc_error TCR_INVAL_PARA s)
      else do {
        s \<leftarrow> (if recv_timeout \<noteq> 0 then exchange_ipc_timeout recv_timeout s else Some s);
        p \<leftarrow> tcb_at s_thread s;
        map_option Inr (receive_ipc env (current_thread s) True (message_node p) s) })"

definition do_exchange_ipc :: "item_env \<Rightarrow> word_t \<Rightarrow> word_t \<Rightarrow> word_t \<Rightarrow> kstate
    \<Rightarrow> (exception \<times> word_t option \<times> kstate) option" where
  "do_exchange_ipc env recv_gid send_gid timeout s = do {
     r_thread \<leftarrow> get_thread recv_gid s;
     s_thread \<leftarrow> get_thread send_gid s;
     let send_timeout = ucast (timeout AND 0x0000FFFF);
     let recv_timeout = ucast (timeout AND drop_bit 16 0xFFFF0000);
     let wait_timeout = ucast timeout;
     r \<leftarrow> ipc_check recv_gid send_gid wait_timeout s;
     case r of Inl e \<Rightarrow> Some e | Inr s \<Rightarrow> do {
       r \<leftarrow> ipc_send_phase env recv_gid send_gid r_thread s_thread send_timeout s;
       case r of Inl e \<Rightarrow> Some e | Inr s \<Rightarrow> do {
         r \<leftarrow> ipc_recv_phase env send_gid s_thread recv_timeout s;
         case r of Inl e \<Rightarrow> Some e | Inr s \<Rightarrow>
           if send_gid = GLOBALID_ANYTHREAD then receive_any env recv_gid r_thread recv_timeout 0 s
           else Some (EXCEPTION_NONE, None, s) } } }"

definition syscall_exchange_ipc :: "word_t \<Rightarrow> word_t \<Rightarrow> word_t \<Rightarrow> ptr \<Rightarrow> kstate \<Rightarrow> (exception \<times> kstate) option" where
  "syscall_exchange_ipc recv_gid send_gid timeout send_any_gid s = do {
     s \<leftarrow> update_timestamp False s;
     (is_sufficient, s) \<leftarrow> check_budget_restart s;
     if is_sufficient then do {
       let s = s\<lparr>fastipc_caller := \<lparr>fastipc_receive = recv_gid, fastipc_send = send_gid, fastipc_timeout = timeout,
                fastipc_anysend = send_any_gid\<rparr>, scheduler_action := SCHEDULER_ACTION_CHOOSE_PRIV_THREAD\<rparr>;
       s \<leftarrow> set_privilege_status priv_fastipc_priv priv_ready_priv s;
       s \<leftarrow> schedule s;
       s \<leftarrow> reschedule_unlocked s;
       Some (EXCEPTION_NONE, s) }
     else Some (EXCEPTION_FAULT, s) }"

section \<open>The privilege thread\<close>

text \<open>
  One turn of the endless loop of \<^verbatim>\<open>privilege_thread_entry\<close>: serve the requests that are ready, start again as long
  as there are new ones, then give up the processor.  The monitors do nothing.
\<close>

definition priv_blocked_priv :: word_t where
  "priv_blocked_priv = 1"

definition priv_end_priv :: word_t where
  "priv_end_priv = 3"

definition privilege_serve :: "item_env \<Rightarrow> word_t \<Rightarrow> kstate \<Rightarrow> kstate option" where
  "privilege_serve env p_type s = do {
     st \<leftarrow> get_privilege_status p_type s;
     if st = priv_ready_priv then do {
       s \<leftarrow> (if p_type = priv_fastipc_priv then do {
               let c = fastipc_caller s;
               (_, _, s) \<leftarrow> do_exchange_ipc env (fastipc_receive c) (fastipc_send c) (fastipc_timeout c) s;
               Some s }
             else Some s);
       set_privilege_status p_type priv_blocked_priv s }
     else Some s }"

fun privilege_check :: "item_env \<Rightarrow> word_t list \<Rightarrow> kstate \<Rightarrow> kstate option" where
  "privilege_check env [] s = Some s"
| "privilege_check env (p # ps) s = do { s \<leftarrow> privilege_serve env p s; privilege_check env ps s }"

fun privilege_pending :: "word_t list \<Rightarrow> kstate \<Rightarrow> bool option" where
  "privilege_pending [] s = Some False"
| "privilege_pending (p # ps) s = do {
     st \<leftarrow> get_privilege_status p s;
     if st = priv_ready_priv then Some True else privilege_pending ps s }"

definition privilege_types :: "word_t list" where
  "privilege_types = map word_of_nat [0..<unat priv_end_priv]"

partial_function (option) privilege_retry :: "item_env \<Rightarrow> kstate \<Rightarrow> kstate option" where
  "privilege_retry env s = do {
     s \<leftarrow> privilege_check env privilege_types s;
     again \<leftarrow> privilege_pending privilege_types s;
     if again then privilege_retry env s else Some s }"

declare privilege_retry.simps [code]

definition privilege_turn :: "item_env \<Rightarrow> kstate \<Rightarrow> kstate option" where
  "privilege_turn env s = do {
     s \<leftarrow> privilege_retry env s;
     s \<leftarrow> reschedule_required s;
     s \<leftarrow> schedule s;
     reschedule_unlocked s }"

section \<open>Facts\<close>

subsection \<open>Registers\<close>

definition mr_set :: "ptr \<Rightarrow> nat \<Rightarrow> word_t \<Rightarrow> kstate \<Rightarrow> kstate" where
  "mr_set p i w s = (case tcbs s p of None \<Rightarrow> s
     | Some t \<Rightarrow> s\<lparr>tcbs := (tcbs s)(p \<mapsto> t\<lparr>callee_saved_mr := (callee_saved_mr t)[i := w]\<rparr>)\<rparr>)"

definition regs_ok :: "ptr \<Rightarrow> kstate \<Rightarrow> bool" where
  "regs_ok p s \<longleftrightarrow> (case tcb_at p s of None \<Rightarrow> False | Some t \<Rightarrow> length (callee_saved_mr t) = 8)"

lemma regs_okE: "\<lbrakk>regs_ok p s; \<And>t. \<lbrakk>tcb_at p s = Some t; p \<noteq> NULL; tcbs s p = Some t; length (callee_saved_mr t) = 8\<rbrakk> \<Longrightarrow> P\<rbrakk> \<Longrightarrow> P"
  using tcb_at_SomeD[of p s] by (auto simp: regs_ok_def split: option.splits)

lemma regs_ok_mr_set [simp]: "regs_ok q (mr_set p i w s) = regs_ok q s"
  by (auto simp: regs_ok_def mr_set_def tcb_at_def split: option.splits)

lemma store_register:
  assumes "regs_ok p s"
  shows "store_message_registers p 0 w s = Some (mr_set p 5 w s)" "store_message_registers p 1 w s = Some (mr_set p 6 w s)"
    "store_message_registers p 2 w s = Some (mr_set p 7 w s)"
  using assms by (auto simp: store_message_registers_def store_callee_def mr_set_def arr_set_def tcb_upd_def elim!: regs_okE)

lemma load_register:
  assumes "regs_ok p s"
  shows "load_message_registers p 0 s = Some (callee_saved_mr (the (tcbs s p)) ! 5)"
    "load_message_registers p 1 s = Some (callee_saved_mr (the (tcbs s p)) ! 6)"
    "load_message_registers p 2 s = Some (callee_saved_mr (the (tcbs s p)) ! 7)"
  using assms by (auto simp: load_message_registers_def elim!: regs_okE)

lemma mr_set_twice [simp]: "mr_set p i w (mr_set p i v s) = mr_set p i w s"
  by (auto simp: mr_set_def split: option.splits)

text \<open>The bound of the loop over the untyped words grows until it wraps round to zero.\<close>

lemma untyped_loop_idle:
  assumes "load_message_registers a 1 s = Some w" "store_message_registers r 1 w s = Some s"
  shows "untyped_loop a r 1 b s = Some s"
proof (induction "2 ^ 32 - unat b" arbitrary: b rule: less_induct)
  case less
  show ?case
  proof (cases "1 < b")
    case True
    have "untyped_loop a r 1 (b + 1) s = Some s"
    proof (cases "unat b + 1 < 2 ^ 32")
      case True
      then have "unat (b + 1) = unat b + 1" by (rule unat_succ)
      then show ?thesis using True by (intro less) simp
    next
      case False
      then have "unat b = 2 ^ 32 - 1" using unat_bound32[of b] by simp
      then have "unat (b + 1) = 0" by (simp add: unat_word_ariths)
      then have "b + 1 = 0" by (simp only: unat_eq_zero)
      then show ?thesis by (subst untyped_loop.simps) simp
    qed
    then show ?thesis using assms True by (subst untyped_loop.simps) simp
  next
    case False
    then show ?thesis by (subst untyped_loop.simps) simp
  qed
qed

lemma untyped_loop_once:
  assumes "regs_ok a s" "regs_ok r s" "1 < b"
  shows "untyped_loop a r 1 b s = Some (mr_set r 6 (callee_saved_mr (the (tcbs s a)) ! 6) s)"
proof -
  let ?w = "callee_saved_mr (the (tcbs s a)) ! 6" and ?s = "mr_set r 6 (callee_saved_mr (the (tcbs s a)) ! 6) s"
  have "callee_saved_mr (the (tcbs ?s a)) ! 6 = ?w"
    using assms(1,2) by (auto simp: mr_set_def elim!: regs_okE)
  then have "load_message_registers a 1 ?s = Some ?w" "store_message_registers r 1 ?w ?s = Some ?s"
    using assms by (simp_all add: load_register store_register)
  then have "untyped_loop a r 1 (b + 1) ?s = Some ?s" by (rule untyped_loop_idle)
  then show ?thesis using assms by (subst untyped_loop.simps) (simp add: load_register store_register)
qed

subsection \<open>Transfer\<close>

definition message_words :: "word_t \<Rightarrow> nat" where
  "message_words tag = unat (message_get_tag_u tag) + unat (message_get_tag_t tag)"

definition tag_of :: "ptr \<Rightarrow> kstate \<Rightarrow> word_t" where
  "tag_of p s = callee_saved_mr (the (tcbs s p)) ! 5"

lemma mask6_bound: "unat (x AND MASK 6 :: word_t) \<le> 63"
proof -
  have "x AND MASK 6 \<le> (63 :: word_t)" using word_and_le1[of x "63 :: word_t"] by (simp add: MASK_def BIT_def)
  then show ?thesis by (simp add: word_le_nat_alt)
qed

lemma tag_bounds: "unat (message_get_tag_u tag) \<le> 63" "unat (message_get_tag_t tag) \<le> 63"
  by (simp_all add: message_get_tag_u_def message_get_tag_t_def mask6_bound)

lemma unat_item_last:
  "unat (message_get_tag_u tag + 1) = unat (message_get_tag_u tag) + 1"
  "unat (message_get_tag_t tag + (message_get_tag_u tag + 1)) = message_words tag + 1"
proof -
  show *: "unat (message_get_tag_u tag + 1) = unat (message_get_tag_u tag) + 1"
    using tag_bounds(1)[of tag] by (intro unat_succ) simp
  show "unat (message_get_tag_t tag + (message_get_tag_u tag + 1)) = message_words tag + 1"
    using tag_bounds[of tag] by (subst unat_plus_no_overflow) (simp_all add: * message_words_def)
qed

lemma too_long_iff:
  "message_get_tag_t tag + (message_get_tag_u tag + 1) > MESSAGE_REGISTER_NUM \<longleftrightarrow> message_words tag > 15"
  unfolding word_less_nat_alt unat_item_last by (simp add: MESSAGE_REGISTER_NUM_def)

lemma typed_loop_end: "\<not> i < b \<Longrightarrow> typed_loop env a r i b f s = Some s"
  by (subst typed_loop.simps) simp

lemma typed_loop_first:
  assumes "regs_ok a s" "regs_ok r s" "1 < b"
  shows "typed_loop env a r 1 b False s = typed_loop env a r 2 b True (mr_set r 6 (snd (junk env 1)) s)"
  using assms by (subst typed_loop.simps) (simp add: load_register store_register)

lemma after_untyped:
  assumes "regs_ok a s" "regs_ok r s"
  shows "\<exists>s'. untyped_loop a r 1 b s = Some s' \<and> regs_ok a s' \<and> regs_ok r s' \<and> utcbs s' = utcbs s
    \<and> (\<forall>w. mr_set r 6 w s' = mr_set r 6 w s) \<and> (\<not> 1 < b \<longrightarrow> s' = s)"
proof (cases "1 < b")
  case True
  have "utcbs (mr_set r 6 v s) = utcbs s" for v by (simp add: mr_set_def split: option.split)
  then show ?thesis using untyped_loop_once[OF assms True] assms True by simp
next
  case False
  then show ?thesis using assms by (subst untyped_loop.simps) simp
qed

lemma message_exchange_start:
  assumes "regs_ok a s" "regs_ok r s" "message_words (tag_of a s) \<le> 15"
  shows "\<exists>s'. message_exchange env a r s = map_option (Pair EXCEPTION_NONE) (typed_loop env a r 1
        (message_get_tag_t (tag_of a s) + (message_get_tag_u (tag_of a s) + 1)) False s')
    \<and> regs_ok a s' \<and> regs_ok r s' \<and> utcbs s' = utcbs s
    \<and> (\<forall>w. mr_set r 6 w s' = mr_set r 6 w (mr_set r 5 (tag_of a s) s))
    \<and> (message_words (tag_of a s) = 0 \<longrightarrow> s' = mr_set r 5 (tag_of a s) s)"
proof -
  let ?tag = "tag_of a s" and ?s = "mr_set r 5 (tag_of a s) s"
  have ok: "regs_ok a ?s" "regs_ok r ?s" using assms by simp_all
  have ut: "utcbs ?s = utcbs s" by (simp add: mr_set_def split: option.split)
  obtain s' where s': "untyped_loop a r 1 (message_get_tag_u ?tag + 1) ?s = Some s'" "regs_ok a s'" "regs_ok r s'"
    "utcbs s' = utcbs ?s" "\<forall>w. mr_set r 6 w s' = mr_set r 6 w ?s" "\<not> 1 < message_get_tag_u ?tag + 1 \<longrightarrow> s' = ?s"
    using after_untyped[OF ok, of "message_get_tag_u ?tag + 1"] by blast
  have nn: "a \<noteq> NULL" "r \<noteq> NULL" using assms by (auto elim!: regs_okE)
  have tag: "load_message_registers a 0 s = Some ?tag" using load_register(1)[OF assms(1)] by (simp add: tag_of_def)
  have "\<not> message_get_tag_t ?tag + (message_get_tag_u ?tag + 1) > MESSAGE_REGISTER_NUM"
    unfolding too_long_iff using assms(3) by simp
  then have "message_exchange env a r s = map_option (Pair EXCEPTION_NONE) (typed_loop env a r 1
        (message_get_tag_t ?tag + (message_get_tag_u ?tag + 1)) False s')"
    using nn s'(1) store_register(1)[OF assms(2)]
    by (simp add: message_exchange_def tag Let_def map_conv_bind_option comp_def)
  moreover have "message_words ?tag = 0 \<longrightarrow> s' = ?s"
    using s'(6) by (auto simp: message_words_def word_less_nat_alt unat_item_last)
  ultimately show ?thesis using s'(2-5) ut by auto
qed

lemma message_exchange_tag:
  assumes "regs_ok a s" "regs_ok r s" "message_words (tag_of a s) = 0"
  shows "message_exchange env a r s = Some (EXCEPTION_NONE, mr_set r 5 (tag_of a s) s)"
proof -
  have "\<not> 1 < message_get_tag_t (tag_of a s) + (message_get_tag_u (tag_of a s) + 1)"
    using assms(3) by (simp add: word_less_nat_alt unat_item_last)
  then show ?thesis
    using message_exchange_start[OF assms(1,2), of env] assms(3) by (auto simp: typed_loop_end)
qed

lemma message_exchange_word:
  assumes "regs_ok a s" "regs_ok r s" "message_words (tag_of a s) = 1"
  shows "message_exchange env a r s
    = Some (EXCEPTION_NONE, mr_set r 6 (snd (junk env 1)) (mr_set r 5 (tag_of a s) s))"
proof -
  let ?b = "message_get_tag_t (tag_of a s) + (message_get_tag_u (tag_of a s) + 1)"
  obtain s' where s': "message_exchange env a r s = map_option (Pair EXCEPTION_NONE) (typed_loop env a r 1 ?b False s')"
    "regs_ok a s'" "regs_ok r s'" "\<forall>w. mr_set r 6 w s' = mr_set r 6 w (mr_set r 5 (tag_of a s) s)"
    using message_exchange_start[OF assms(1,2), of env] assms(3) by auto
  have "1 < ?b" "\<not> 2 < ?b" using assms(3) by (simp_all add: word_less_nat_alt unat_item_last)
  then show ?thesis using s'(4) by (simp add: s'(1) typed_loop_first[OF s'(2,3)] typed_loop_end)
qed

text \<open>
  The register blocks of user threads are arrays of eight words.  What the operations on address spaces do is not part
  of this development; a fixed size array keeps its size.
\<close>

definition utcbs_ok :: "kstate \<Rightarrow> bool" where
  "utcbs_ok s \<longleftrightarrow> (\<forall>p u. utcbs s p = Some u \<longrightarrow> length (utcb_mr u) = 8)"

definition env_keeps_utcbs :: "item_env \<Rightarrow> bool" where
  "env_keeps_utcbs env \<longleftrightarrow> (\<forall>a r item s s'. item_action env a r item s = Some s' \<longrightarrow> utcbs_ok s \<longrightarrow> utcbs_ok s')"

lemma load_high_register: "utcbs_ok s \<Longrightarrow> load_message_registers p 3 s = None"
proof -
  assume ok: "utcbs_ok s"
  have "\<not> (- 5 :: word_t) < 8" by simp
  then have u: "\<not> unat (- 5 :: word_t) < 8" unfolding word_less_nat_alt by simp
  have "arr_get (utcb_mr u) (- 5 :: word_t) = None" if "utcb_at q s = Some u" for q u
    using ok that u by (auto simp: utcbs_ok_def utcb_at_def arr_get_def split: if_splits)
  then show ?thesis
    by (cases "tcb_at p s"; cases "utcb_at (user (the (tcb_at p s))) s") (auto simp: load_message_registers_def)
qed

lemma typed_loop_long:
  assumes "regs_ok a s" "regs_ok r s" "3 < b" "utcbs_ok s" "env_keeps_utcbs env"
  shows "typed_loop env a r 1 b False s = None"
proof -
  let ?s = "mr_set r 6 (snd (junk env 1)) s"
  have b: "1 < b" "2 < b" using assms(3) by (auto simp: word_less_nat_alt)
  have ok: "regs_ok a ?s" "regs_ok r ?s" using assms by simp_all
  have end3: "typed_loop env a r 3 b False s' = None" if "utcbs_ok s'" for s'
    using assms(3) load_high_register[OF that] by (subst typed_loop.simps) simp
  let ?i = "(fst (junk env 2), callee_saved_mr (the (tcbs ?s a)) ! 7)" and ?t = "mr_set r 7 (fst (junk env 2)) ?s"
  have "utcbs_ok ?t" using assms(4) by (simp add: utcbs_ok_def mr_set_def split: option.splits)
  then have "utcbs_ok s'" if "item_action env a r ?i ?t = Some s'" for s'
    using assms(5) that unfolding env_keeps_utcbs_def by blast
  then have "item_action env a r ?i ?t \<bind> typed_loop env a r 3 b False = None"
    using end3 by (cases "item_action env a r ?i ?t") auto
  then have "typed_loop env a r 2 b True ?s = None"
    using b(2) ok by (subst typed_loop.simps) (simp add: load_register store_register)
  then show ?thesis using typed_loop_first[OF assms(1,2) b(1)] by simp
qed

subsection \<open>Thread states\<close>

definition context_ok :: "ptr \<Rightarrow> kstate \<Rightarrow> bool" where
  "context_ok p s \<longleftrightarrow> (case tcb_at p s of None \<Rightarrow> False | Some t \<Rightarrow> sched t = NULL \<or> sched_at (sched t) s \<noteq> None)"

lemma schedule_tcb_shape:
  assumes "tcb_at p s = Some t" "\<not> is_runnable t \<or> context_ok p s"
  shows "\<exists>a. schedule_tcb p s = Some (s\<lparr>scheduler_action := a\<rparr>)"
proof -
  have "\<exists>b. is_schedulable p s = Some b"
    using assms by (auto simp: is_schedulable_def context_ok_def)
  then obtain b where "is_schedulable p s = Some b" by blast
  moreover have "\<exists>a. s = s\<lparr>scheduler_action := a\<rparr>" by (rule exI[of _ "scheduler_action s"]) simp
  ultimately show ?thesis
    by (auto simp: schedule_tcb_def reschedule_required_def Let_def)
qed

lemma set_thread_state_shape:
  assumes "tcb_at p s = Some t" "ts AND state_queued_state \<noteq> state_queued_state \<or> context_ok p s"
  shows "\<exists>a. set_thread_state p ts s = Some (s\<lparr>tcbs := (tcbs s)(p \<mapsto> t\<lparr>obj_state := ts\<rparr>), scheduler_action := a\<rparr>)"
proof -
  let ?s = "s\<lparr>tcbs := (tcbs s)(p \<mapsto> t\<lparr>obj_state := ts\<rparr>)\<rparr>"
  have nn: "p \<noteq> NULL" using assms(1) by auto
  have "tcb_at p ?s = Some (t\<lparr>obj_state := ts\<rparr>)" using nn by simp
  moreover have "\<not> is_runnable (t\<lparr>obj_state := ts\<rparr>) \<or> context_ok p ?s"
    using assms nn by (auto simp: is_runnable_def context_ok_def sched_at_def)
  ultimately show ?thesis
    using schedule_tcb_shape[of p ?s] nn by (simp add: set_thread_state_def tcb_upd_Some[OF assms(1)])
qed

subsection \<open>Waiting\<close>

lemma mq_rep_cong:
  assumes "mq_rep s q xs" "tcbs s p = Some t" "tcbs s' = (tcbs s)(p \<mapsto> t')"
    and "mesg_q_next t' = mesg_q_next t" "mesg_q_prev t' = mesg_q_prev t"
  shows "mq_rep s' q xs"
proof -
  have "mnext s' = mnext s" "mprev s' = mprev s" using assms(2-5) by (auto simp: link_def fun_eq_iff)
  then show ?thesis using assms(1-3) by (auto simp: mq_rep_def tcb_at_def)
qed

lemma same_view_state:
  assumes "tcbs s p = Some t" "qview t' = qview t"
  shows "same_view s (s\<lparr>tcbs := (tcbs s)(p \<mapsto> t'), scheduler_action := a\<rparr>)"
  using assms by (simp add: same_view_def)

lemma not_queued_states:
  "state_send_blocked_state AND state_queued_state \<noteq> state_queued_state"
  "state_recv_blocked_state AND state_queued_state \<noteq> state_queued_state"
  "state_notify_blocked_state AND state_queued_state \<noteq> state_queued_state"
  "state_restart_state AND state_queued_state \<noteq> state_queued_state"
  by (simp_all add: state_bits BIT_def)

lemma message_put_ok:
  "message_at node s = Some m \<Longrightarrow> message_put node m' s = Some (s\<lparr>messages := (messages s)(node \<mapsto> m')\<rparr>)"
  by (auto simp: message_put_def message_at_def split: if_splits)

lemma wait_at_ok:
  assumes "sched_inv s Q R" "tcb_at p s = Some t" "message_at node s = Some m" "mq_rep s (msg_queue m) xs" "p \<notin> set xs"
    and "ts AND state_queued_state \<noteq> state_queued_state"
  shows "\<exists>s' m' t'. wait_at p node ts st s = Some s' \<and> message_at node s' = Some m' \<and> msg_state m' = st
    \<and> mq_rep s' (msg_queue m') (xs @ [p]) \<and> tcb_at p s' = Some t' \<and> obj_state t' = ts \<and> obj_ptr t' = node \<and> sched_inv s' Q R"
proof -
  note p = tcb_at_SomeD[OF assms(2)]
  let ?t = "t\<lparr>obj_state := ts, obj_ptr := node\<rparr>"
  obtain a where s1: "set_thread_state p ts s = Some (s\<lparr>tcbs := (tcbs s)(p \<mapsto> t\<lparr>obj_state := ts\<rparr>), scheduler_action := a\<rparr>)"
    using set_thread_state_shape[OF assms(2)] assms(6) by blast
  let ?s2 = "\<lambda>a. s\<lparr>tcbs := (tcbs s)(p \<mapsto> ?t), scheduler_action := a\<rparr>"
  have s2: "set_thread_state_object p node (s\<lparr>tcbs := (tcbs s)(p \<mapsto> t\<lparr>obj_state := ts\<rparr>), scheduler_action := a\<rparr>) = Some (?s2 a)"
    using p by (simp add: set_thread_state_object_def tcb_upd_def tcb_at_def)
  have t2: "tcb_at p (?s2 a) = Some ?t" for a using p by (simp add: tcb_at_def)
  obtain b where s3: "schedule_tcb p (?s2 a) = Some (?s2 b)"
    using schedule_tcb_shape[OF t2] assms(6) by (auto simp: is_runnable_def)
  have m3: "message_at node (?s2 b) = Some m" using assms(3) by (simp add: message_at_def split: if_splits)
  have q3: "mq_rep (?s2 b) (msg_queue m) xs" by (rule mq_rep_cong[OF assms(4), of p t _ ?t]) (use p in simp_all)
  obtain q' s4 where s4: "message_append p (msg_queue m) (?s2 b) = Some (q', s4)" "mq_rep s4 q' (xs @ [p])"
    "mq_frame (insert p (set xs)) (?s2 b) s4"
    using message_append_rep[OF q3 t2 assms(5)] by blast
  have m4: "message_at node s4 = Some m" using m3 mq_frame_heaps(1)[OF s4(3)] by (simp add: message_at_def split: if_splits)
  obtain t4 where t4: "tcb_at p s4 = Some t4" "mcore t4 = mcore ?t" using mq_frame_tcb[OF s4(3) t2] by blast
  have f: "obj_state t4 = ts" "obj_ptr t4 = node"
    using arg_cong[OF t4(2), of obj_state] arg_cong[OF t4(2), of obj_ptr] by (simp_all add: mcore_def)
  let ?m = "m\<lparr>msg_state := st, msg_queue := q'\<rparr>" and ?s = "s4\<lparr>messages := (messages s4)(node \<mapsto> m\<lparr>msg_state := st, msg_queue := q'\<rparr>)\<rparr>"
  have "wait_at p node ts st s = Some ?s"
    using s1 s2 s3 m3 s4(1) message_put_ok[OF m4] by (simp add: wait_at_def)
  moreover have "sched_inv ?s Q R"
  proof -
    have "sched_inv (?s2 b) Q R"
      by (rule sched_inv_view[OF assms(1) same_view_state[of s p t]]) (use p in \<open>simp_all add: qview_def\<close>)
    from sched_inv_view[OF this mq_frame_view[OF s4(3)]] show ?thesis
      by (rule sched_inv_view) (simp add: same_view_def)
  qed
  moreover have "message_at node ?s = Some ?m" using m4 by (auto simp: message_at_def split: if_splits)
  moreover have "mq_rep ?s (msg_queue ?m) (xs @ [p])" using s4(2) by (simp add: mq_rep_def)
  ultimately show ?thesis using t4(1) f by (intro exI[of _ ?s] exI[of _ ?m] exI[of _ t4]) simp
qed

lemma mq_rep_empty: "mq_rep s q xs \<Longrightarrow> head q = NULL \<longleftrightarrow> xs = []"
  using dll_empty_iff unfolding mq_rep_def by blast

lemma cancel_ipc_ok:
  assumes "sched_inv s Q R" "tcb_at p s = Some t" "obj_state t \<in> {state_send_blocked_state, state_recv_blocked_state}"
    and "message_at (obj_ptr t) s = Some m" "msg_state m \<noteq> message_state_idle" "mq_rep s (msg_queue m) xs" "p \<in> set xs"
  shows "\<exists>s' m' t'. cancel_ipc p s = Some s' \<and> message_at (obj_ptr t) s' = Some m' \<and> mq_rep s' (msg_queue m') (remove1 p xs)
    \<and> msg_state m' = (if remove1 p xs = [] then message_state_idle else msg_state m)
    \<and> tcb_at p s' = Some t' \<and> obj_state t' = state_restart_state \<and> sched_inv s' Q R"
proof -
  note p = tcb_at_SomeD[OF assms(2)]
  obtain q' s1 where s1: "message_dequeue p (msg_queue m) s = Some (q', s1)" "mq_rep s1 q' (remove1 p xs)"
    "mq_frame (set xs - {p}) s s1"
    using message_dequeue_rep[OF assms(6,7)] by blast
  let ?st = "if head q' = NULL then message_state_idle else msg_state m"
  let ?m = "m\<lparr>msg_queue := q', msg_state := ?st\<rparr>"
  let ?s1 = "s1\<lparr>messages := (messages s1)(obj_ptr t \<mapsto> ?m)\<rparr>"
  have m1: "message_at (obj_ptr t) s1 = Some m"
    using assms(4) mq_frame_heaps(1)[OF s1(3)] by (simp add: message_at_def split: if_splits)
  have t1: "tcb_at p ?s1 = Some t" using p s1(3) by (simp add: mq_frame_def tcb_at_def)
  obtain a where s2: "set_thread_state p state_restart_state ?s1
      = Some (?s1\<lparr>tcbs := (tcbs ?s1)(p \<mapsto> t\<lparr>obj_state := state_restart_state\<rparr>), scheduler_action := a\<rparr>)"
    using set_thread_state_shape[OF t1] not_queued_states(4) by blast
  let ?s = "?s1\<lparr>tcbs := (tcbs ?s1)(p \<mapsto> t\<lparr>obj_state := state_restart_state\<rparr>), scheduler_action := a\<rparr>"
  have "cancel_ipc p s = Some ?s"
    using assms(2-5) p s1(1) message_put_ok[OF m1] s2
    by (auto simp: cancel_ipc_def get_thread_object_state_def get_thread_state_object_def)
  moreover have "message_at (obj_ptr t) ?s = Some ?m" using m1 by (auto simp: message_at_def split: if_splits)
  moreover have "mq_rep ?s (msg_queue ?m) (remove1 p xs)"
    by (rule mq_rep_cong[of ?s1 _ _ p t _ "t\<lparr>obj_state := state_restart_state\<rparr>"])
      (use s1(2) tcb_at_SomeD[OF t1] in \<open>simp_all add: mq_rep_def\<close>)
  moreover have "sched_inv ?s Q R"
    by (rule sched_inv_view[OF sched_inv_view[OF sched_inv_view[OF assms(1) mq_frame_view[OF s1(3)]], of ?s1]
          same_view_state[of ?s1 p t]]) (use tcb_at_SomeD[OF t1] in \<open>simp_all add: qview_def same_view_def\<close>)
  ultimately show ?thesis
    using p mq_rep_empty[OF s1(2)] by (intro exI[of _ ?s] exI[of _ ?m]) (simp add: tcb_at_def)
qed

lemma mq_frame_regs:
  assumes "mq_frame X s s'"
  shows "regs_ok p s' = regs_ok p s" "tcbs s p \<noteq> None \<Longrightarrow> tag_of p s' = tag_of p s"
proof -
  have m: "map_option mcore (tcbs s' p) = map_option mcore (tcbs s p)" using assms by (simp add: mq_frame_def)
  have c: "callee_saved_mr (mcore t) = callee_saved_mr t" for t by (simp add: mcore_def)
  have "map_option callee_saved_mr (tcbs s' p) = map_option callee_saved_mr (tcbs s p)"
    using arg_cong[OF m, of "map_option callee_saved_mr"] by (simp add: option.map_comp comp_def c)
  then show "regs_ok p s' = regs_ok p s" "tcbs s p \<noteq> None \<Longrightarrow> tag_of p s' = tag_of p s"
    by (cases "tcbs s' p"; cases "tcbs s p"; simp add: regs_ok_def tcb_at_def tag_of_def)+
qed

lemma message_exchange_short:
  assumes "regs_ok a s" "regs_ok r s" "message_words (tag_of a s) \<le> 1" "tcb_at r s = Some t"
  shows "\<exists>s' t'. message_exchange env a r s = Some (EXCEPTION_NONE, s') \<and> tcb_at r s' = Some t' \<and> sched t' = sched t"
proof -
  note r = tcb_at_SomeD[OF assms(4)]
  consider "message_words (tag_of a s) = 0" | "message_words (tag_of a s) = 1" using assms(3) by linarith
  then show ?thesis
  proof cases
    case 1
    then show ?thesis using message_exchange_tag[OF assms(1,2)] r by (simp add: mr_set_def tcb_at_def)
  next
    case 2
    then show ?thesis using message_exchange_word[OF assms(1,2)] r by (simp add: mr_set_def tcb_at_def)
  qed
qed

lemma take_waiting_ok:
  assumes "message_at node s = Some m" "mq_rep s (msg_queue m) (r # xs)"
  shows "\<exists>s1 q. take_waiting node m s = Some (r, s1\<lparr>messages := (messages s)(node \<mapsto> m\<lparr>msg_queue := q,
      msg_state := (if xs = [] then message_state_idle else msg_state m)\<rparr>)\<rparr>) \<and> mq_frame (set xs) s s1 \<and> mq_rep s1 q xs"
proof -
  obtain q s1 where s1: "message_dequeue r (msg_queue m) s = Some (q, s1)" "mq_rep s1 q xs" "mq_frame (set (r # xs) - {r}) s s1"
    using message_dequeue_rep[OF assms(2), of r] by auto
  have d: "dll (mnext s) (mprev s) (msg_queue m) (r # xs)" using assms(2) by (simp add: mq_rep_def)
  then have "head (msg_queue m) = r" "r \<noteq> NULL" "distinct (r # xs)"
    using dll_head[OF d] dll_not_NULL[OF d, of r] dll_distinct[OF d] by auto
  moreover have "message_at node s1 = Some m"
    using assms(1) mq_frame_heaps(1)[OF s1(3)] by (simp add: message_at_def split: if_splits)
  ultimately show ?thesis
    using s1 mq_rep_empty[OF s1(2)] mq_frame_heaps(1)[OF s1(3)]
    by (intro exI[of _ s1] exI[of _ q]) (simp add: take_waiting_def message_put_ok)
qed

lemma send_ipc_no_context:
  assumes "message_at node s = Some m" "msg_state m = message_state_recv" "mq_rep s (msg_queue m) (r # xs)"
    and "regs_ok a s" "regs_ok r s" "message_words (tag_of a s) \<le> 1" "tcb_at r s = Some t" "sched t = NULL"
  shows "send_ipc env a blocking True node s = None"
proof -
  obtain s1 q where s1: "take_waiting node m s = Some (r, s1\<lparr>messages := (messages s)(node \<mapsto> m\<lparr>msg_queue := q,
      msg_state := (if xs = [] then message_state_idle else msg_state m)\<rparr>)\<rparr>)" "mq_frame (set xs) s s1"
    using take_waiting_ok[OF assms(1,3)] by blast
  let ?s1 = "s1\<lparr>messages := (messages s)(node \<mapsto> m\<lparr>msg_queue := q,
      msg_state := (if xs = [] then message_state_idle else msg_state m)\<rparr>)\<rparr>"
  have a: "tcbs s a \<noteq> None" "a \<noteq> NULL" "node \<noteq> NULL" using assms(1,4) by (auto simp: message_at_def elim!: regs_okE split: if_splits)
  have ok: "regs_ok a ?s1" "regs_ok r ?s1" "tag_of a ?s1 = tag_of a s"
    using mq_frame_regs(1)[OF s1(2), of a] mq_frame_regs(1)[OF s1(2), of r] mq_frame_regs(2)[OF s1(2) a(1)] assms(4,5)
    by (simp_all add: regs_ok_def tag_of_def)
  obtain t1 where t1: "tcb_at r ?s1 = Some t1" "mcore t1 = mcore t" using mq_frame_tcb[OF s1(2) assms(7)] by auto
  have "sched t1 = NULL" using arg_cong[OF t1(2), of sched] assms(8) by (simp add: mcore_def)
  then obtain s2 t2 where s2: "message_exchange env a r ?s1 = Some (EXCEPTION_NONE, s2)" "tcb_at r s2 = Some t2" "sched t2 = NULL"
    using message_exchange_short[OF ok(1,2) _ t1(1), of env] assms(6) ok(3) by auto
  then show ?thesis
    using assms(1,2) s1(1) a thread_donate_no_context[OF s2(2,3)] by (simp add: send_ipc_def)
qed

subsection \<open>The privilege thread\<close>

lemma privilege_types_list: "privilege_types = [0, 1, 2]"
  by (simp add: privilege_types_def priv_end_priv_def upt_rec)

lemma privilege_check_monitors:
  assumes "privilege_thread_status s = [x, y, z]" "x \<noteq> priv_ready_priv"
  shows "privilege_check env privilege_types s = Some (s\<lparr>privilege_thread_status :=
    [x, if y = priv_ready_priv then priv_blocked_priv else y, if z = priv_ready_priv then priv_blocked_priv else z]\<rparr>)"
proof -
  have "s\<lparr>privilege_thread_status := [x, y, z]\<rparr> = s" using assms(1) by simp
  then show ?thesis using assms
    by (simp add: privilege_types_list privilege_serve_def get_privilege_status_def set_privilege_status_def
        priv_fastipc_priv_def arr_get_def arr_set_def)
qed

section \<open>Properties\<close>

text \<open>Concrete threads for the witnesses: the sender 100 with a message tag, the receiver 200, a user block at 300.\<close>

definition no_items :: item_env where
  "no_items = \<lparr>junk = (\<lambda>_. (0, 0)), do_map_page = (\<lambda>_ _ _ _. Some), do_guard_page = (\<lambda>_ _ _ _ _. Some),
     do_map_string = (\<lambda>_ _ _. Some), do_control_registers = (\<lambda>_ _ _ _. Some), interrupt_request = (\<lambda>_. Some),
     interrupt_respond = (\<lambda>_. Some)\<rparr>"

definition ipc_ex_tcbs :: "word_t \<Rightarrow> ptr \<Rightarrow> ktcb option" where
  "ipc_ex_tcbs tag = [100 \<mapsto> blank_tcb\<lparr>callee_saved_mr := [0, 0, 0, 0, 0, tag, 7, 9]\<rparr>, 200 \<mapsto> blank_tcb]"

definition ipc_ex :: "word_t \<Rightarrow> kstate" where
  "ipc_ex tag = (state_ex (ipc_ex_tcbs tag))
     \<lparr>messages := [64 \<mapsto> \<lparr>msg_state = message_state_idle, msg_queue = \<lparr>head = 0, tail = 0\<rparr>\<rparr>,
        72 \<mapsto> \<lparr>msg_state = message_state_recv, msg_queue = \<lparr>head = 200, tail = 200\<rparr>\<rparr>],
      notifations := [80 \<mapsto> \<lparr>ntf_state = notifation_state_idle, ntf_queue = \<lparr>head = 0, tail = 0\<rparr>, bindedtcb = 0\<rparr>]\<rparr>"

lemma ipc_ex_regs: "regs_ok 100 (ipc_ex tag)" "regs_ok 200 (ipc_ex tag)" "tag_of 100 (ipc_ex tag) = tag"
  by (simp_all add: ipc_ex_def ipc_ex_tcbs_def regs_ok_def tcb_at_def blank_tcb_def tag_of_def)

lemma ipc_ex_inv: "sched_inv (ipc_ex tag) (\<lambda>_. []) []"
  by (rule sched_inv_view[OF state_ex_inv[of "ipc_ex_tcbs tag"]]) (simp add: ipc_ex_def same_view_def)

lemmas tag_simps = message_words_def message_get_tag_u_def message_get_tag_t_def MASK_def BIT_def

text \<open>
  The loop over the untyped words of a message returns although it advances its bound and not its index: the bound
  wraps round to zero.  The effect is that of copying the first word alone, whatever the number of words.
\<close>
theorem untyped_loop_wraps:
  assumes "regs_ok a s" "regs_ok r s" "1 < b"
  shows "untyped_loop a r 1 b s = Some (mr_set r 6 (callee_saved_mr (the (tcbs s a)) ! 6) s)"
  using assms by (rule untyped_loop_once)

theorem untyped_loop_wraps_witness:
  "untyped_loop 100 200 1 3 (ipc_ex 2) = Some (mr_set 200 6 7 (ipc_ex 2))"
  using untyped_loop_wraps[OF ipc_ex_regs(1,2), of 3] by (simp add: ipc_ex_def ipc_ex_tcbs_def)

text \<open>
  The transfer of a message with one word beside its tag returns without an error, but the receiver gets the tag and
  an indeterminate word: the loop over the typed items starts at the first word again and stores the half of its local
  variable that was not loaded.
\<close>
theorem message_exchange_loses_word:
  assumes "regs_ok a s" "regs_ok r s" "message_words (tag_of a s) = 1"
  shows "message_exchange env a r s
    = Some (EXCEPTION_NONE, mr_set r 6 (snd (junk env 1)) (mr_set r 5 (tag_of a s) s))"
  using assms by (rule message_exchange_word)

theorem message_exchange_loses_word_witness:
  "message_exchange no_items 100 200 (ipc_ex 1) = Some (EXCEPTION_NONE, mr_set 200 6 0 (mr_set 200 5 1 (ipc_ex 1)))"
  using message_exchange_loses_word[OF ipc_ex_regs(1,2), of 1 no_items]
  by (simp add: ipc_ex_regs tag_simps no_items_def)

text \<open>
  The transfer of a message with three to fifteen words beside its tag never returns normally: the fourth message
  register is read at a negative index of the register array of the user block.
\<close>
theorem message_exchange_long_faults:
  assumes "regs_ok a s" "regs_ok r s" "3 \<le> message_words (tag_of a s)" "message_words (tag_of a s) \<le> 15"
    and "utcbs_ok s" "env_keeps_utcbs env"
  shows "message_exchange env a r s = None"
proof -
  let ?b = "message_get_tag_t (tag_of a s) + (message_get_tag_u (tag_of a s) + 1)"
  obtain s' where s': "message_exchange env a r s = map_option (Pair EXCEPTION_NONE) (typed_loop env a r 1 ?b False s')"
    "regs_ok a s'" "regs_ok r s'" "utcbs s' = utcbs s"
    using message_exchange_start[OF assms(1,2,4), of env] by blast
  have "3 < ?b" using assms(3) by (simp add: word_less_nat_alt unat_item_last)
  then have "typed_loop env a r 1 ?b False s' = None"
    using typed_loop_long[OF s'(2,3)] assms(5,6) s'(4) by (simp add: utcbs_ok_def)
  then show ?thesis by (simp add: s'(1))
qed

lemma no_items_keeps: "env_keeps_utcbs no_items"
  by (simp add: env_keeps_utcbs_def item_action_def no_items_def Let_def)

theorem message_exchange_long_faults_witness:
  "message_exchange no_items 100 200 (ipc_ex 3) = None"
proof (rule message_exchange_long_faults[OF ipc_ex_regs(1,2) _ _ _ no_items_keeps])
  show "3 \<le> message_words (tag_of 100 (ipc_ex 3))" "message_words (tag_of 100 (ipc_ex 3)) \<le> 15"
    by (simp_all add: ipc_ex_regs tag_simps)
  show "utcbs_ok (ipc_ex 3)" by (simp add: utcbs_ok_def ipc_ex_def state_ex_def zero_kstate_def)
qed

text \<open>
  A message with more than fifteen words beside its tag is refused: the transfer returns a fault, records the
  overflow, makes both threads runnable again and leaves the registers of the receiver alone.
\<close>
theorem message_exchange_overflow:
  assumes "regs_ok a s" "regs_ok r s" "15 < message_words (tag_of a s)" "context_ok a s" "context_ok r s"
  shows "\<exists>s'. message_exchange env a r s = Some (EXCEPTION_FAULT, s') \<and> current_kernel_status_code s' = IPC_MSG_OVERFLOW
    \<and> tcbs s' = (tcbs s)(a \<mapsto> (the (tcbs s a))\<lparr>obj_state := state_queued_state\<rparr>, r \<mapsto> (the (tcbs s r))\<lparr>obj_state := state_queued_state\<rparr>)"
proof -
  obtain ta tr where t: "tcb_at a s = Some ta" "tcb_at r s = Some tr" "tcbs s a = Some ta" "tcbs s r = Some tr" "a \<noteq> NULL" "r \<noteq> NULL"
    using assms(1,2) by (auto elim!: regs_okE)
  let ?s0 = "s\<lparr>current_kernel_status_code := IPC_MSG_OVERFLOW\<rparr>"
  have t0: "tcb_at a ?s0 = Some ta" "context_ok a ?s0" using t(1,3,5) assms(4) by (simp_all add: tcb_at_def context_ok_def sched_at_def split: if_splits)
  let ?s1 = "\<lambda>x. ?s0\<lparr>tcbs := (tcbs ?s0)(a \<mapsto> ta\<lparr>obj_state := state_queued_state\<rparr>), scheduler_action := x\<rparr>"
  obtain x where s1: "set_thread_state a state_queued_state ?s0 = Some (?s1 x)"
    using set_thread_state_shape[OF t0(1) disjI2[OF t0(2)], of state_queued_state] by blast
  let ?tr = "if r = a then ta\<lparr>obj_state := state_queued_state\<rparr> else tr"
  have t1: "tcb_at r (?s1 x) = Some ?tr" "context_ok r (?s1 x)"
    using t assms(4,5) by (auto simp: tcb_at_def context_ok_def sched_at_def)
  obtain y where s2: "set_thread_state r state_queued_state (?s1 x)
      = Some (?s1 x\<lparr>tcbs := (tcbs (?s1 x))(r \<mapsto> ?tr\<lparr>obj_state := state_queued_state\<rparr>), scheduler_action := y\<rparr>)"
    using set_thread_state_shape[OF t1(1) disjI2[OF t1(2)], of state_queued_state] by blast
  have "load_message_registers a 0 s = Some (tag_of a s)" using load_register(1)[OF assms(1)] by (simp add: tag_of_def)
  moreover have "message_get_tag_t (tag_of a s) + (message_get_tag_u (tag_of a s) + 1) > MESSAGE_REGISTER_NUM"
    unfolding too_long_iff using assms(3) .
  ultimately show ?thesis using s1 s2 t by (cases "r = a") (simp_all add: message_exchange_def Let_def)
qed

theorem message_exchange_overflow_witness:
  "\<exists>s'. message_exchange no_items 100 200 (ipc_ex 20) = Some (EXCEPTION_FAULT, s') \<and> current_kernel_status_code s' = IPC_MSG_OVERFLOW"
proof -
  have "context_ok 100 (ipc_ex 20)" "context_ok 200 (ipc_ex 20)"
    by (simp_all add: context_ok_def ipc_ex_def ipc_ex_tcbs_def tcb_at_def blank_tcb_def)
  moreover have "15 < message_words (tag_of 100 (ipc_ex 20))"
    by (simp add: ipc_ex_regs tag_simps)
  ultimately show ?thesis using message_exchange_overflow[OF ipc_ex_regs(1,2), of 20 no_items] by blast
qed

text \<open>
  C19: A blocking send to a node at which no receiver waits puts the sender behind the waiting senders and blocks it;
  cancelling the operation takes it out again, restores the queue, makes the node idle when nobody else waits, and marks
  the thread for restart.  Both leave the scheduler queues alone.
\<close>
theorem send_then_cancel:
  assumes "sched_inv s Q R" "tcb_at p s = Some t" "message_at node s = Some m" "msg_state m \<noteq> message_state_recv"
    and "mq_rep s (msg_queue m) xs" "p \<notin> set xs"
  shows "\<exists>s1 m1 t1 s2 m2 t2. send_ipc env p True candonate node s = Some s1 \<and> message_at node s1 = Some m1
    \<and> msg_state m1 = message_state_send \<and> mq_rep s1 (msg_queue m1) (xs @ [p])
    \<and> tcb_at p s1 = Some t1 \<and> obj_state t1 = state_send_blocked_state
    \<and> cancel_ipc p s1 = Some s2 \<and> message_at node s2 = Some m2 \<and> mq_rep s2 (msg_queue m2) xs
    \<and> msg_state m2 = (if xs = [] then message_state_idle else message_state_send)
    \<and> tcb_at p s2 = Some t2 \<and> obj_state t2 = state_restart_state \<and> sched_inv s2 Q R"
proof -
  have nn: "p \<noteq> NULL" "node \<noteq> NULL" using assms(2,3) by (auto simp: message_at_def split: if_splits)
  obtain s1 m1 t1 where s1: "wait_at p node state_send_blocked_state message_state_send s = Some s1" "message_at node s1 = Some m1"
    "msg_state m1 = message_state_send" "mq_rep s1 (msg_queue m1) (xs @ [p])" "tcb_at p s1 = Some t1"
    "obj_state t1 = state_send_blocked_state" "obj_ptr t1 = node" "sched_inv s1 Q R"
    using wait_at_ok[OF assms(1,2,3,5,6) not_queued_states(1)] by blast
  have run: "send_ipc env p True candonate node s = Some s1" using nn assms(3,4) s1(1) by (simp add: send_ipc_def)
  have *: "remove1 p (xs @ [p]) = xs" using assms(6) by (simp add: remove1_append)
  have "message_at (obj_ptr t1) s1 = Some m1" "obj_state t1 \<in> {state_send_blocked_state, state_recv_blocked_state}"
    "msg_state m1 \<noteq> message_state_idle" "p \<in> set (xs @ [p])"
    using s1(2,3,6,7) by simp_all
  from cancel_ipc_ok[OF s1(8,5) this(2,1,3) s1(4) this(4)] show ?thesis
    unfolding * s1(7) s1(3) using run s1(2-6) by blast
qed

theorem send_then_cancel_witness:
  "\<exists>s1 s2 m2 t2. send_ipc no_items 100 True True 64 (ipc_ex 0) = Some s1 \<and> cancel_ipc 100 s1 = Some s2
    \<and> message_at 64 s2 = Some m2 \<and> msg_state m2 = message_state_idle \<and> tcb_at 100 s2 = Some t2 \<and> obj_state t2 = state_restart_state"
proof -
  let ?m = "\<lparr>msg_state = message_state_idle, msg_queue = \<lparr>head = 0, tail = 0\<rparr>\<rparr>"
  have m: "message_at 64 (ipc_ex 0) = Some ?m" by (simp add: ipc_ex_def message_at_def)
  have q: "mq_rep (ipc_ex 0) (msg_queue ?m) []" by (simp add: mq_rep_def dll_def)
  obtain t where t: "tcb_at 100 (ipc_ex 0) = Some t" using ipc_ex_regs(1) by (auto elim!: regs_okE)
  from send_then_cancel[OF ipc_ex_inv t m _ q, of no_items True] show ?thesis by auto
qed



text \<open>
  Sending a message of at most one word to a waiting receiver that has no scheduling context, with donation allowed,
  never returns normally: after the transfer the kernel dereferences the missing context.
\<close>
theorem send_to_passive_receiver_faults:
  assumes "message_at node s = Some m" "msg_state m = message_state_recv" "mq_rep s (msg_queue m) (r # xs)"
    and "regs_ok a s" "regs_ok r s" "message_words (tag_of a s) \<le> 1" "tcb_at r s = Some t" "sched t = NULL"
  shows "send_ipc env a blocking True node s = None"
  using assms by (rule send_ipc_no_context)

theorem send_to_passive_receiver_faults_witness:
  "send_ipc no_items 100 True True 72 (ipc_ex 0) = None"
proof -
  let ?m = "\<lparr>msg_state = message_state_recv, msg_queue = \<lparr>head = 200, tail = 200\<rparr>\<rparr>"
  have m: "message_at 72 (ipc_ex 0) = Some ?m" by (simp add: ipc_ex_def message_at_def)
  have t: "tcb_at 200 (ipc_ex 0) = Some blank_tcb" "sched blank_tcb = NULL"
    by (simp_all add: ipc_ex_def ipc_ex_tcbs_def tcb_at_def blank_tcb_def)
  have q: "mq_rep (ipc_ex 0) (msg_queue ?m) [200]"
    by (simp add: mq_rep_def dll_def link_def tcb_at_def ipc_ex_def ipc_ex_tcbs_def blank_tcb_def)
  have w: "message_words (tag_of 100 (ipc_ex 0)) \<le> 1" by (simp add: ipc_ex_regs tag_simps)
  from send_to_passive_receiver_faults[OF m _ q ipc_ex_regs(1,2) w t] show ?thesis by simp
qed



text \<open>
  The upper half of the timeout argument of an IPC has no effect: the receive timeout is taken from the lower half,
  like the send timeout.
\<close>
theorem receive_timeout_ignored:
  "do_exchange_ipc env recv_gid send_gid timeout s = do_exchange_ipc env recv_gid send_gid (timeout AND 0xFFFF) s"
proof -
  have "(ucast (timeout AND 0xFFFF) :: half_t) = ucast timeout"
  proof -
    have m: "0xFFFF = (mask 16 :: word_t)" by (simp add: mask_eq_exp_minus_1)
    show ?thesis unfolding m by (rule bit_word_eqI) (simp add: bit_simps del: mask_numeral)
  qed
  moreover have "(timeout AND 0xFFFF) AND x = timeout AND (0xFFFF AND x)" for x by (simp add: and.assoc)
  ultimately show ?thesis by (simp add: do_exchange_ipc_def)
qed

text \<open>
  C36: When no IPC request is ready, the retry loop of the privilege thread returns after serving every ready monitor:
  each ready entry of the status array becomes blocked, the others and the rest of the state are kept.
\<close>
theorem privilege_retry_serves:
  assumes "privilege_thread_status s = [x, y, z]" "x \<noteq> priv_ready_priv"
  shows "privilege_retry env s = Some (s\<lparr>privilege_thread_status := map (\<lambda>v. if v = priv_ready_priv then priv_blocked_priv else v) [x, y, z]\<rparr>)"
  using assms privilege_check_monitors[OF assms, of env]
  by (subst privilege_retry.simps) (simp add: privilege_types_list get_privilege_status_def arr_get_def priv_ready_priv_def priv_blocked_priv_def)

theorem privilege_retry_serves_witness:
  "privilege_retry no_items ((ipc_ex 0)\<lparr>privilege_thread_status := [1, 0, 2]\<rparr>) = Some ((ipc_ex 0)\<lparr>privilege_thread_status := [1, 1, 2]\<rparr>)"
  using privilege_retry_serves[of "(ipc_ex 0)\<lparr>privilege_thread_status := [1, 0, 2]\<rparr>" 1 0 2 no_items]
  by (simp add: priv_ready_priv_def priv_blocked_priv_def)

end
