(* ===== verification/Thread_Life.thy ===== *)
theory Thread_Life
  imports Ipc
begin

text \<open>
  Suspending, restarting and destroying threads (\<^verbatim>\<open>src/object/tcb.c\<close>), on top of the cancellation of IPC.
\<close>

unbundle bit_operations_syntax

section \<open>Operations\<close>

definition thread_suspend :: "ptr \<Rightarrow> kstate \<Rightarrow> kstate option" where
  "thread_suspend thread s = do {
     assertK (thread \<noteq> NULL);
     s \<leftarrow> cancel_ipc thread s;
     s \<leftarrow> cancel_yield thread s;
     _ \<leftarrow> get_thread_state thread state_queued_state s;
     s \<leftarrow> set_thread_state thread state_suspended_state s;
     t \<leftarrow> tcb_at thread s;
     s \<leftarrow> (if is_thread_ready t then do {
             s \<leftarrow> tcb_upd thread marktcb_as_not_queued s;
             s \<leftarrow> sched_dequeue thread s;
             release_remove thread s }
           else Some s);
     s \<leftarrow> (if \<not> is_thread_in_isr s then reschedule_unlocked s else Some s);
     if thread = current_thread s then reschedule_required s else Some s }"

definition thread_restart :: "ptr \<Rightarrow> kstate \<Rightarrow> kstate option" where
  "thread_restart thread s = do {
     assertK (thread \<noteq> NULL);
     t \<leftarrow> tcb_at thread s;
     if is_blocked t then do {
       s \<leftarrow> cancel_ipc thread s;
       s \<leftarrow> set_thread_state thread state_restart_state s;
       s \<leftarrow> prepare_start_thread thread s;
       thread_resume thread s }
     else Some s }"

definition thread_destroy :: "ptr \<Rightarrow> kstate \<Rightarrow> kstate option" where
  "thread_destroy thread s = do {
     assertK (thread \<noteq> NULL);
     t \<leftarrow> tcb_at thread s;
     if is_user_vaild (thread_id t) then do {
       s \<leftarrow> cancel_yield thread s;
       s \<leftarrow> cancel_ipc thread s;
       t \<leftarrow> tcb_at thread s;
       s \<leftarrow> cancel_signal thread (notifation_node t) s;
       t \<leftarrow> tcb_at thread s;
       s \<leftarrow> (if is_thread_queued t then do {
               s \<leftarrow> tcb_upd thread marktcb_as_not_queued s;
               s \<leftarrow> sched_dequeue thread s;
               release_remove thread s }
             else Some s);
       s \<leftarrow> thread_deinit thread s;
       if thread = current_thread s then reschedule_required s else Some s }
     else Some s }"

section \<open>Facts\<close>

lemma cancel_ipc_unblocked:
  assumes "tcb_at p s = Some t"
    and "obj_state t \<notin> {state_send_blocked_state, state_recv_blocked_state, state_notify_blocked_state}"
  shows "cancel_ipc p s = Some s"
  using assms tcb_at_SomeD[OF assms(1)] by (simp add: cancel_ipc_def get_thread_object_state_def)

lemma cancel_yield_shape:
  assumes "tcb_at p s = Some t"
  shows "cancel_yield p s = Some (s\<lparr>tcbs := (tcbs s)(p \<mapsto> t\<lparr>yield := NULL\<rparr>)\<rparr>)"
proof (cases "yield t = NULL")
  case True
  then have "t\<lparr>yield := NULL\<rparr> = t" by simp
  then have "(tcbs s)(p \<mapsto> t\<lparr>yield := NULL\<rparr>) = tcbs s" using tcb_at_SomeD[OF assms] by (simp only: fun_upd_idem)
  then show ?thesis using assms True tcb_at_SomeD[OF assms] by (simp add: cancel_yield_def)
next
  case False
  then show ?thesis using assms tcb_at_SomeD[OF assms] by (simp add: cancel_yield_def tcb_upd_Some)
qed

lemma suspended_not_ready: "obj_state t = state_suspended_state \<Longrightarrow> \<not> is_thread_ready t"
  by (simp add: state_preds state_bits Let_def)

section \<open>Properties\<close>

text \<open>
  Suspending a queued thread from an interrupt marks it as suspended but never takes it out of its ready queue: the
  state is overwritten before the test that guards the removal, and a suspended thread fails that test.
\<close>
theorem suspended_thread_stays_queued:
  assumes "sched_inv s Q R" "tcb_at p s = Some t" "is_thread_queued t" "p \<in> set (Q i)"
    and "in_isr s" "p \<noteq> current_thread s"
  shows "\<exists>s' t'. thread_suspend p s = Some s' \<and> tcb_at p s' = Some t' \<and> obj_state t' = state_suspended_state
    \<and> sched_inv s' Q R"
proof -
  note p = tcb_at_SomeD[OF assms(2)]
  let ?s1 = "s\<lparr>tcbs := (tcbs s)(p \<mapsto> t\<lparr>yield := NULL\<rparr>)\<rparr>" and ?t1 = "t\<lparr>yield := NULL\<rparr>"
  have c: "cancel_ipc p s = Some s"
    using assms(3) by (intro cancel_ipc_unblocked[OF assms(2)]) (auto simp: state_preds state_bits)
  have t1: "tcb_at p ?s1 = Some ?t1" using p by (simp add: tcb_at_def)
  have q: "state_suspended_state AND state_queued_state \<noteq> state_queued_state" by (simp add: state_bits)
  obtain a where s2: "set_thread_state p state_suspended_state ?s1
      = Some (?s1\<lparr>tcbs := (tcbs ?s1)(p \<mapsto> ?t1\<lparr>obj_state := state_suspended_state\<rparr>), scheduler_action := a\<rparr>)"
    using set_thread_state_shape[OF t1 disjI1[OF q]] by blast
  let ?s2 = "?s1\<lparr>tcbs := (tcbs ?s1)(p \<mapsto> ?t1\<lparr>obj_state := state_suspended_state\<rparr>), scheduler_action := a\<rparr>"
  have t2: "tcb_at p ?s2 = Some (?t1\<lparr>obj_state := state_suspended_state\<rparr>)" using p by (simp add: tcb_at_def)
  have "thread_suspend p s = Some ?s2"
    using p c cancel_yield_shape[OF assms(2)] t1 s2 t2 assms(5,6) suspended_not_ready[of "?t1\<lparr>obj_state := state_suspended_state\<rparr>"]
    by (simp add: thread_suspend_def get_thread_state_def is_thread_in_isr_def)
  moreover have "sched_inv ?s2 Q R"
    by (rule sched_inv_view[OF sched_inv_view[OF assms(1), of ?s1] same_view_state[OF _ , of ?s1 p ?t1]])
      (use p in \<open>simp_all add: same_view_def qview_def\<close>)
  ultimately show ?thesis using t2 by (intro exI[of _ ?s2]) simp
qed

theorem suspended_thread_stays_queued_witness:
  "\<exists>s s' t'. sched_append 100 (run_ex blank_tcb) = Some s \<and> thread_suspend 100 (s\<lparr>in_isr := True\<rparr>) = Some s'
    \<and> tcb_at 100 s' = Some t' \<and> obj_state t' = state_suspended_state \<and> sched_inv s' ((\<lambda>_. [])(5 := [100])) []"
proof -
  obtain s t where s: "sched_append 100 (run_ex blank_tcb) = Some s" "sched_inv s ((\<lambda>_. [])(5 := [100])) []"
    "tcb_at 100 s = Some t" "is_thread_queued t" "current_thread s = 200"
    using run_ex_queued[of blank_tcb] by (auto simp: blank_tcb_def)
  have "sched_inv (s\<lparr>in_isr := True\<rparr>) ((\<lambda>_. [])(5 := [100])) []"
    by (rule sched_inv_view[OF s(2)]) (simp add: same_view_def)
  from suspended_thread_stays_queued[OF this, of 100 t 5] show ?thesis using s by (auto simp: tcb_at_def)
qed

text \<open>
  Destroying a user thread that waits for nothing and has no notification node never returns normally: the
  cancellation of a signal is unconditional and reads the state of the missing node.
\<close>
theorem destroy_without_notification_faults:
  assumes "tcb_at p s = Some t" "is_user_vaild (thread_id t)" "notifation_node t = NULL"
    and "obj_state t \<notin> {state_send_blocked_state, state_recv_blocked_state, state_notify_blocked_state}"
  shows "thread_destroy p s = None"
proof -
  note p = tcb_at_SomeD[OF assms(1)]
  let ?s1 = "s\<lparr>tcbs := (tcbs s)(p \<mapsto> t\<lparr>yield := NULL\<rparr>)\<rparr>"
  have t1: "tcb_at p ?s1 = Some (t\<lparr>yield := NULL\<rparr>)" using p by (simp add: tcb_at_def)
  then have "cancel_ipc p ?s1 = Some ?s1" using cancel_ipc_unblocked[OF t1] assms(4) by simp
  then show ?thesis
    using p assms(1-3) cancel_yield_shape[OF assms(1)] t1
    by (simp add: thread_destroy_def cancel_signal_def notifation_at_def)
qed

theorem destroy_without_notification_faults_witness:
  "thread_destroy 100 (state_ex [100 \<mapsto> blank_tcb\<lparr>thread_id := 0x400000\<rparr>]) = None"
  by (rule destroy_without_notification_faults[of _ _ "blank_tcb\<lparr>thread_id := 0x400000\<rparr>"])
    (simp_all add: tcb_at_def blank_tcb_def is_user_vaild_def GLOBALID_TO_TID_def id_end_special_id_def state_bits)

end
