(* ===== verification/Crc.thy ===== *)
theory Crc
  imports Prelude
begin

text \<open>
  The checksums of \<^verbatim>\<open>src/lib/sys/crc.c\<close>.  A source pointer with its length is the list of the bytes read.  The
  routines are compared with bit serial reference definitions: all of them are linear over exclusive or, so that it is
  enough to compare them on single bits.
\<close>

unbundle bit_operations_syntax

type_synonym u16_t = "16 word"
type_synonym u32_t = "32 word"

section \<open>Routines\<close>

fun crc7_be :: "byte_t \<Rightarrow> byte_t list \<Rightarrow> byte_t" where
  "crc7_be seed [] = seed"
| "crc7_be seed (b # src) =
     (let e = seed XOR b; f = e XOR drop_bit 4 e XOR drop_bit 7 e
      in crc7_be (push_bit 1 f XOR push_bit 4 f) src)"

definition crc8_ccitt_small_table :: "byte_t list" where
  "crc8_ccitt_small_table = [0x00, 0x07, 0x0e, 0x09, 0x1c, 0x1b, 0x12, 0x15, 0x38, 0x3f, 0x36, 0x31, 0x24, 0x23, 0x2a, 0x2d]"

fun crc8_ccitt :: "byte_t \<Rightarrow> byte_t list \<Rightarrow> byte_t" where
  "crc8_ccitt val [] = val"
| "crc8_ccitt val (b # buf) =
     (let val = val XOR b;
          val = push_bit 4 val XOR crc8_ccitt_small_table ! unat (drop_bit 4 val);
          val = push_bit 4 val XOR crc8_ccitt_small_table ! unat (drop_bit 4 val)
      in crc8_ccitt val buf)"

text \<open>The inner loop of \<open>crc16\<close>; \<open>None\<close> is an implicit zero byte behind the data.\<close>

fun crc16_bits :: "u16_t \<Rightarrow> byte_t option \<Rightarrow> nat list \<Rightarrow> u16_t \<Rightarrow> u16_t" where
  "crc16_bits polynomial src [] crc = crc"
| "crc16_bits polynomial src (b # bs) crc =
     (let divide = crc AND 0x8000;
          crc = push_bit 1 crc;
          crc = (case src of Some x \<Rightarrow> crc OR (if x AND drop_bit b 0x80 \<noteq> 0 then 1 else 0) | None \<Rightarrow> crc);
          crc = (if divide \<noteq> 0 then crc XOR polynomial else crc)
      in crc16_bits polynomial src bs crc)"

fun crc16_bytes :: "u16_t \<Rightarrow> byte_t option list \<Rightarrow> u16_t \<Rightarrow> u16_t" where
  "crc16_bytes polynomial [] crc = crc"
| "crc16_bytes polynomial (x # xs) crc = crc16_bytes polynomial xs (crc16_bits polynomial x [0..<8] crc)"

definition crc16 :: "byte_t list \<Rightarrow> u16_t \<Rightarrow> u16_t \<Rightarrow> bool \<Rightarrow> u16_t" where
  "crc16 src polynomial initial_value pad =
     crc16_bytes polynomial (map Some src @ replicate (if pad then 2 else 0) None) initial_value"

definition crc16_ansi :: "byte_t list \<Rightarrow> u16_t" where
  "crc16_ansi src = crc16 src 0x8005 0xffff True"

fun crc16_ccitt :: "u16_t \<Rightarrow> byte_t list \<Rightarrow> u16_t" where
  "crc16_ccitt seed [] = seed"
| "crc16_ccitt seed (b # src) =
     (let e = (ucast (seed XOR ucast b) :: byte_t);
          f = (ucast (e XOR push_bit 4 e) :: u16_t)
      in crc16_ccitt (drop_bit 8 seed XOR push_bit 8 f XOR push_bit 3 f XOR drop_bit 4 f) src)"

fun crc16_itu_t :: "u16_t \<Rightarrow> byte_t list \<Rightarrow> u16_t" where
  "crc16_itu_t seed [] = seed"
| "crc16_itu_t seed (b # src) =
     (let seed = drop_bit 8 seed OR push_bit 8 seed;
          seed = seed XOR ucast b;
          seed = seed XOR drop_bit 4 (seed AND 0xff);
          seed = seed XOR push_bit 12 seed;
          seed = seed XOR push_bit 5 (seed AND 0xff)
      in crc16_itu_t seed src)"

fun crc32_bits :: "nat \<Rightarrow> u32_t \<Rightarrow> u32_t" where
  "crc32_bits 0 crc = crc"
| "crc32_bits (Suc n) crc = crc32_bits n (drop_bit 1 crc XOR (0xEDB88320 AND - (crc AND 1)))"

fun crc32_bytes :: "u32_t \<Rightarrow> byte_t list \<Rightarrow> u32_t" where
  "crc32_bytes crc [] = crc"
| "crc32_bytes crc (b # data) = crc32_bytes (crc32_bits 8 (crc XOR ucast b)) data"

definition crc32_ieee_update :: "u32_t \<Rightarrow> byte_t list \<Rightarrow> u32_t" where
  "crc32_ieee_update crc data = NOT (crc32_bytes (NOT crc) data)"

definition crc32_ieee :: "byte_t list \<Rightarrow> u32_t" where
  "crc32_ieee data = crc32_ieee_update 0 data"

section \<open>Linear functions on words\<close>

definition xor_linear :: "('a::len word \<Rightarrow> 'b::len word) \<Rightarrow> bool" where
  "xor_linear f \<longleftrightarrow> (\<forall>x y. f (x XOR y) = f x XOR f y)"

lemma xor_linearD: "xor_linear f \<Longrightarrow> f (x XOR y) = f x XOR f y"
  by (simp add: xor_linear_def)

lemma xor_linear_0: "xor_linear f \<Longrightarrow> f 0 = 0"
  using xor_linearD[of f 0 0] by simp

lemma take_bit_Suc_xor: "take_bit (Suc n) x = take_bit n x XOR (if bit x n then push_bit n 1 else 0)" for x :: "('a::len) word"
  by (rule bit_word_eqI) (auto simp: bit_simps less_Suc_eq)

text \<open>Two linear functions that agree on every single bit are equal.\<close>

lemma xor_linear_eqI:
  fixes f g :: "'a::len word \<Rightarrow> 'b::len word"
  assumes "xor_linear f" "xor_linear g" "\<And>n. n < LENGTH('a) \<Longrightarrow> f (2 ^ n) = g (2 ^ n)"
  shows "f x = g x"
proof -
  have "f (take_bit n x) = g (take_bit n x)" if "n \<le> LENGTH('a)" for n
    using that by (induction n) (auto simp: take_bit_Suc_xor xor_linearD[OF assms(1)] xor_linearD[OF assms(2)]
        xor_linear_0[OF assms(1)] xor_linear_0[OF assms(2)] assms(3))
  from this[of "LENGTH('a)"] show ?thesis by simp
qed

lemma xor_swap: "(a XOR b) XOR (c XOR d) = (a XOR c) XOR (b XOR d)" for a :: "('a::len) word"
  by (simp add: xor.assoc xor.left_commute)

lemma and_xor_word: "(a XOR b) AND c = (a AND c) XOR (b AND c)" for a :: "('a::len) word"
  by (rule bit_word_eqI) (auto simp: bit_simps)

lemma ucast_xor: "(ucast (a XOR b) :: ('b::len) word) = ucast a XOR ucast b" for a :: "('a::len) word"
  by (rule bit_word_eqI) (auto simp: bit_simps)

lemma xor_linear_id: "xor_linear (\<lambda>x. x)"
  by (simp add: xor_linear_def)

lemma xor_linear_push: "xor_linear f \<Longrightarrow> xor_linear (\<lambda>x. push_bit n (f x))"
  by (simp add: xor_linear_def push_bit_xor)

lemma xor_linear_drop: "xor_linear f \<Longrightarrow> xor_linear (\<lambda>x. drop_bit n (f x))"
  by (simp add: xor_linear_def drop_bit_xor)

lemma xor_linear_xor: "xor_linear f \<Longrightarrow> xor_linear g \<Longrightarrow> xor_linear (\<lambda>x. f x XOR g x)"
  by (simp add: xor_linear_def xor_swap)

lemma xor_linear_and: "xor_linear f \<Longrightarrow> xor_linear (\<lambda>x. f x AND c)"
  by (simp add: xor_linear_def and_xor_word)

lemma xor_linear_ucast: "xor_linear f \<Longrightarrow> xor_linear (\<lambda>x. ucast (f x))"
  by (simp add: xor_linear_def ucast_xor)

lemmas xor_linear_intros = xor_linear_id xor_linear_push xor_linear_drop xor_linear_xor xor_linear_and xor_linear_ucast

lemma xor_linear_funpow: "xor_linear f \<Longrightarrow> xor_linear (f ^^ n)" for f :: "('a::len) word \<Rightarrow> 'a word"
  by (induction n) (auto simp: xor_linear_def)

section \<open>Bit serial reference\<close>

definition shl_step :: "('a::len) word \<Rightarrow> 'a word \<Rightarrow> 'a word" where
  "shl_step poly x = push_bit 1 x XOR (if bit x (LENGTH('a) - 1) then poly else 0)"

definition shr_step :: "('a::len) word \<Rightarrow> 'a word \<Rightarrow> 'a word" where
  "shr_step poly x = drop_bit 1 x XOR (if bit x 0 then poly else 0)"

definition crc_msb :: "('a::len) word \<Rightarrow> 'a word \<Rightarrow> byte_t list \<Rightarrow> 'a word" where
  "crc_msb poly = foldl (\<lambda>c b. (shl_step poly ^^ 8) (c XOR push_bit (LENGTH('a) - 8) (ucast b)))"

definition crc_lsb :: "('a::len) word \<Rightarrow> 'a word \<Rightarrow> byte_t list \<Rightarrow> 'a word" where
  "crc_lsb poly = foldl (\<lambda>c b. (shr_step poly ^^ 8) (c XOR ucast b))"

lemma xor_linear_shl: "xor_linear (shl_step poly)"
  by (auto simp: xor_linear_def shl_step_def push_bit_xor bit_simps xor.assoc xor.left_commute xor.commute)

lemma xor_linear_shr: "xor_linear (shr_step poly)"
  by (auto simp: xor_linear_def shr_step_def drop_bit_xor bit_simps xor.assoc xor.left_commute xor.commute)

lemma funpow_4: "(f ^^ 4) x = f (f (f (f x)))"
  by (simp add: eval_nat_numeral)

lemma funpow_8: "(f ^^ 8) x = f (f (f (f (f (f (f (f x)))))))"
  by (simp add: eval_nat_numeral)

text \<open>One byte of each routine, as a function of the register with the byte already added.\<close>

definition itu_step :: "u16_t \<Rightarrow> u16_t" where
  "itu_step z =
     (let seed = drop_bit 8 z XOR push_bit 8 z;
          seed = seed XOR drop_bit 4 (seed AND 0xff);
          seed = seed XOR push_bit 12 seed
      in seed XOR push_bit 5 (seed AND 0xff))"

definition ccitt_step :: "u16_t \<Rightarrow> u16_t" where
  "ccitt_step z =
     (let e = (ucast z :: byte_t);
          f = (ucast (e XOR push_bit 4 e) :: u16_t)
      in drop_bit 8 z XOR push_bit 8 f XOR push_bit 3 f XOR drop_bit 4 f)"

definition crc7_step :: "byte_t \<Rightarrow> byte_t" where
  "crc7_step e = (let f = e XOR drop_bit 4 e XOR drop_bit 7 e in push_bit 1 f XOR push_bit 4 f)"

definition crc8_half :: "byte_t \<Rightarrow> byte_t" where
  "crc8_half val = push_bit 4 val XOR crc8_ccitt_small_table ! unat (drop_bit 4 val)"

lemma itu_step_eq: "itu_step z = (shl_step 0x1021 ^^ 8) z"
proof (rule xor_linear_eqI[where f = itu_step and g = "shl_step 0x1021 ^^ 8"])
  show "xor_linear itu_step" unfolding itu_step_def[abs_def] Let_def by (intro xor_linear_intros)
  show "xor_linear (shl_step 0x1021 ^^ 8 :: u16_t \<Rightarrow> u16_t)" by (intro xor_linear_funpow xor_linear_shl)
  show "itu_step (2 ^ n) = (shl_step 0x1021 ^^ 8) (2 ^ n)" if "n < LENGTH(16)" for n
  proof -
    have "n < 16" using that by simp
    from less_16_cases[OF this] show ?thesis
      by (elim disjE) (simp_all add: funpow_8 itu_step_def shl_step_def Let_def)
  qed
qed

lemma ccitt_step_eq: "ccitt_step z = (shr_step 0x8408 ^^ 8) z"
proof (rule xor_linear_eqI[where f = ccitt_step and g = "shr_step 0x8408 ^^ 8"])
  show "xor_linear ccitt_step" unfolding ccitt_step_def[abs_def] Let_def by (intro xor_linear_intros)
  show "xor_linear (shr_step 0x8408 ^^ 8 :: u16_t \<Rightarrow> u16_t)" by (intro xor_linear_funpow xor_linear_shr)
  show "ccitt_step (2 ^ n) = (shr_step 0x8408 ^^ 8) (2 ^ n)" if "n < LENGTH(16)" for n
  proof -
    have "n < 16" using that by simp
    from less_16_cases[OF this] show ?thesis
      by (elim disjE) (simp_all add: funpow_8 ccitt_step_def shr_step_def Let_def)
  qed
qed

lemma crc7_step_eq: "crc7_step z = (shl_step 0x12 ^^ 8) z"
proof (rule xor_linear_eqI[where f = crc7_step and g = "shl_step 0x12 ^^ 8"])
  show "xor_linear crc7_step" unfolding crc7_step_def[abs_def] Let_def by (intro xor_linear_intros)
  show "xor_linear (shl_step 0x12 ^^ 8 :: byte_t \<Rightarrow> byte_t)" by (intro xor_linear_funpow xor_linear_shl)
  show "crc7_step (2 ^ n) = (shl_step 0x12 ^^ 8) (2 ^ n)" if "n < LENGTH(8)" for n
  proof -
    have "n < 8" using that by simp
    from less_8_cases[OF this] show ?thesis
      by (elim disjE) (simp_all add: funpow_8 crc7_step_def shl_step_def Let_def)
  qed
qed

lemma shl_low: "(shl_step 0x07 ^^ 4) (v AND 15) = push_bit 4 (v :: byte_t)"
proof (rule xor_linear_eqI[where f = "\<lambda>v. (shl_step 0x07 ^^ 4) (v AND 15)" and g = "push_bit 4"])
  show "xor_linear (\<lambda>v :: byte_t. (shl_step 0x07 ^^ 4) (v AND 15))"
    using xor_linear_funpow[OF xor_linear_shl[of "0x07 :: byte_t"], of 4] by (simp add: xor_linear_def and_xor_word)
  show "xor_linear (push_bit 4 :: byte_t \<Rightarrow> byte_t)" by (simp add: xor_linear_def push_bit_xor)
  show "(shl_step 0x07 ^^ 4) (2 ^ n AND 15) = push_bit 4 (2 ^ n :: byte_t)" if "n < LENGTH(8)" for n
  proof -
    have "n < 8" using that by simp
    from less_8_cases[OF this] show ?thesis by (elim disjE) (simp_all add: funpow_4 shl_step_def)
  qed
qed

lemma shl_table: "n < 16 \<Longrightarrow> crc8_ccitt_small_table ! n = (shl_step 0x07 ^^ 4) (push_bit 4 (word_of_nat n :: byte_t))"
  by (drule less_16_cases) (elim disjE; simp add: funpow_4 shl_step_def crc8_ccitt_small_table_def)

lemma crc8_half_eq: "crc8_half v = (shl_step 0x07 ^^ 4) v"
proof -
  have "v = push_bit 4 (drop_bit 4 v) XOR (v AND mask 4)" by (rule bit_word_eqI) (auto simp: bit_simps)
  then have v: "v = push_bit 4 (drop_bit 4 v) XOR (v AND 15)" by (simp add: mask_eq_exp_minus_1)
  have "unat (drop_bit 4 v) = unat v div 16" by (simp add: drop_bit_eq_div unat_div)
  moreover have "unat v < 256" using unsigned_less[of v, where ?'a = nat] by simp
  ultimately have "unat (drop_bit 4 v) < 16" by simp
  from shl_table[OF this] have t: "crc8_ccitt_small_table ! unat (drop_bit 4 v) = (shl_step 0x07 ^^ 4) (push_bit 4 (drop_bit 4 v))"
    by simp
  have "(shl_step 0x07 ^^ 4) v = (shl_step 0x07 ^^ 4) (push_bit 4 (drop_bit 4 v)) XOR (shl_step 0x07 ^^ 4) (v AND 15)"
    by (subst v, rule xor_linearD, intro xor_linear_funpow xor_linear_shl)
  then show ?thesis by (simp add: crc8_half_def t shl_low xor.commute)
qed

section \<open>The routines compute the reference\<close>

lemma crc7_be_ref: "crc7_be seed src = crc_msb 0x12 seed src"
  by (induction src arbitrary: seed) (simp_all add: crc_msb_def crc7_step_eq[symmetric] crc7_step_def)

lemma crc8_ccitt_ref: "crc8_ccitt val buf = crc_msb 0x07 val buf"
proof (induction buf arbitrary: val)
  case (Cons b buf)
  have "crc8_ccitt val (b # buf) = crc8_ccitt (crc8_half (crc8_half (val XOR b))) buf"
    by (simp add: crc8_half_def Let_def)
  also have "crc8_half (crc8_half (val XOR b)) = (shl_step 0x07 ^^ 8) (val XOR b)"
    by (simp add: crc8_half_eq funpow_4 funpow_8)
  finally show ?case by (simp add: Cons.IH crc_msb_def)
qed (simp add: crc_msb_def)

lemma crc16_ccitt_ref: "crc16_ccitt seed src = crc_lsb 0x8408 seed src"
proof (induction src arbitrary: seed)
  case (Cons b src)
  have d: "drop_bit 8 seed = drop_bit 8 (seed XOR ucast b)"
    by (rule bit_word_eqI) (auto simp: bit_simps dest: bit_imp_le_length)
  have "crc16_ccitt seed (b # src) = crc16_ccitt (ccitt_step (seed XOR ucast b)) src"
    by (simp only: crc16_ccitt.simps ccitt_step_def Let_def d[symmetric])
  then show ?case by (simp add: Cons.IH crc_lsb_def ccitt_step_eq)
qed (simp add: crc_lsb_def)

lemma crc16_itu_t_ref: "crc16_itu_t seed src = crc_msb 0x1021 seed src"
proof (induction src arbitrary: seed)
  case (Cons b src)
  let ?z = "seed XOR push_bit 8 (ucast b)"
  have "(drop_bit 8 seed OR push_bit 8 seed) XOR ucast b = drop_bit 8 ?z XOR push_bit 8 ?z"
    by (rule bit_word_eqI) (auto simp: bit_simps dest: bit_imp_le_length)
  then have "crc16_itu_t seed (b # src) = crc16_itu_t (itu_step ?z) src"
    by (simp only: crc16_itu_t.simps itu_step_def Let_def)
  then show ?case by (simp add: Cons.IH crc_msb_def itu_step_eq)
qed (simp add: crc_msb_def)

lemma crc32_bits_ref: "crc32_bits n c = (shr_step 0xEDB88320 ^^ n) c"
proof (induction n arbitrary: c)
  case (Suc n)
  have "drop_bit 1 c XOR (0xEDB88320 AND - (c AND 1)) = shr_step 0xEDB88320 c"
    by (cases "bit c 0") (simp_all add: shr_step_def and_one_eq bit_0 mod_2_eq_odd)
  then show ?case by (simp add: Suc.IH funpow_swap1)
qed simp

lemma crc32_bytes_ref: "crc32_bytes c data = crc_lsb 0xEDB88320 c data"
  by (induction data arbitrary: c) (simp_all add: crc_lsb_def crc32_bits_ref)

subsection \<open>The bit serial routine with padding\<close>

text \<open>Shifting the message into the low end of the register, and adding it at the high end.\<close>

definition low_step :: "u16_t \<Rightarrow> u16_t \<Rightarrow> bool \<Rightarrow> u16_t" where
  "low_step poly c i = shl_step poly c XOR (if i then 1 else 0)"

definition high_step :: "u16_t \<Rightarrow> u16_t \<Rightarrow> bool \<Rightarrow> u16_t" where
  "high_step poly c i = shl_step poly c XOR (if i then poly else 0)"

definition bits_of :: "byte_t \<Rightarrow> bool list" where
  "bits_of x = map (\<lambda>b. bit x (7 - b)) [0..<8]"

lemma and_8000: "c AND 0x8000 \<noteq> 0 \<longleftrightarrow> bit c 15" for c :: u16_t
  using and_exp_eq_0_iff_not_bit[of c 15] by simp

lemma and_80: "b < 8 \<Longrightarrow> x AND drop_bit b 0x80 \<noteq> 0 \<longleftrightarrow> bit x (7 - b)" for x :: byte_t
  using and_exp_eq_0_iff_not_bit[of x "7 - b"] by (drule_tac less_8_cases) (elim disjE; simp)

lemma or_low: "push_bit 1 c OR (if i then 1 else 0) = push_bit 1 c XOR (if i then 1 else (0 :: u16_t))"
  by (cases i; simp only: if_True if_False or.right_neutral xor.right_neutral)
    (rule bit_word_eqI; auto simp only: bit_or_iff bit_xor_iff bit_push_bit_iff bit_1_iff)

lemma crc16_bits_Some:
  "\<forall>b \<in> set bs. b < 8 \<Longrightarrow> crc16_bits poly (Some x) bs c = foldl (low_step poly) c (map (\<lambda>b. bit x (7 - b)) bs)"
proof (induction bs arbitrary: c)
  case (Cons b bs)
  have "(if c AND 0x8000 \<noteq> 0 then (push_bit 1 c OR (if x AND drop_bit b 0x80 \<noteq> 0 then 1 else 0)) XOR poly
      else push_bit 1 c OR (if x AND drop_bit b 0x80 \<noteq> 0 then 1 else 0)) = low_step poly c (bit x (7 - b))"
    using Cons.prems unfolding and_8000 or_low by (simp add: and_80 low_step_def shl_step_def xor.assoc xor.commute)
  then show ?case using Cons by (simp only: crc16_bits.simps Let_def option.case list.map foldl.simps) simp
qed simp

lemma crc16_bits_None: "crc16_bits poly None bs c = (shl_step poly ^^ length bs) c"
proof (induction bs arbitrary: c)
  case (Cons b bs)
  have "(if c AND 0x8000 \<noteq> 0 then push_bit 1 c XOR poly else push_bit 1 c) = shl_step poly c"
    unfolding and_8000 by (simp add: shl_step_def)
  then show ?case using Cons by (simp only: crc16_bits.simps Let_def option.case) (simp add: funpow_swap1)
qed simp

lemma crc16_bytes_map: "crc16_bytes poly (map Some src @ xs) c = crc16_bytes poly xs (foldl (\<lambda>c x. foldl (low_step poly) c (bits_of x)) c src)"
  by (induction src arbitrary: c) (simp_all add: crc16_bits_Some bits_of_def del: upt_Suc)

lemma word_wraps: "(65536 :: u16_t) = 0"
  by simp

lemma shl_16_one: "(shl_step poly ^^ 16) (1 :: u16_t) = poly"
proof -
  have "(shl_step poly ^^ n) (1 :: u16_t) = push_bit n 1" if "n < 16" for n
    using that by (induction n) (auto simp: shl_step_def bit_simps push_bit_double)
  from this[of 15] have "(shl_step poly ^^ Suc 15) (1 :: u16_t) = shl_step poly (push_bit 15 1)"
    unfolding funpow.simps comp_apply by simp
  also have "\<dots> = poly" by (simp add: shl_step_def word_wraps)
  finally show ?thesis by (simp del: funpow.simps)
qed

lemma low_high: "(shl_step poly ^^ 16) (foldl (low_step poly) c bs) = foldl (high_step poly) ((shl_step poly ^^ 16) c) bs"
proof (induction bs arbitrary: c)
  case (Cons i bs)
  have L: "xor_linear (shl_step poly ^^ 16)" by (intro xor_linear_funpow xor_linear_shl)
  have "(shl_step poly ^^ 16) (low_step poly c i) = high_step poly ((shl_step poly ^^ 16) c) i"
    by (simp add: low_step_def high_step_def xor_linearD[OF L] shl_16_one xor_linear_0[OF L] funpow_swap1)
  then show ?case using Cons by simp
qed simp

lemma high_split: "foldl (high_step poly) c bs = (shl_step poly ^^ length bs) c XOR foldl (high_step poly) 0 bs"
proof (induction bs rule: rev_induct)
  case (snoc i bs)
  then show ?case by (simp add: high_step_def xor_linearD[OF xor_linear_shl] xor.assoc)
qed simp

lemma shl_powers:
  "shl_step poly (256 :: u16_t) = 512" "shl_step poly (512 :: u16_t) = 1024" "shl_step poly (1024 :: u16_t) = 2048"
  "shl_step poly (2048 :: u16_t) = 4096" "shl_step poly (4096 :: u16_t) = 8192" "shl_step poly (8192 :: u16_t) = 16384"
  "shl_step poly (16384 :: u16_t) = 32768" "shl_step poly (32768 :: u16_t) = poly" "shl_step poly (0 :: u16_t) = 0"
  by (simp_all add: shl_step_def word_wraps)

lemma high_byte: "foldl (high_step poly) 0 (bits_of x) = (shl_step poly ^^ 8) (push_bit 8 (ucast x))"
proof (rule xor_linear_eqI[where f = "\<lambda>x. foldl (high_step poly) 0 (bits_of x)" and g = "\<lambda>x. (shl_step poly ^^ 8) (push_bit 8 (ucast x))"])
  have L: "xor_linear (shl_step poly ^^ 8)" by (intro xor_linear_funpow xor_linear_shl)
  show "xor_linear (\<lambda>x :: byte_t. (shl_step poly ^^ 8) (push_bit 8 (ucast x)))"
    using L by (simp add: xor_linear_def ucast_xor push_bit_xor)
  have "foldl (high_step poly) 0 (map (\<lambda>b. bit (x XOR y) (7 - b)) bs) = foldl (high_step poly) 0 (map (\<lambda>b. bit x (7 - b)) bs)
      XOR foldl (high_step poly) 0 (map (\<lambda>b. bit y (7 - b)) bs)" for x y :: byte_t and bs
  proof (induction bs rule: rev_induct)
    case (snoc b bs)
    then show ?case
      by (auto simp: high_step_def xor_linearD[OF xor_linear_shl] bit_simps xor.assoc xor.left_commute xor.commute)
  qed simp
  then show "xor_linear (\<lambda>x. foldl (high_step poly) 0 (bits_of x))" by (simp add: xor_linear_def bits_of_def)
  show "foldl (high_step poly) 0 (bits_of (2 ^ n)) = (shl_step poly ^^ 8) (push_bit 8 (ucast (2 ^ n :: byte_t)))" if "n < LENGTH(8)" for n
  proof -
    have "n < 8" using that by simp
    from less_8_cases[OF this] show ?thesis
      by (elim disjE) (simp_all add: funpow_8 bits_of_def upt_rec high_step_def shl_powers)
  qed
qed

lemma length_bits_of: "length (bits_of x) = 8"
  by (simp add: bits_of_def)

lemma high_bytes:
  "foldl (\<lambda>c x. foldl (high_step poly) c (bits_of x)) c src = crc_msb poly c src"
proof -
  have L: "xor_linear (shl_step poly ^^ 8)" by (intro xor_linear_funpow xor_linear_shl)
  have "foldl (high_step poly) c (bits_of x) = (shl_step poly ^^ 8) (c XOR push_bit 8 (ucast x))" for c x
    using high_split[of poly c "bits_of x"] by (simp add: high_byte xor_linearD[OF L] length_bits_of)
  then show ?thesis by (simp add: crc_msb_def)
qed

lemma crc16_padded: "crc16 src poly init True = crc_msb poly ((shl_step poly ^^ 16) init) src"
proof -
  have "(shl_step poly ^^ 16) (foldl (\<lambda>c x. foldl (low_step poly) c (bits_of x)) init src)
      = foldl (\<lambda>c x. foldl (high_step poly) c (bits_of x)) ((shl_step poly ^^ 16) init) src" for init
    by (induction src arbitrary: init) (simp_all add: low_high)
  moreover have "(shl_step poly ^^ 8) ((shl_step poly ^^ 8) c) = (shl_step poly ^^ 16) c" for c :: u16_t
    using fun_cong[OF funpow_add[of 8 8 "shl_step poly"], of c] by simp
  ultimately show ?thesis
    by (simp add: crc16_def crc16_bytes_map crc16_bits_None high_bytes numeral_2_eq_2 del: upt_Suc)
qed

section \<open>Properties\<close>

text \<open>
  C11: The byte wise routines compute the bit serial checksum of their polynomial: \<open>crc7_be\<close> that of \<open>0x09\<close>, kept in
  the upper seven bits, \<open>crc8_ccitt\<close> with its table of nibbles that of \<open>0x07\<close>, \<open>crc16_itu_t\<close> that of \<open>0x1021\<close> from the high
  end, \<open>crc16_ccitt\<close> that of the reflected \<open>0x1021\<close> from the low end.
\<close>
theorem crc_routines_bit_serial:
  "crc7_be seed src = crc_msb (push_bit 1 0x09) seed src \<and> crc8_ccitt seed src = crc_msb 0x07 seed src
    \<and> crc16_itu_t seed16 src = crc_msb 0x1021 seed16 src \<and> crc16_ccitt seed16 src = crc_lsb 0x8408 seed16 src"
  by (simp add: crc7_be_ref crc8_ccitt_ref crc16_itu_t_ref crc16_ccitt_ref)

text \<open>
  \<open>crc16\<close> with padding, which shifts the message through the low end of the register and sixteen zero bits behind
  it, computes for every polynomial the checksum that adds the message at the high end, for the initial value shifted
  sixteen times; for \<open>0x1021\<close> this is \<open>crc16_itu_t\<close>.
\<close>
theorem crc16_padded_direct:
  "crc16 src poly init True = crc_msb poly ((shl_step poly ^^ 16) init) src
    \<and> crc16 src 0x1021 init True = crc16_itu_t ((shl_step 0x1021 ^^ 16) init) src"
  by (simp add: crc16_padded crc16_itu_t_ref)

text \<open>
  The running checksum can be computed in pieces, and equals the complement of the bit serial checksum of the
  reflected polynomial \<open>0xEDB88320\<close>.
\<close>
theorem crc32_ieee_update_pieces:
  "crc32_ieee_update (crc32_ieee_update crc xs) ys = crc32_ieee_update crc (xs @ ys)
    \<and> crc32_ieee_update crc xs = NOT (crc_lsb 0xEDB88320 (NOT crc) xs)"
  by (simp add: crc32_ieee_update_def crc32_bytes_ref crc_lsb_def)

end
