(* ===== verification/Hex.thy ===== *)
theory Hex
  imports Prelude
begin

text \<open>
  Hexadecimal and decimal conversion, \<^verbatim>\<open>src/lib/sys/hex.c\<close> and \<^verbatim>\<open>src/lib/sys/dec.c\<close>.  A buffer is the list of the
  bytes of the object a pointer points to, so that its length is the space that really is there, whatever the
  caller passes as its size; an access outside of it is \<open>None\<close>.
\<close>

unbundle bit_operations_syntax

section \<open>Hexadecimal digits\<close>

definition char2hex :: "byte_t \<Rightarrow> int + byte_t" where
  "char2hex c =
     (if c \<ge> 0x30 \<and> c \<le> 0x39 then Inr (c - 0x30)
      else if c \<ge> 0x61 \<and> c \<le> 0x66 then Inr (c - 0x61 + 10)
      else if c \<ge> 0x41 \<and> c \<le> 0x46 then Inr (c - 0x41 + 10)
      else Inl (- EINVAL))"

definition hex2char :: "byte_t \<Rightarrow> int + byte_t" where
  "hex2char x =
     (if x \<le> 9 then Inr (x + 0x30)
      else if x \<ge> 10 \<and> x \<le> 15 then Inr (x - 10 + 0x61)
      else Inl (- EINVAL))"

text \<open>The loops run over their list of indices; the flag tells whether they reached the end.\<close>

fun bin2hex_loop :: "byte_t list \<Rightarrow> nat list \<Rightarrow> byte_t list \<Rightarrow> (bool \<times> byte_t list) option" where
  "bin2hex_loop buf [] hex = Some (True, hex)"
| "bin2hex_loop buf (i # is) hex = do {
     x \<leftarrow> arr_get buf (word_of_nat i :: word_t);
     case hex2char (drop_bit 4 x) of Inl _ \<Rightarrow> Some (False, hex)
     | Inr c \<Rightarrow> do {
         hex \<leftarrow> arr_set hex (2 * word_of_nat i :: word_t) c;
         case hex2char (x AND 0xf) of Inl _ \<Rightarrow> Some (False, hex)
         | Inr c \<Rightarrow> do {
             hex \<leftarrow> arr_set hex (2 * word_of_nat i + 1 :: word_t) c;
             bin2hex_loop buf is hex } } }"

definition bin2hex :: "byte_t list \<Rightarrow> word_t \<Rightarrow> byte_t list \<Rightarrow> word_t \<Rightarrow> (word_t \<times> byte_t list) option" where
  "bin2hex buf buflen hex hexlen =
     (if hexlen + 1 < buflen * 2 then Some (0, hex)
      else do {
        (done, hex) \<leftarrow> bin2hex_loop buf [0..<unat buflen] hex;
        if done then do {
          hex \<leftarrow> arr_set hex (2 * buflen) 0;
          Some (2 * buflen, hex) }
        else Some (0, hex) })"

fun hex2bin_loop :: "byte_t list \<Rightarrow> word_t \<Rightarrow> nat list \<Rightarrow> byte_t list \<Rightarrow> (bool \<times> byte_t list) option" where
  "hex2bin_loop hex off [] buf = Some (True, buf)"
| "hex2bin_loop hex off (i # is) buf = do {
     c \<leftarrow> arr_get hex (off + 2 * word_of_nat i);
     case char2hex c of Inl _ \<Rightarrow> Some (False, buf)
     | Inr dec \<Rightarrow> do {
         buf \<leftarrow> arr_set buf (off + word_of_nat i) (push_bit 4 dec);
         c \<leftarrow> arr_get hex (off + (2 * word_of_nat i + 1));
         case char2hex c of Inl _ \<Rightarrow> Some (False, buf)
         | Inr dec \<Rightarrow> do {
             b \<leftarrow> arr_get buf (off + word_of_nat i);
             buf \<leftarrow> arr_set buf (off + word_of_nat i) (b + dec);
             hex2bin_loop hex off is buf } } }"

definition hex2bin :: "byte_t list \<Rightarrow> word_t \<Rightarrow> byte_t list \<Rightarrow> word_t \<Rightarrow> (word_t \<times> byte_t list) option" where
  "hex2bin hex hexlen buf buflen =
     (if buflen < hexlen div 2 + hexlen mod 2 then Some (0, buf)
      else do {
        (go, buf) \<leftarrow>
          (if hexlen mod 2 \<noteq> 0 then do {
             c \<leftarrow> arr_get hex (0 :: word_t);
             case char2hex c of Inl _ \<Rightarrow> Some (False, buf)
             | Inr dec \<Rightarrow> do { buf \<leftarrow> arr_set buf (0 :: word_t) dec; Some (True, buf) } }
           else Some (True, buf));
        if \<not> go then Some (0, buf)
        else do {
          (done, buf) \<leftarrow> hex2bin_loop hex (hexlen mod 2) [0..<unat (hexlen div 2)] buf;
          if done then Some (hexlen div 2 + hexlen mod 2, buf) else Some (0, buf) } })"

section \<open>Decimal digits\<close>

function u8_to_dec_loop :: "byte_t list \<Rightarrow> nat \<Rightarrow> byte_t \<Rightarrow> byte_t \<Rightarrow> byte_t \<Rightarrow> byte_t \<Rightarrow> (byte_t list \<times> nat \<times> byte_t \<times> byte_t) option" where
  "u8_to_dec_loop mem buf buflen divisor num_digits value =
     (if buflen > 0 \<and> divisor > 0 then
        let digit = value div divisor in
        if digit \<noteq> 0 \<or> divisor = 1 \<or> num_digits \<noteq> 0 then
          if buf < length mem then
            u8_to_dec_loop (mem[buf := digit + 0x30]) (buf + 1) (buflen - 1) (divisor div 10) (num_digits + 1)
              (value - digit * divisor)
          else None
        else u8_to_dec_loop mem buf buflen (divisor div 10) num_digits (value - digit * divisor)
      else Some (mem, buf, buflen, num_digits))"
  by pat_completeness auto

lemma div_10_less: "divisor > 0 \<Longrightarrow> unat (divisor div 10 :: byte_t) < unat divisor"
  by (simp add: unat_div word_less_nat_alt)

termination u8_to_dec_loop
  by (relation "measure (\<lambda>(mem, buf, buflen, divisor, num, value). unat divisor)") (simp_all add: div_10_less)

definition u8_to_dec :: "byte_t list \<Rightarrow> byte_t \<Rightarrow> byte_t \<Rightarrow> (byte_t \<times> byte_t list) option" where
  "u8_to_dec mem buflen value = do {
     (mem, buf, buflen, num_digits) \<leftarrow> u8_to_dec_loop mem 0 buflen 100 0 value;
     if buflen \<noteq> 0 then
       if buf < length mem then Some (num_digits, mem[buf := 0]) else None
     else Some (num_digits, mem) }"

section \<open>Facts\<close>

definition hex_digit :: "byte_t \<Rightarrow> byte_t" where
  "hex_digit x = (if x \<le> 9 then x + 0x30 else x - 10 + 0x61)"

definition hex_digits :: "byte_t \<Rightarrow> byte_t list" where
  "hex_digits x = [hex_digit (drop_bit 4 x), hex_digit (x AND 0xf)]"

lemma nibble_cases:
  fixes x :: byte_t
  assumes "x \<le> 15"
  shows "\<exists>n < 16. x = word_of_nat n"
  using assms by (intro exI[of _ "unat x"]) (simp add: word_le_nat_alt)

lemma hex2char_digit: "x \<le> 15 \<Longrightarrow> hex2char x = Inr (hex_digit x)"
  by (auto simp: hex2char_def hex_digit_def not_le word_less_nat_alt word_le_nat_alt)

lemma char2hex_digit: "x \<le> 15 \<Longrightarrow> char2hex (hex_digit x) = Inr x"
proof -
  assume "x \<le> 15"
  then obtain n where "n < 16" "x = word_of_nat n" using nibble_cases by blast
  from less_16_cases[OF this(1)] show ?thesis
    unfolding \<open>x = word_of_nat n\<close> by (elim disjE) (simp_all add: char2hex_def hex_digit_def)
qed

lemma nibbles: "drop_bit 4 x \<le> 15" "x AND 0xf \<le> 15" "push_bit 4 (drop_bit 4 x) + (x AND 0xf) = x" for x :: byte_t
proof -
  have "unat (drop_bit 4 x) = unat x div 16" by (simp add: drop_bit_eq_div unat_div)
  moreover have "unat x < 256" using unsigned_less[of x, where ?'a = nat] by simp
  ultimately show "drop_bit 4 x \<le> 15" by (simp add: word_le_nat_alt)
  show "x AND 0xf \<le> 15" by (rule word_and_le1)
  have m: "x AND 0xf = take_bit 4 x" by (simp add: take_bit_eq_mask mask_eq_exp_minus_1)
  show "push_bit 4 (drop_bit 4 x) + (x AND 0xf) = x" unfolding m using bits_ident[of 4 x] .
qed

lemma hex_digits_length [simp]: "length (hex_digits x) = 2"
  by (simp add: hex_digits_def)

lemma digits_length: "length (concat (map hex_digits bs)) = 2 * length bs"
  by (induction bs) simp_all

lemma unat_index:
  assumes "2 * i + 1 < 2 ^ 32"
  shows "unat (word_of_nat i :: word_t) = i" "unat (2 * word_of_nat i :: word_t) = 2 * i"
    "unat (2 * word_of_nat i + 1 :: word_t) = 2 * i + 1"
proof -
  have *: "2 * word_of_nat i = (word_of_nat (2 * i) :: word_t)" "2 * word_of_nat i + 1 = (word_of_nat (2 * i + 1) :: word_t)" by simp_all
  show "unat (word_of_nat i :: word_t) = i" using assms by (intro unat_word_of_nat) simp
  show "unat (2 * word_of_nat i :: word_t) = 2 * i" unfolding *(1) using assms by (intro unat_word_of_nat) simp
  show "unat (2 * word_of_nat i + 1 :: word_t) = 2 * i + 1" unfolding *(2) using assms by (intro unat_word_of_nat) simp
qed

lemma bin2hex_loop_ok:
  assumes "k \<le> length buf" "2 * length buf < 2 ^ 32" "length pre = 2 * k" "2 * (length buf - k) \<le> length rest"
  shows "bin2hex_loop buf [k..<length buf] (pre @ rest)
    = Some (True, pre @ concat (map hex_digits (drop k buf)) @ drop (2 * (length buf - k)) rest)"
  using assms
proof (induction "length buf - k" arbitrary: k pre rest)
  case (Suc m)
  then have k: "k < length buf" "2 * k + 1 < 2 ^ 32" by linarith+
  obtain r1 r2 rest' where rest: "rest = r1 # r2 # rest'"
    using Suc.prems(4) k(1) by (cases rest; cases "tl rest") auto
  let ?a = "hex_digit (drop_bit 4 (buf ! k))" and ?b = "hex_digit (buf ! k AND 0xf)"
  have u: "[k..<length buf] = k # [Suc k..<length buf]" using k(1) by (simp add: upt_conv_Cons)
  have set1: "arr_set (pre @ rest) (2 * word_of_nat k :: word_t) ?a = Some (pre @ ?a # r2 # rest')"
    using Suc.prems(3) by (simp add: arr_set_def unat_index[OF k(2)] rest list_update_append)
  have set2: "arr_set (pre @ ?a # r2 # rest') (2 * word_of_nat k + 1 :: word_t) ?b = Some (pre @ ?a # ?b # rest')"
    using Suc.prems(3) by (simp add: arr_set_def unat_index[OF k(2)] list_update_append)
  have "bin2hex_loop buf [k..<length buf] (pre @ rest) = bin2hex_loop buf [Suc k..<length buf] ((pre @ hex_digits (buf ! k)) @ rest')"
    using k(1) set1 set2 unfolding u
    by (simp add: unat_index[OF k(2)] hex2char_digit nibbles hex_digits_def)
  also have "\<dots> = Some (True, (pre @ hex_digits (buf ! k)) @ concat (map hex_digits (drop (Suc k) buf)) @ drop (2 * (length buf - Suc k)) rest')"
    using Suc.hyps(2) Suc.prems k(1) by (intro Suc.hyps(1)) (auto simp: rest)
  also have "drop (2 * (length buf - Suc k)) rest' = drop (2 * (length buf - k)) rest"
  proof -
    have e: "2 * (length buf - k) = Suc (Suc (2 * (length buf - Suc k)))" using k(1) by linarith
    show ?thesis unfolding e rest by simp
  qed
  finally have r: "bin2hex_loop buf [k..<length buf] (pre @ rest) = Some (True, (pre @ hex_digits (buf ! k)) @ concat (map hex_digits (drop (Suc k) buf)) @ drop (2 * (length buf - k)) rest)" .
  have "drop k buf = buf ! k # drop (Suc k) buf" using k(1) by (simp add: Cons_nth_drop_Suc)
  then show ?case using r by simp
qed simp

lemma digits_nth:
  "k < length bs \<Longrightarrow> (concat (map hex_digits bs) @ z) ! (2 * k) = hex_digit (drop_bit 4 (bs ! k))"
  "k < length bs \<Longrightarrow> (concat (map hex_digits bs) @ z) ! (2 * k + 1) = hex_digit (bs ! k AND 0xf)"
proof (induction bs arbitrary: k)
  case (Cons b bs)
  { case 1 then show ?case using Cons by (cases k) (simp_all add: hex_digits_def) }
  { case 2 then show ?case using Cons by (cases k) (simp_all add: hex_digits_def) }
qed simp_all

lemma hex2bin_loop_ok:
  assumes "k \<le> length bs" "2 * length bs < 2 ^ 32" "length bs - k \<le> length rest"
  shows "hex2bin_loop (concat (map hex_digits bs) @ z) 0 [k..<length bs] (take k bs @ rest)
    = Some (True, bs @ drop (length bs - k) rest)"
  using assms
proof (induction "length bs - k" arbitrary: k rest)
  case (Suc m)
  then have k: "k < length bs" "2 * k + 1 < 2 ^ 32" by linarith+
  obtain r rest' where rest: "rest = r # rest'" using Suc.prems(3) k(1) by (cases rest) auto
  let ?h = "concat (map hex_digits bs) @ z" and ?x = "bs ! k"
  have u: "[k..<length bs] = k # [Suc k..<length bs]" using k(1) by (simp add: upt_conv_Cons)
  have get: "arr_get ?h (2 * word_of_nat k :: word_t) = Some (hex_digit (drop_bit 4 ?x))"
    "arr_get ?h (2 * word_of_nat k + 1 :: word_t) = Some (hex_digit (?x AND 0xf))"
    using k(1) by (simp_all add: arr_get_def unat_index[OF k(2)] digits_length digits_nth(1)[OF k(1)] digits_nth(2)[OF k(1), simplified])
  have put: "arr_set (take k bs @ y # rest') (word_of_nat k :: word_t) v = Some (take k bs @ v # rest')"
    "arr_get (take k bs @ y # rest') (word_of_nat k :: word_t) = Some y" for y v
    using k(1) by (simp_all add: arr_set_def arr_get_def unat_index[OF k(2)] list_update_append nth_append)
  have "hex2bin_loop ?h 0 [k..<length bs] (take k bs @ rest) = hex2bin_loop ?h 0 [Suc k..<length bs] (take (Suc k) bs @ rest')"
    unfolding u rest using k(1) by (simp add: get put char2hex_digit nibbles take_Suc_conv_app_nth)
  also have "\<dots> = Some (True, bs @ drop (length bs - Suc k) rest')"
    using Suc.hyps(2) Suc.prems k(1) by (intro Suc.hyps(1)) (auto simp: rest)
  also have "drop (length bs - Suc k) rest' = drop (length bs - k) rest"
    using k(1) by (simp add: rest Suc_diff_Suc[symmetric])
  finally show ?case .
qed simp

lemma unat_double:
  assumes "2 * n + 1 < 2 ^ 32"
  shows "unat (word_of_nat n * 2 :: word_t) = 2 * n"
  using unat_index(2)[OF assms] by (simp add: mult.commute)

lemma bin2hex_encodes:
  assumes "2 * length bs + 1 < 2 ^ 32" "2 * length bs \<le> unat hexlen + 1" "unat hexlen + 1 < 2 ^ 32" "2 * length bs \<le> length hex"
  shows "bin2hex bs (word_of_nat (length bs)) hex hexlen = do {
    h \<leftarrow> arr_set (concat (map hex_digits bs) @ drop (2 * length bs) hex) (2 * word_of_nat (length bs) :: word_t) 0;
    Some (2 * word_of_nat (length bs), h) }"
proof -
  have "\<not> hexlen + 1 < word_of_nat (length bs) * 2"
    using assms(2) unat_plus_no_overflow[of hexlen 1] assms(3) by (simp add: word_less_nat_alt unat_double[OF assms(1)])
  moreover have "bin2hex_loop bs [0..<length bs] hex = Some (True, concat (map hex_digits bs) @ drop (2 * length bs) hex)"
    using bin2hex_loop_ok[of 0 bs "[]" hex] assms(1,4) by simp
  ultimately show ?thesis by (simp add: bin2hex_def unat_index(1)[OF assms(1)])
qed

lemma hex2bin_decodes:
  assumes "2 * length bs + 1 < 2 ^ 32" "length bs \<le> unat buflen" "length bs \<le> length buf"
  shows "hex2bin (concat (map hex_digits bs) @ z) (2 * word_of_nat (length bs)) buf buflen = Some (word_of_nat (length bs), bs @ drop (length bs) buf)"
proof -
  let ?n = "word_of_nat (length bs) :: word_t"
  have e: "2 * ?n mod 2 = 0" by (simp add: word_unat_eq_iff unat_mod unat_index(2)[OF assms(1)])
  have d: "2 * ?n div 2 = ?n"
    by (simp add: word_unat_eq_iff unat_div unat_index[OF assms(1)])
  have "\<not> buflen < ?n" using assms(2) by (simp add: word_less_nat_alt unat_index(1)[OF assms(1)])
  then show ?thesis
    using hex2bin_loop_ok[of 0 bs buf z] assms(1,3) by (simp add: hex2bin_def e d unat_index(1)[OF assms(1)])
qed

subsection \<open>Decimal numbers\<close>

declare u8_to_dec_loop.simps [simp del]

lemma dec_skip:
  "\<lbrakk>0 < buflen; 0 < divisor; value div divisor = 0; divisor \<noteq> 1\<rbrakk>
    \<Longrightarrow> u8_to_dec_loop mem buf buflen divisor 0 value = u8_to_dec_loop mem buf buflen (divisor div 10) 0 value"
  by (subst u8_to_dec_loop.simps) (simp add: Let_def)

lemma dec_emit:
  "\<lbrakk>0 < buflen; 0 < divisor; value div divisor \<noteq> 0 \<or> divisor = 1 \<or> num \<noteq> 0; buf < length mem\<rbrakk>
    \<Longrightarrow> u8_to_dec_loop mem buf buflen divisor num value
      = u8_to_dec_loop (mem[buf := value div divisor + 0x30]) (buf + 1) (buflen - 1) (divisor div 10) (num + 1) (value mod divisor)"
  by (subst u8_to_dec_loop.simps) (simp add: Let_def minus_div_mult_eq_mod)

lemma dec_end: "u8_to_dec_loop mem buf buflen 0 num value = Some (mem, buf, buflen, num)"
  by (subst u8_to_dec_loop.simps) simp

definition dec_text :: "nat list \<Rightarrow> byte_t list" where
  "dec_text ds = map (\<lambda>d. word_of_nat d + 0x30) ds"

lemma word_of_nat_unat_div: "(v :: byte_t) div d = word_of_nat (unat v div unat d)" "v mod d = word_of_nat (unat v mod unat d)"
  by (simp_all flip: unat_div unat_mod)

lemma three_digits: "q * 100 + r = n \<Longrightarrow> t * 10 + u = r \<Longrightarrow> 10 * (10 * q + t) + u = (n :: nat)"
  by (auto simp: algebra_simps)

lemma u8_to_dec_small:
  assumes "4 \<le> buflen" "unat v < 10"
  shows "u8_to_dec (a # b # c # d # mem) buflen v = Some (1, dec_text [unat v] @ 0 # c # d # mem)"
proof -
  have p: "0 < buflen" "buflen - 1 \<noteq> 0" using assms(1) by (auto simp: word_le_nat_alt word_less_nat_alt)
  have v: "v div 100 = 0" "v div 10 = 0" using assms(2) by (simp_all add: word_of_nat_unat_div)
  show ?thesis
    using p v by (simp add: u8_to_dec_def dec_skip dec_emit dec_end dec_text_def)
qed

lemma u8_to_dec_medium:
  assumes "4 \<le> buflen" "10 \<le> unat v" "unat v < 100"
  shows "u8_to_dec (a # b # c # d # mem) buflen v = Some (2, dec_text [unat v div 10, unat v mod 10] @ 0 # d # mem)"
proof -
  have p: "0 < buflen" "0 < buflen - 1" "buflen - 1 - 1 \<noteq> 0" using assms(1)
    by (auto simp: word_le_nat_alt word_less_nat_alt word_unat_eq_iff unat_minus_le)
  have v: "v div 100 = 0" "v div 10 \<noteq> 0" using assms(2,3) by (simp_all add: word_unat_eq_iff unat_div)
  show ?thesis
    using p v by (simp add: u8_to_dec_def dec_skip dec_emit dec_end dec_text_def) (simp add: word_of_nat_unat_div)
qed

lemma u8_to_dec_large:
  assumes "4 \<le> buflen" "100 \<le> unat v"
  shows "u8_to_dec (a # b # c # d # mem) buflen v
    = Some (3, dec_text [unat v div 100, unat v mod 100 div 10, unat v mod 100 mod 10] @ 0 # mem)"
proof -
  have p: "0 < buflen" "0 < buflen - 1" "0 < buflen - 1 - 1" "buflen - 1 - 1 - 1 \<noteq> 0" using assms(1)
    by (auto simp: word_le_nat_alt word_less_nat_alt word_unat_eq_iff unat_minus_le)
  have d: "word_of_nat (unat v div 100) = v div 100" "word_of_nat (unat v mod 100 div 10) = v mod 100 div 10"
    "word_of_nat (unat v mod 100 mod 10) = v mod 100 mod 10"
    using word_of_nat_unat_div(1)[of v 100] word_of_nat_unat_div[of "v mod 100" 10] by (simp_all add: unat_mod)
  have v: "v div 100 \<noteq> 0" using assms(2) by (simp add: word_unat_eq_iff unat_div)
  show ?thesis
    using p v d by (simp add: u8_to_dec_def dec_emit dec_end dec_text_def)
qed

section \<open>Properties\<close>

text \<open>
  C33: Converting bytes to text and back gives the bytes: \<open>bin2hex\<close> into a buffer with space for the digits and the
  terminator returns twice the number of bytes, and \<open>hex2bin\<close> of that text returns the bytes and leaves the rest
  of its buffer alone.
\<close>
theorem hex_roundtrip:
  assumes "2 * length bs + 1 < 2 ^ 32" "2 * length bs \<le> unat hexlen" "unat hexlen + 1 < 2 ^ 32" "2 * length bs + 1 \<le> length hex"
    and "length bs \<le> unat buflen" "length bs \<le> length buf"
  shows "\<exists>text. bin2hex bs (word_of_nat (length bs)) hex hexlen = Some (2 * word_of_nat (length bs), text)
    \<and> hex2bin text (2 * word_of_nat (length bs)) buf buflen = Some (word_of_nat (length bs), bs @ drop (length bs) buf)"
proof -
  obtain r rest where r: "drop (2 * length bs) hex = r # rest" using assms(4) by (cases "drop (2 * length bs) hex") auto
  have "bin2hex bs (word_of_nat (length bs)) hex hexlen = Some (2 * word_of_nat (length bs), concat (map hex_digits bs) @ 0 # rest)"
    using bin2hex_encodes[of bs hexlen hex] assms
    by (simp add: r arr_set_def unat_index(2)[OF assms(1)] digits_length list_update_append)
  then show ?thesis using hex2bin_decodes[OF assms(1,5,6), of "0 # rest"] by blast
qed

theorem hex_roundtrip_witness:
  "\<exists>text. bin2hex [0x12, 0xaf] (word_of_nat (length [0x12 :: byte_t, 0xaf])) (replicate 5 0) 5 = Some (2 * word_of_nat (length [0x12 :: byte_t, 0xaf]), text)
    \<and> hex2bin text (2 * word_of_nat (length [0x12 :: byte_t, 0xaf])) [0, 0] 2
      = Some (word_of_nat (length [0x12 :: byte_t, 0xaf]), [0x12, 0xaf] @ drop (length [0x12 :: byte_t, 0xaf]) [0, 0])"
  by (rule hex_roundtrip) simp_all

text \<open>
  The size check of \<open>bin2hex\<close> forgets the terminator: with a buffer of exactly two characters for each byte the check
  passes, and the routine writes behind the buffer.
\<close>
theorem bin2hex_writes_behind_buffer:
  assumes "2 * length bs + 1 < 2 ^ 32" "length hex = 2 * length bs"
  shows "bin2hex bs (word_of_nat (length bs)) hex (word_of_nat (length hex)) = None"
proof -
  have u: "unat (word_of_nat (length hex) :: word_t) = 2 * length bs"
    using assms by (simp add: unat_index(2)[OF assms(1)])
  show ?thesis
    using bin2hex_encodes[of bs "word_of_nat (length hex)" hex] assms u
    by (simp add: arr_set_def unat_index(2)[OF assms(1)] digits_length)
qed

theorem bin2hex_writes_behind_buffer_witness:
  "bin2hex [0x12, 0xaf] (word_of_nat (length [0x12 :: byte_t, 0xaf])) [0, 0, 0, 0] (word_of_nat (length [0 :: byte_t, 0, 0, 0])) = None"
  by (rule bin2hex_writes_behind_buffer) simp_all

text \<open>
  A buffer of at least four characters is enough for every byte: \<open>u8_to_dec\<close> writes its decimal digits without
  leading zeros and a terminator, and returns the number of digits.
\<close>
theorem u8_to_dec_digits:
  assumes "4 \<le> buflen" "4 \<le> length mem"
  shows "\<exists>ds. u8_to_dec mem buflen v = Some (word_of_nat (length ds), dec_text ds @ 0 # drop (length ds + 1) mem)
    \<and> list_all (\<lambda>d. d < 10) ds \<and> foldl (\<lambda>a d. 10 * a + d) 0 ds = unat v \<and> (hd ds = 0 \<longrightarrow> ds = [0])"
proof -
  obtain a b c d rest where m: "mem = a # b # c # d # rest"
    using assms(2) by (auto simp: Suc_le_length_iff numeral_eq_Suc)
  consider "unat v < 10" | "10 \<le> unat v" "unat v < 100" | "100 \<le> unat v" by linarith
  then show ?thesis
  proof cases
    case 1
    then show ?thesis using u8_to_dec_small[OF assms(1) 1, of a b c d rest] unfolding m
      by (intro exI[of _ "[unat v]"]) (simp add: dec_text_def)
  next
    case 2
    then have "unat v div 10 < 10" "0 < unat v div 10" by linarith+
    then show ?thesis using u8_to_dec_medium[OF assms(1) 2, of a b c d rest] unfolding m
      by (intro exI[of _ "[unat v div 10, unat v mod 10]"]) (simp add: dec_text_def)
  next
    case 3
    moreover have "unat v < 256" using unsigned_less[of v, where ?'a = nat] by simp
    ultimately have "unat v div 100 < 10" "unat v div 100 \<noteq> 0" by linarith+
    moreover have "unat v mod 100 < 100" by simp
    then have "unat v mod 100 div 10 < 10" by linarith
    moreover have "10 * (10 * (unat v div 100) + unat v mod 100 div 10) + unat v mod 100 mod 10 = unat v"
      by (rule three_digits) (rule div_mult_mod_eq)+
    ultimately have "list_all (\<lambda>d. d < 10) [unat v div 100, unat v mod 100 div 10, unat v mod 100 mod 10]"
      "foldl (\<lambda>a d. 10 * a + d) 0 [unat v div 100, unat v mod 100 div 10, unat v mod 100 mod 10] = unat v" "unat v div 100 \<noteq> 0"
      by simp_all
    then show ?thesis using u8_to_dec_large[OF assms(1) 3, of a b c d rest] unfolding m
      by (intro exI[of _ "[unat v div 100, unat v mod 100 div 10, unat v mod 100 mod 10]"])
        (simp add: dec_text_def)
  qed
qed

theorem u8_to_dec_digits_witness:
  "\<exists>ds. u8_to_dec [1, 1, 1, 1] 4 207 = Some (word_of_nat (length ds), dec_text ds @ 0 # drop (length ds + 1) [1, 1, 1, 1])
    \<and> list_all (\<lambda>d. d < 10) ds \<and> foldl (\<lambda>a d. 10 * a + d) 0 ds = unat (207 :: byte_t) \<and> (hd ds = 0 \<longrightarrow> ds = [0])"
  by (rule u8_to_dec_digits) simp_all

end
