(* ===== verification/Ring_Buffer.thy ===== *)
theory Ring_Buffer
  imports Prelude
begin

text \<open>
  The ring buffer of \<^verbatim>\<open>src/lib/sys/ring_buffer.c\<close> and \<^verbatim>\<open>inc/sys/ring_buffer.h\<close>.  The union of the two buffer
  pointers is the type parameter of the record: bytes in byte mode and words in item mode.  The union of the two modes'
  private data is the pair \<open>tmp_tail\<close> and \<open>tmp_head\<close>; the count of dropped items of item mode shares
  its word with \<open>tmp_tail\<close>.  A source or destination pointer is the list of the bytes or words behind it.
\<close>

unbundle bit_operations_syntax

section \<open>State and parameters\<close>

record 'a ring_buf =
  rb_head :: word_t
  rb_tail :: word_t
  tmp_tail :: word_t
  tmp_head :: word_t
  rb_size :: word_t
  rb_buf :: "'a list"
  rb_mask :: word_t

definition is_power_of_two :: "word_t \<Rightarrow> bool" where
  "is_power_of_two x \<longleftrightarrow> x \<noteq> 0 \<and> x AND (x - 1) = 0"

definition ring_buf_init :: "word_t \<Rightarrow> 'a list \<Rightarrow> 'a ring_buf" where
  "ring_buf_init sz data = \<lparr>rb_head = 0, rb_tail = 0, tmp_tail = 0, tmp_head = 0, rb_size = sz, rb_buf = data,
     rb_mask = (if is_power_of_two sz then sz - 1 else 0)\<rparr>"

definition ring_buf_custom_space_get :: "word_t \<Rightarrow> word_t \<Rightarrow> word_t \<Rightarrow> word_t" where
  "ring_buf_custom_space_get sz h t = (if t < h then h - t - 1 else (sz - t) + h - 1)"

definition ring_buf_is_empty :: "'a ring_buf \<Rightarrow> bool" where
  "ring_buf_is_empty b \<longleftrightarrow> rb_head b = rb_tail b"

definition ring_buf_reset :: "'a ring_buf \<Rightarrow> 'a ring_buf" where
  "ring_buf_reset b = b\<lparr>rb_head := 0, rb_tail := 0, tmp_tail := 0, tmp_head := 0\<rparr>"

definition ring_buf_space_get :: "'a ring_buf \<Rightarrow> word_t" where
  "ring_buf_space_get b = ring_buf_custom_space_get (rb_size b) (rb_head b) (rb_tail b)"

definition ring_buf_capacity_get :: "'a ring_buf \<Rightarrow> word_t" where
  "ring_buf_capacity_get b = rb_size b - 1"

section \<open>Items\<close>

definition ring_element :: "16 word \<Rightarrow> byte_t \<Rightarrow> byte_t \<Rightarrow> word_t" where
  "ring_element type len value = ucast type OR push_bit 16 (ucast len) OR push_bit 24 (ucast value)"

definition element_type :: "word_t \<Rightarrow> 16 word" where
  "element_type w = ucast w"

definition element_length :: "word_t \<Rightarrow> byte_t" where
  "element_length w = ucast (drop_bit 16 w)"

definition element_value :: "word_t \<Rightarrow> byte_t" where
  "element_value w = ucast (drop_bit 24 w)"

definition item_index :: "'a ring_buf \<Rightarrow> word_t \<Rightarrow> word_t" where
  "item_index b i = (if rb_mask b \<noteq> 0 then i AND rb_mask b else i mod rb_size b)"

fun item_put_loop :: "word_t ring_buf \<Rightarrow> word_t list \<Rightarrow> nat list \<Rightarrow> word_t list \<Rightarrow> word_t list option" where
  "item_put_loop b data [] mem = Some mem"
| "item_put_loop b data (i # is) mem = do {
     x \<leftarrow> arr_get data (word_of_nat i :: word_t);
     mem \<leftarrow> arr_set mem (item_index b (word_of_nat i + rb_tail b + 1)) x;
     item_put_loop b data is mem }"

definition ring_buf_item_put :: "word_t ring_buf \<Rightarrow> 16 word \<Rightarrow> byte_t \<Rightarrow> word_t list \<Rightarrow> byte_t \<Rightarrow> (int \<times> word_t ring_buf) option" where
  "ring_buf_item_put b type value data size32 =
     (if ring_buf_space_get b \<ge> ucast size32 + 1 then do {
        mem \<leftarrow> arr_set (rb_buf b) (rb_tail b) (ring_element type size32 value);
        mem \<leftarrow> item_put_loop b data [0..<unat size32] mem;
        Some (0, b\<lparr>rb_buf := mem, rb_tail := item_index b (rb_tail b + ucast size32 + 1)\<rparr>) }
      else Some (- EMSGSIZE, b\<lparr>tmp_tail := tmp_tail b + 1\<rparr>))"

fun item_get_loop :: "word_t ring_buf \<Rightarrow> nat list \<Rightarrow> word_t list \<Rightarrow> word_t list option" where
  "item_get_loop b [] data = Some data"
| "item_get_loop b (i # is) data = do {
     x \<leftarrow> arr_get (rb_buf b) (item_index b (word_of_nat i + rb_head b + 1));
     data \<leftarrow> arr_set data (word_of_nat i :: word_t) x;
     item_get_loop b is data }"

text \<open>The result: return code, type and value (when they are written), size, data and the buffer.\<close>

definition ring_buf_item_get :: "word_t ring_buf \<Rightarrow> word_t list \<Rightarrow> byte_t
    \<Rightarrow> (int \<times> (16 word \<times> byte_t) option \<times> byte_t \<times> word_t list \<times> word_t ring_buf) option" where
  "ring_buf_item_get b data size32 =
     (if ring_buf_is_empty b then Some (- EAGAIN, None, size32, data, b)
      else do {
        header \<leftarrow> arr_get (rb_buf b) (rb_head b);
        if element_length header > size32 then Some (- EMSGSIZE, None, element_length header, data, b)
        else do {
          data \<leftarrow> item_get_loop b [0..<unat (element_length header)] data;
          Some (0, Some (element_type header, element_value header), element_length header, data,
            b\<lparr>rb_head := item_index b (rb_head b + ucast (element_length header) + 1)\<rparr>) } })"

section \<open>Bytes\<close>

definition wrap :: "word_t \<Rightarrow> word_t \<Rightarrow> word_t" where
  "wrap val limit = (if val \<ge> limit then val - limit else val)"

text \<open>A claim returns the size and the index of the claimed area.\<close>

definition ring_buf_put_claim :: "byte_t ring_buf \<Rightarrow> word_t \<Rightarrow> word_t \<times> word_t \<times> byte_t ring_buf" where
  "ring_buf_put_claim b sz =
     (let space = ring_buf_custom_space_get (rb_size b) (rb_head b) (tmp_tail b);
          sz = min sz space;
          trail_size = rb_size b - tmp_tail b;
          allocated = min trail_size sz
      in (allocated, tmp_tail b, b\<lparr>tmp_tail := wrap (tmp_tail b + allocated) (rb_size b)\<rparr>))"

definition ring_buf_put_finish :: "byte_t ring_buf \<Rightarrow> word_t \<Rightarrow> int \<times> byte_t ring_buf" where
  "ring_buf_put_finish b sz =
     (if sz > ring_buf_space_get b then (- EINVAL, b)
      else let t = wrap (rb_tail b + sz) (rb_size b) in (0, b\<lparr>rb_tail := t, tmp_tail := t\<rparr>))"

definition memcpy :: "byte_t list \<Rightarrow> nat \<Rightarrow> byte_t list \<Rightarrow> nat \<Rightarrow> byte_t list option" where
  "memcpy dst at src n =
     (if at + n \<le> length dst \<and> n \<le> length src then Some (take at dst @ take n src @ drop (at + n) dst) else None)"

partial_function (option) ring_buf_put_loop :: "byte_t ring_buf \<Rightarrow> byte_t list \<Rightarrow> word_t \<Rightarrow> word_t \<Rightarrow> (word_t \<times> byte_t ring_buf) option" where
  "ring_buf_put_loop b data sz total_size =
     (case ring_buf_put_claim b sz of (partial_size, dst, b) \<Rightarrow> do {
        mem \<leftarrow> memcpy (rb_buf b) (unat dst) data (unat partial_size);
        let b = b\<lparr>rb_buf := mem\<rparr>;
        let total_size = total_size + partial_size;
        let sz = sz - partial_size;
        if sz \<noteq> 0 \<and> partial_size \<noteq> 0 then ring_buf_put_loop b (drop (unat partial_size) data) sz total_size
        else Some (total_size, b) })"

declare ring_buf_put_loop.simps [code]

definition ring_buf_put :: "byte_t ring_buf \<Rightarrow> byte_t list \<Rightarrow> word_t \<Rightarrow> (word_t \<times> byte_t ring_buf) option" where
  "ring_buf_put b data sz = do {
     (total_size, b) \<leftarrow> ring_buf_put_loop b data sz 0;
     let (err, b) = ring_buf_put_finish b total_size;
     assertK (err = 0);
     Some (total_size, b) }"

definition ring_buf_get_claim :: "byte_t ring_buf \<Rightarrow> word_t \<Rightarrow> word_t \<times> word_t \<times> byte_t ring_buf" where
  "ring_buf_get_claim b sz =
     (let space = (rb_size b - 1) - ring_buf_custom_space_get (rb_size b) (tmp_head b) (rb_tail b);
          trail_size = rb_size b - tmp_head b;
          granted_size = min sz space;
          granted_size = min trail_size granted_size
      in (granted_size, tmp_head b, b\<lparr>tmp_head := wrap (tmp_head b + granted_size) (rb_size b)\<rparr>))"

definition ring_buf_get_finish :: "byte_t ring_buf \<Rightarrow> word_t \<Rightarrow> int \<times> byte_t ring_buf" where
  "ring_buf_get_finish b sz =
     (let allocated = (rb_size b - 1) - ring_buf_space_get b
      in if sz > allocated then (- EINVAL, b)
         else let h = wrap (rb_head b + sz) (rb_size b) in (0, b\<lparr>rb_head := h, tmp_head := h\<rparr>))"

text \<open>The destination of \<open>ring_buf_get\<close> is written at a position that advances by each piece.\<close>

partial_function (option) ring_buf_get_loop :: "byte_t ring_buf \<Rightarrow> byte_t list \<Rightarrow> nat \<Rightarrow> word_t \<Rightarrow> word_t
    \<Rightarrow> (word_t \<times> byte_t list \<times> byte_t ring_buf) option" where
  "ring_buf_get_loop b data at sz total_size =
     (case ring_buf_get_claim b sz of (partial_size, src, b) \<Rightarrow> do {
        data \<leftarrow> memcpy data at (drop (unat src) (rb_buf b)) (unat partial_size);
        let total_size = total_size + partial_size;
        let sz = sz - partial_size;
        if sz \<noteq> 0 \<and> partial_size \<noteq> 0 then ring_buf_get_loop b data (at + unat partial_size) sz total_size
        else Some (total_size, data, b) })"

declare ring_buf_get_loop.simps [code]

definition ring_buf_get :: "byte_t ring_buf \<Rightarrow> byte_t list \<Rightarrow> word_t \<Rightarrow> (word_t \<times> byte_t list \<times> byte_t ring_buf) option" where
  "ring_buf_get b data sz = do {
     (total_size, data, b) \<leftarrow> ring_buf_get_loop b data 0 sz 0;
     let (err, b) = ring_buf_get_finish b total_size;
     assertK (err = 0);
     Some (total_size, data, b) }"

section \<open>Abstraction\<close>

text \<open>The cells of a circular array of \<open>n\<close> elements, from \<open>h\<close> on.\<close>

definition cells :: "'a list \<Rightarrow> nat \<Rightarrow> nat \<Rightarrow> nat \<Rightarrow> 'a list" where
  "cells mem n h k = map (\<lambda>i. mem ! ((h + i) mod n)) [0..<k]"

lemma length_cells [simp]: "length (cells mem n h k) = k"
  by (simp add: cells_def)

lemma nth_cells: "i < k \<Longrightarrow> cells mem n h k ! i = mem ! ((h + i) mod n)"
  by (simp add: cells_def)

lemma mod_shift_inj:
  assumes "(h + i) mod n = (h + j) mod n" "i < n" "j < n"
  shows "i = (j :: nat)"
  using assms
proof (induction i j rule: linorder_wlog)
  case (le i j)
  then have "n dvd (h + j) - (h + i)" by (intro mod_eq_dvd_iff_nat[THEN iffD1]) simp_all
  then have "n dvd j - i" by simp
  then show ?case using le by (cases "i = j") (auto dest: dvd_imp_le)
qed simp

lemma write_block:
  assumes "length mem = n" "h < n" "u + m < n" "(h + u) mod n + m \<le> n" "m \<le> length data"
  defines "p \<equiv> (h + u) mod n"
  shows "cells (take p mem @ take m data @ drop (p + m) mem) n h (u + m) = cells mem n h u @ take m data"
proof (rule nth_equalityI)
  fix i
  assume "i < length (cells (take p mem @ take m data @ drop (p + m) mem) n h (u + m))"
  then have i: "i < u + m" by simp
  let ?k = "(h + i) mod n"
  have k: "?k < n" using assms(2) by simp
  have at: "cells xs n h (u + m) ! i = xs ! ?k" for xs :: "'a list" using i by (simp add: cells_def)
  have p: "p < n" "p + m \<le> n" using assms(2,4) by (simp_all add: p_def)
  show "cells (take p mem @ take m data @ drop (p + m) mem) n h (u + m) ! i = (cells mem n h u @ take m data) ! i"
  proof (cases "i < u")
    case True
    have "\<not> (p \<le> ?k \<and> ?k < p + m)"
    proof
      assume a: "p \<le> ?k \<and> ?k < p + m"
      define j where "j = ?k - p"
      have "?k = (p + j) mod n" using a k by (simp add: j_def)
      moreover have "j < m" using a unfolding j_def by linarith
      ultimately have "(h + i) mod n = (h + (u + j)) mod n" unfolding p_def by (simp add: mod_simps add.assoc)
      then have "i = u + j" using i assms(3) \<open>j < m\<close> by (intro mod_shift_inj[of h i n "u + j"]) simp_all
      then show False using True by simp
    qed
    then have "(take p mem @ take m data @ drop (p + m) mem) ! ?k = mem ! ?k"
      using p assms(1,5) k by (auto simp: nth_append min_def)
    moreover have "(cells mem n h u @ take m data) ! i = mem ! ?k" using True by (simp add: cells_def nth_append)
    ultimately show ?thesis unfolding at by simp
  next
    case False
    define j where "j = i - u"
    have j: "i = u + j" "j < m" using False i by (simp_all add: j_def)
    have "?k = (p + j) mod n" unfolding p_def by (simp add: j mod_simps add.assoc)
    then have "?k = p + j" using j p by simp
    then have "(take p mem @ take m data @ drop (p + m) mem) ! ?k = data ! j"
      using p assms(1,5) j by (simp add: nth_append min_def)
    moreover have "(cells mem n h u @ take m data) ! i = data ! j" using False j by (simp add: nth_append)
    ultimately show ?thesis unfolding at by simp
  qed
qed (use assms(5) in simp)

lemma read_block:
  assumes "length mem = n" "h < n" "h + m \<le> n" "m \<le> u"
  shows "cells mem n h u = take m (drop h mem) @ cells mem n ((h + m) mod n) (u - m)"
proof (rule nth_equalityI)
  fix i
  assume "i < length (cells mem n h u)"
  then have i: "i < u" by simp
  show "cells mem n h u ! i = (take m (drop h mem) @ cells mem n ((h + m) mod n) (u - m)) ! i"
  proof (cases "i < m")
    case True
    then show ?thesis using i assms by (simp add: cells_def nth_append)
  next
    case False
    then have "h + i = h + m + (i - m)" by simp
    then have "((h + m) mod n + (i - m)) mod n = (h + i) mod n" by (simp only: mod_add_left_eq)
    then show ?thesis using i False assms by (simp add: cells_def nth_append)
  qed
qed (use assms in simp)

definition used :: "nat \<Rightarrow> nat \<Rightarrow> nat \<Rightarrow> nat" where
  "used n h t = (t + n - h) mod n"

lemma used_less: "0 < n \<Longrightarrow> used n h t < n"
  by (simp add: used_def)

lemma used_split: "\<lbrakk>h < n; t < n\<rbrakk> \<Longrightarrow> used n h t = (if t < h then t + n - h else t - h)"
  by (auto simp: used_def mod_if)

lemma used_shift: "\<lbrakk>h < n; u < n\<rbrakk> \<Longrightarrow> used n h ((h + u) mod n) = u"
  by (subst used_split) (auto simp: mod_if)

lemma shift_used: "\<lbrakk>h < n; t < n\<rbrakk> \<Longrightarrow> (h + used n h t) mod n = t"
  by (auto simp: used_split)

lemma used_head: "\<lbrakk>h < n; t < n; m \<le> used n h t\<rbrakk> \<Longrightarrow> used n ((h + m) mod n) t = used n h t - m"
proof (cases "h + m < n")
  case True
  moreover assume "h < n" "t < n" "m \<le> used n h t"
  ultimately show ?thesis by (auto simp: used_split split: if_splits)
next
  case False
  moreover assume a: "h < n" "t < n" "m \<le> used n h t"
  moreover have "h + m < n + n" using a used_less[of n h t] by simp
  ultimately have "(h + m) mod n = h + m - n" by (simp add: le_mod_geq)
  then show ?thesis using a False by (auto simp: used_split split: if_splits)
qed

lemma min_diff: "\<lbrakk>m \<le> a; m \<le> b\<rbrakk> \<Longrightarrow> m + min (a - m) (b - m) = min a (b :: nat)"
  by linarith

lemma unat_imp: "unat m = k \<Longrightarrow> m = word_of_nat k"
  by auto

lemma unat_min: "unat (min a b) = min (unat a) (unat b)"
  by (simp add: min_def word_le_nat_alt)

lemma unat_space:
  assumes "h < sz" "t < sz"
  shows "unat (ring_buf_custom_space_get sz h t) = unat sz - 1 - used (unat sz) (unat h) (unat t)"
proof (cases "t < h")
  case True
  then have "unat (h - t - 1) = unat h - unat t - 1"
    by (subst unat_minus_le) (auto simp: unat_minus_le word_less_nat_alt word_le_nat_alt)
  then show ?thesis using True assms by (auto simp: ring_buf_custom_space_get_def used_split word_less_nat_alt)
next
  case False
  have d: "unat (sz - t) = unat sz - unat t" using assms(2) by (intro unat_minus_le) simp
  have "h \<le> t" using False by simp
  then have "unat (sz - t) + unat h < 2 ^ 32"
    using assms(2) unat_bound32[of sz] unfolding d by (simp add: word_less_nat_alt word_le_nat_alt)
  then have a: "unat (sz - t + h) = unat sz - unat t + unat h" using d by (subst unat_plus_no_overflow) simp_all
  have "unat (sz - t + h - 1) = unat (sz - t + h) - 1"
    using a assms(2) by (intro unat_minus_one) (auto simp: word_unat_eq_iff word_less_nat_alt)
  then show ?thesis using False assms a by (auto simp: ring_buf_custom_space_get_def used_split word_less_nat_alt)
qed

lemma unat_wrap:
  assumes "unat v + unat m < 2 ^ 32" "unat v + unat m < 2 * unat sz"
  shows "unat (wrap (v + m) sz) = (unat v + unat m) mod unat sz"
proof -
  have s: "unat (v + m) = unat v + unat m" using assms(1) by (intro unat_plus_no_overflow) simp
  show ?thesis
    using assms(2) by (auto simp: wrap_def word_le_nat_alt s unat_minus_le mod_if not_le)
qed

definition rb_same :: "'a ring_buf \<Rightarrow> 'a ring_buf \<Rightarrow> bool" where
  "rb_same b b' \<longleftrightarrow> rb_head b' = rb_head b \<and> rb_tail b' = rb_tail b \<and> rb_size b' = rb_size b \<and> rb_mask b' = rb_mask b"

definition rb_ok :: "'a ring_buf \<Rightarrow> bool" where
  "rb_ok b \<longleftrightarrow> length (rb_buf b) = unat (rb_size b) \<and> 2 * unat (rb_size b) \<le> 2 ^ 32 \<and> rb_head b < rb_size b \<and> rb_tail b < rb_size b"

definition rb_inv :: "'a ring_buf \<Rightarrow> bool" where
  "rb_inv b \<longleftrightarrow> rb_ok b \<and> tmp_tail b = rb_tail b \<and> tmp_head b = rb_head b"

definition contents :: "'a ring_buf \<Rightarrow> 'a list" where
  "contents b = cells (rb_buf b) (unat (rb_size b)) (unat (rb_head b))
     (used (unat (rb_size b)) (unat (rb_head b)) (unat (rb_tail b)))"

definition rb_free :: "'a ring_buf \<Rightarrow> nat" where
  "rb_free b = unat (rb_size b) - 1 - length (contents b)"

lemma put_claim_ok:
  assumes "rb_head b < rb_size b" "u < unat (rb_size b)" "unat (tmp_tail b) = (unat (rb_head b) + u) mod unat (rb_size b)"
    and "2 * unat (rb_size b) \<le> 2 ^ 32"
  shows "\<exists>m b'. ring_buf_put_claim b sz = (m, tmp_tail b, b') \<and> unat m = min (unat (rb_size b) - unat (tmp_tail b)) (min (unat sz) (unat (rb_size b) - 1 - u))
    \<and> rb_same b b' \<and> tmp_head b' = tmp_head b \<and> rb_buf b' = rb_buf b
    \<and> unat (tmp_tail b') = (unat (rb_head b) + (u + unat m)) mod unat (rb_size b)"
proof -
  let ?n = "unat (rb_size b)" and ?h = "unat (rb_head b)" and ?p = "unat (tmp_tail b)"
  have h: "?h < ?n" and n: "0 < ?n" using assms(1,2) by (simp_all add: word_less_nat_alt)
  have p: "?p < ?n" using n by (simp add: assms(3))
  then have pw: "tmp_tail b < rb_size b" by (simp add: word_less_nat_alt)
  have sp: "unat (ring_buf_custom_space_get (rb_size b) (rb_head b) (tmp_tail b)) = ?n - 1 - u"
    using unat_space[OF assms(1) pw] used_shift[OF h assms(2)] by (simp add: assms(3))
  define m where "m = min (rb_size b - tmp_tail b) (min sz (ring_buf_custom_space_get (rb_size b) (rb_head b) (tmp_tail b)))"
  have m: "unat m = min (?n - ?p) (min (unat sz) (?n - 1 - u))"
    using unat_minus_le[OF less_imp_le[OF pw]] by (simp add: m_def unat_min sp)
  have "unat (wrap (tmp_tail b + m) (rb_size b)) = (?p + unat m) mod ?n"
  proof (rule unat_wrap)
    have "unat m \<le> ?n - ?p" unfolding m by simp
    then have "?p + unat m \<le> ?n" using p by linarith
    then show "?p + unat m < 2 ^ 32" "?p + unat m < 2 * ?n" using assms(4) n by linarith+
  qed
  also have "\<dots> = (?h + (u + unat m)) mod ?n" by (simp add: assms(3) mod_simps add.assoc)
  finally have t: "unat (wrap (tmp_tail b + m) (rb_size b)) = (?h + (u + unat m)) mod ?n" .
  have "ring_buf_put_claim b sz = (m, tmp_tail b, b\<lparr>tmp_tail := wrap (tmp_tail b + m) (rb_size b)\<rparr>)"
    by (simp only: ring_buf_put_claim_def Let_def m_def)
  then show ?thesis using m t by (simp add: rb_same_def)
qed

lemma put_loop_ok:
  assumes "length (rb_buf b) = unat (rb_size b)" "rb_head b < rb_size b" "u < unat (rb_size b)"
    and "unat (tmp_tail b) = (unat (rb_head b) + u) mod unat (rb_size b)" "2 * unat (rb_size b) \<le> 2 ^ 32" "unat sz \<le> length data"
  defines "k \<equiv> min (unat sz) (unat (rb_size b) - 1 - u)"
  shows "\<exists>b'. ring_buf_put_loop b data sz tot = Some (tot + word_of_nat k, b') \<and> rb_same b b' \<and> tmp_head b' = tmp_head b
    \<and> length (rb_buf b') = unat (rb_size b)
    \<and> cells (rb_buf b') (unat (rb_size b)) (unat (rb_head b)) (u + k) = cells (rb_buf b) (unat (rb_size b)) (unat (rb_head b)) u @ take k data"
  using assms(1-6) unfolding k_def
proof (induction "unat sz" arbitrary: b u data sz tot rule: less_induct)
  case less
  let ?n = "unat (rb_size b)" and ?h = "unat (rb_head b)" and ?p = "unat (tmp_tail b)" and ?k = "min (unat sz) (unat (rb_size b) - 1 - u)"
  obtain m b1 where c: "ring_buf_put_claim b sz = (m, tmp_tail b, b1)" "unat m = min (?n - ?p) (min (unat sz) (?n - 1 - u))"
    "rb_same b b1" "tmp_head b1 = tmp_head b" "rb_buf b1 = rb_buf b" "unat (tmp_tail b1) = (?h + (u + unat m)) mod ?n"
    using put_claim_ok[OF less.prems(2,3,4,5), of sz] by blast
  have h: "?h < ?n" using less.prems(2) by (simp add: word_less_nat_alt)
  have p: "?p < ?n" using h by (simp add: less.prems(4))
  have m: "unat m \<le> unat sz" "?p + unat m \<le> ?n" "u + unat m < ?n" "unat m \<le> length data"
    using c(2) p less.prems(3,6) by (auto simp: min_def split: if_splits)
  define mem where "mem = take ?p (rb_buf b) @ take (unat m) data @ drop (?p + unat m) (rb_buf b)"
  define b2 where "b2 = b1\<lparr>rb_buf := mem\<rparr>"
  have cp: "memcpy (rb_buf b1) ?p data (unat m) = Some mem" using m less.prems(1) by (simp add: memcpy_def c(5) mem_def)
  have w: "cells mem ?n ?h (u + unat m) = cells (rb_buf b) ?n ?h u @ take (unat m) data"
    using write_block[OF less.prems(1) h m(3) _ m(4)] m(2) by (simp add: less.prems(4) mem_def)
  have len: "length mem = ?n" using m p less.prems(1) by (simp add: min_def mem_def)
  have b2: "rb_same b b2" "tmp_head b2 = tmp_head b" "rb_buf b2 = mem" "rb_size b2 = rb_size b" "rb_head b2 = rb_head b"
    "tmp_tail b2 = tmp_tail b1" using c(3,4) by (simp_all add: rb_same_def b2_def)
  have sub: "unat (sz - m) = unat sz - unat m" using m(1) by (intro unat_minus_le) (simp add: word_le_nat_alt)
  show ?case
  proof (cases "sz - m \<noteq> 0 \<and> m \<noteq> 0")
    case True
    then have pos: "0 < unat m" "unat m < unat sz" using sub m(1) by (auto simp: word_unat_eq_iff)
    let ?j = "min (unat (sz - m)) (?n - 1 - (u + unat m))"
    have pr: "unat (sz - m) < unat sz" "length (rb_buf b2) = unat (rb_size b2)" "rb_head b2 < rb_size b2" "u + unat m < unat (rb_size b2)"
      "unat (tmp_tail b2) = (unat (rb_head b2) + (u + unat m)) mod unat (rb_size b2)" "2 * unat (rb_size b2) \<le> 2 ^ 32"
      "unat (sz - m) \<le> length (drop (unat m) data)"
      unfolding b2(3-6) c(6) using len less.prems(2,5,6) m(3) sub pos by simp_all
    obtain b' where b': "ring_buf_put_loop b2 (drop (unat m) data) (sz - m) (tot + m) = Some (tot + m + word_of_nat ?j, b')"
      "rb_same b2 b'" "tmp_head b' = tmp_head b2" "length (rb_buf b') = ?n"
      "cells (rb_buf b') ?n ?h (u + unat m + ?j) = cells mem ?n ?h (u + unat m) @ take ?j (drop (unat m) data)"
      using less.hyps[OF pr, of "tot + m"] unfolding b2(3-5) by blast
    have k: "unat m + ?j = ?k"
      unfolding sub using min_diff[of "unat m" "unat sz" "?n - 1 - u"] m(1,3) by (simp add: diff_diff_left)
    have 1: "tot + m + word_of_nat ?j = tot + word_of_nat ?k" unfolding k[symmetric] by simp
    have 2: "take (unat m) data @ take ?j (drop (unat m) data) = take ?k data" unfolding k[symmetric] by (simp only: take_add)
    have 3: "u + unat m + ?j = u + ?k" using k by simp
    have 4: "rb_same b b'" "tmp_head b' = tmp_head b" using b'(2,3) b2(1,2) by (auto simp: rb_same_def)
    have "ring_buf_put_loop b data sz tot = ring_buf_put_loop b2 (drop (unat m) data) (sz - m) (tot + m)"
      using True cp by (subst ring_buf_put_loop.simps) (simp add: c(1) b2_def)
    moreover have "cells (rb_buf b') ?n ?h (u + ?k) = cells (rb_buf b) ?n ?h u @ take ?k data"
      using b'(5) unfolding 3 w append_assoc 2 .
    ultimately show ?thesis using b'(1,4) 4 unfolding 1 by (intro exI[of _ b']) simp
  next
    case False
    then have "unat m = unat sz \<or> unat m = 0" using sub m(1) by (auto simp: word_unat_eq_iff)
    then have "unat m = ?k"
    proof
      assume "unat m = unat sz"
      then show ?thesis using m(3) by (simp add: min_def)
    next
      assume "unat m = 0"
      then have "min (?n - ?p) ?k = 0" using c(2) by simp
      then show ?thesis using p \<open>unat m = 0\<close> by (simp add: min_def split: if_splits)
    qed
    then have k: "m = word_of_nat ?k" by (rule unat_imp)
    have "ring_buf_put_loop b data sz tot = Some (tot + m, b2)"
      using False cp by (subst ring_buf_put_loop.simps) (auto simp: c(1) b2_def)
    then show ?thesis using w len b2(1-3) k \<open>unat m = ?k\<close> by (intro exI[of _ b2]) simp
  qed
qed

lemma get_claim_ok:
  assumes "tmp_head b < rb_size b" "rb_tail b < rb_size b" "2 * unat (rb_size b) \<le> 2 ^ 32"
  defines "u \<equiv> used (unat (rb_size b)) (unat (tmp_head b)) (unat (rb_tail b))"
  shows "\<exists>m b'. ring_buf_get_claim b sz = (m, tmp_head b, b') \<and> unat m = min (unat (rb_size b) - unat (tmp_head b)) (min (unat sz) u)
    \<and> rb_same b b' \<and> tmp_tail b' = tmp_tail b \<and> rb_buf b' = rb_buf b
    \<and> unat (tmp_head b') = (unat (tmp_head b) + unat m) mod unat (rb_size b)"
proof -
  let ?n = "unat (rb_size b)" and ?p = "unat (tmp_head b)"
  have p: "?p < ?n" "0 < ?n" using assms(1) by (simp_all add: word_less_nat_alt)
  have u: "u < ?n" unfolding u_def using p(2) by (rule used_less)
  have sp: "unat (ring_buf_custom_space_get (rb_size b) (tmp_head b) (rb_tail b)) = ?n - 1 - u"
    unfolding u_def using unat_space[OF assms(1,2)] .
  have n1: "unat (rb_size b - 1) = ?n - 1" using p(2) by (intro unat_minus_one) auto
  have "unat ((rb_size b - 1) - ring_buf_custom_space_get (rb_size b) (tmp_head b) (rb_tail b)) = (?n - 1) - (?n - 1 - u)"
    using n1 sp by (subst unat_minus_le) (simp_all add: word_le_nat_alt)
  then have al: "unat ((rb_size b - 1) - ring_buf_custom_space_get (rb_size b) (tmp_head b) (rb_tail b)) = u" using u by simp
  define m where "m = min (rb_size b - tmp_head b) (min sz ((rb_size b - 1) - ring_buf_custom_space_get (rb_size b) (tmp_head b) (rb_tail b)))"
  have m: "unat m = min (?n - ?p) (min (unat sz) u)"
    using unat_minus_le[OF less_imp_le[OF assms(1)]] al by (simp add: m_def unat_min)
  have "unat (wrap (tmp_head b + m) (rb_size b)) = (?p + unat m) mod ?n"
  proof (rule unat_wrap)
    have "unat m \<le> ?n - ?p" unfolding m by simp
    then have "?p + unat m \<le> ?n" using p by linarith
    then show "?p + unat m < 2 ^ 32" "?p + unat m < 2 * ?n" using assms(3) p by linarith+
  qed
  moreover have "ring_buf_get_claim b sz = (m, tmp_head b, b\<lparr>tmp_head := wrap (tmp_head b + m) (rb_size b)\<rparr>)"
    by (simp only: ring_buf_get_claim_def Let_def m_def)
  ultimately show ?thesis using m by (simp add: rb_same_def)
qed

lemma get_loop_ok:
  assumes "length (rb_buf b) = unat (rb_size b)" "tmp_head b < rb_size b" "rb_tail b < rb_size b" "2 * unat (rb_size b) \<le> 2 ^ 32"
    and "pos + unat sz \<le> length data"
  shows "let u = used (unat (rb_size b)) (unat (tmp_head b)) (unat (rb_tail b)); k = min (unat sz) u
    in \<exists>b'. ring_buf_get_loop b data pos sz tot = Some (tot + word_of_nat k,
        take pos data @ take k (cells (rb_buf b) (unat (rb_size b)) (unat (tmp_head b)) u) @ drop (pos + k) data, b')
      \<and> rb_same b b' \<and> tmp_tail b' = tmp_tail b \<and> rb_buf b' = rb_buf b"
  using assms unfolding Let_def
proof (induction "unat sz" arbitrary: b pos data sz tot rule: less_induct)
  case less
  let ?n = "unat (rb_size b)" and ?p = "unat (tmp_head b)"
  let ?u = "used ?n ?p (unat (rb_tail b))" and ?c = "cells (rb_buf b) ?n ?p"
  let ?k = "min (unat sz) ?u"
  obtain m b1 where c: "ring_buf_get_claim b sz = (m, tmp_head b, b1)" "unat m = min (?n - ?p) ?k" "rb_same b b1"
    "tmp_tail b1 = tmp_tail b" "rb_buf b1 = rb_buf b" "unat (tmp_head b1) = (?p + unat m) mod ?n"
    using get_claim_ok[OF less.prems(2,3,4), of sz] by blast
  have p: "?p < ?n" "unat (rb_tail b) < ?n" using less.prems(2,3) by (simp_all add: word_less_nat_alt)
  have m: "unat m \<le> unat sz" "unat m \<le> ?u" "?p + unat m \<le> ?n" using c(2) p by linarith+
  define data1 where "data1 = take pos data @ take (unat m) (drop ?p (rb_buf b)) @ drop (pos + unat m) data"
  have cp: "memcpy data pos (drop ?p (rb_buf b1)) (unat m) = Some data1"
    using m less.prems(1,5) by (simp add: memcpy_def c(5) data1_def)
  have r: "?c ?u = take (unat m) (drop ?p (rb_buf b)) @ cells (rb_buf b) ?n ((?p + unat m) mod ?n) (?u - unat m)"
    using m less.prems(1) p by (intro read_block) simp_all
  have lt: "length (take (unat m) (drop ?p (rb_buf b))) = unat m" using m(3) less.prems(1) by simp
  have sub: "unat (sz - m) = unat sz - unat m" using m(1) by (intro unat_minus_le) (simp add: word_le_nat_alt)
  show ?case
  proof (cases "sz - m \<noteq> 0 \<and> m \<noteq> 0")
    case True
    then have pos: "0 < unat m" "unat m < unat sz" using sub m(1) by (auto simp: word_unat_eq_iff)
    have b1: "rb_size b1 = rb_size b" "rb_tail b1 = rb_tail b" "rb_buf b1 = rb_buf b" using c(3,5) by (simp_all add: rb_same_def)
    have u1: "used ?n ((?p + unat m) mod ?n) (unat (rb_tail b)) = ?u - unat m" using used_head[OF p m(2)] .
    let ?j = "min (unat (sz - m)) (?u - unat m)"
    have pr: "unat (sz - m) < unat sz" "length (rb_buf b1) = unat (rb_size b1)" "tmp_head b1 < rb_size b1" "rb_tail b1 < rb_size b1"
      "2 * unat (rb_size b1) \<le> 2 ^ 32" "pos + unat m + unat (sz - m) \<le> length data1"
      unfolding b1 using less.prems(1,3,4,5) sub pos c(6) p lt by (simp_all add: word_less_nat_alt data1_def)
    obtain b' where b': "ring_buf_get_loop b1 data1 (pos + unat m) (sz - m) (tot + m) = Some (tot + m + word_of_nat ?j,
        take (pos + unat m) data1 @ take ?j (cells (rb_buf b) ?n ((?p + unat m) mod ?n) (?u - unat m)) @ drop (pos + unat m + ?j) data1, b')"
      "rb_same b1 b'" "tmp_tail b' = tmp_tail b1" "rb_buf b' = rb_buf b"
      using less.hyps[OF pr, of "tot + m"] unfolding b1 c(6) u1 by blast
    have k: "unat m + ?j = ?k" unfolding sub using min_diff[OF m(1,2)] .
    have 1: "tot + m + word_of_nat ?j = tot + word_of_nat ?k" unfolding k[symmetric] by simp
    have 2: "take ?k (?c ?u) = take (unat m) (drop ?p (rb_buf b)) @ take ?j (cells (rb_buf b) ?n ((?p + unat m) mod ?n) (?u - unat m))"
      unfolding r k[symmetric] using lt by simp
    have lp: "length (take pos data) = pos" using less.prems(5) by simp
    have 3: "take (pos + unat m) data1 = take pos data @ take (unat m) (drop ?p (rb_buf b))"
      "drop (pos + unat m + ?j) data1 = drop (pos + ?k) data"
      unfolding data1_def k[symmetric] using lt lp by (simp_all add: ac_simps)
    have "ring_buf_get_loop b data pos sz tot = ring_buf_get_loop b1 data1 (pos + unat m) (sz - m) (tot + m)"
      using True cp by (subst ring_buf_get_loop.simps) (simp add: c(1))
    moreover have "rb_same b b'" "tmp_tail b' = tmp_tail b" using b'(2,3) c(3,4) by (auto simp: rb_same_def)
    ultimately show ?thesis using b'(1,4) unfolding 1 3 2 by simp
  next
    case False
    then have "unat m = unat sz \<or> unat m = 0" using sub m(1) by (auto simp: word_unat_eq_iff)
    then have mk: "unat m = ?k" using c(2) p m by linarith
    have "ring_buf_get_loop b data pos sz tot = Some (tot + m, data1, b1)"
      using False cp by (subst ring_buf_get_loop.simps) (auto simp: c(1))
    moreover have "take ?k (?c ?u) = take (unat m) (drop ?p (rb_buf b))" unfolding r mk[symmetric] using lt by simp
    ultimately show ?thesis using c(3-5) unat_imp[OF mk] mk by (simp add: data1_def)
  qed
qed

lemma rb_ok_nat: "rb_ok b \<Longrightarrow> unat (rb_head b) < unat (rb_size b) \<and> unat (rb_tail b) < unat (rb_size b)"
  by (simp add: rb_ok_def word_less_nat_alt)

lemma length_contents: "length (contents b) = used (unat (rb_size b)) (unat (rb_head b)) (unat (rb_tail b))"
  by (simp add: contents_def)

lemma ring_buf_put_ok:
  assumes "rb_inv b" "unat sz \<le> length data"
  defines "k \<equiv> min (unat sz) (rb_free b)"
  shows "\<exists>b'. ring_buf_put b data sz = Some (word_of_nat k, b') \<and> rb_inv b' \<and> contents b' = contents b @ take k data
    \<and> rb_size b' = rb_size b"
proof -
  let ?n = "unat (rb_size b)" and ?h = "unat (rb_head b)" and ?t = "unat (rb_tail b)"
  let ?u = "used ?n ?h ?t"
  have ok: "rb_ok b" "tmp_tail b = rb_tail b" "tmp_head b = rb_head b" using assms(1) by (simp_all add: rb_inv_def)
  have h: "?h < ?n" "?t < ?n" using rb_ok_nat[OF ok(1)] by simp_all
  then have u: "?u < ?n" by (intro used_less) simp
  have k: "k = min (unat sz) (?n - 1 - ?u)" by (simp add: k_def rb_free_def length_contents)
  have kn: "?u + k < ?n" "k \<le> unat sz" using u k by linarith+
  have tt: "unat (tmp_tail b) = (?h + ?u) mod ?n" using shift_used[OF h] ok(2) by simp
  obtain b1 where b1: "ring_buf_put_loop b data sz 0 = Some (word_of_nat k, b1)" "rb_same b b1" "tmp_head b1 = tmp_head b"
    "length (rb_buf b1) = ?n" "cells (rb_buf b1) ?n ?h (?u + k) = cells (rb_buf b) ?n ?h ?u @ take k data"
    using put_loop_ok[of b ?u sz data 0] ok(1) u tt assms(2) unfolding k rb_ok_def by auto
  have uk: "unat (word_of_nat k :: word_t) = k" using kn(2) unat_bound32[of sz] by (intro unat_word_of_nat) simp
  have same: "rb_size b1 = rb_size b" "rb_head b1 = rb_head b" "rb_tail b1 = rb_tail b" using b1(2) by (simp_all add: rb_same_def)
  have "unat (ring_buf_space_get b1) = ?n - 1 - ?u"
    unfolding ring_buf_space_get_def same using ok(1) by (intro unat_space) (simp_all add: rb_ok_def)
  then have fits: "\<not> word_of_nat k > ring_buf_space_get b1" using kn by (simp add: word_less_nat_alt uk)
  define t where "t = wrap (rb_tail b1 + word_of_nat k) (rb_size b1)"
  have "unat t = (?t + k) mod ?n"
    unfolding t_def same using unat_wrap[of "rb_tail b" "word_of_nat k" "rb_size b"] uk kn h ok(1) by (simp add: rb_ok_def)
  also have "\<dots> = (?h + (?u + k)) mod ?n" using mod_add_left_eq[of "?h + ?u" ?n k] shift_used[OF h] by (simp add: add.assoc)
  finally have ut: "unat t = (?h + (?u + k)) mod ?n" .
  then have us: "used ?n ?h (unat t) = ?u + k" using used_shift[OF h(1) kn(1)] by simp
  define b2 where "b2 = b1\<lparr>rb_tail := t, tmp_tail := t\<rparr>"
  have "ring_buf_put b data sz = Some (word_of_nat k, b2)"
    using b1(1) fits by (simp add: ring_buf_put_def ring_buf_put_finish_def Let_def b2_def t_def)
  moreover have "rb_inv b2"
    using b1(3,4) ok same ut h by (simp add: rb_inv_def rb_ok_def b2_def word_less_nat_alt)
  moreover have "contents b2 = contents b @ take k data"
    using b1(5) by (simp add: contents_def b2_def same us)
  ultimately show ?thesis using same by (intro exI[of _ b2]) (simp add: b2_def)
qed

lemma ring_buf_get_ok:
  assumes "rb_inv b" "unat sz \<le> length data"
  defines "k \<equiv> min (unat sz) (length (contents b))"
  shows "\<exists>b'. ring_buf_get b data sz = Some (word_of_nat k, take k (contents b) @ drop k data, b') \<and> rb_inv b'
    \<and> contents b' = drop k (contents b) \<and> rb_size b' = rb_size b"
proof -
  let ?n = "unat (rb_size b)" and ?h = "unat (rb_head b)" and ?t = "unat (rb_tail b)"
  let ?u = "used ?n ?h ?t"
  have ok: "rb_ok b" "tmp_tail b = rb_tail b" "tmp_head b = rb_head b" using assms(1) by (simp_all add: rb_inv_def)
  have h: "?h < ?n" "?t < ?n" using rb_ok_nat[OF ok(1)] by simp_all
  then have u: "?u < ?n" by (intro used_less) simp
  have k: "k = min (unat sz) ?u" by (simp add: k_def length_contents)
  have kn: "k \<le> ?u" "k \<le> unat sz" using k by linarith+
  obtain b1 where b1: "ring_buf_get_loop b data 0 sz 0 = Some (word_of_nat k, take k (contents b) @ drop k data, b1)"
    "rb_same b b1" "tmp_tail b1 = tmp_tail b" "rb_buf b1 = rb_buf b"
    using get_loop_ok[of b 0 sz data 0] ok assms(2) unfolding Let_def k rb_ok_def contents_def by auto
  have uk: "unat (word_of_nat k :: word_t) = k" using kn(2) unat_bound32[of sz] by (intro unat_word_of_nat) simp
  have same: "rb_size b1 = rb_size b" "rb_head b1 = rb_head b" "rb_tail b1 = rb_tail b" using b1(2) by (simp_all add: rb_same_def)
  have sp: "unat (ring_buf_space_get b1) = ?n - 1 - ?u"
    unfolding ring_buf_space_get_def same using ok(1) by (intro unat_space) (simp_all add: rb_ok_def)
  have n1: "unat (rb_size b1 - 1) = ?n - 1" unfolding same using h by (intro unat_minus_one) auto
  have "unat (rb_size b1 - 1 - ring_buf_space_get b1) = ?n - 1 - (?n - 1 - ?u)"
    using n1 sp by (subst unat_minus_le) (simp_all add: word_le_nat_alt)
  then have fits: "\<not> word_of_nat k > rb_size b1 - 1 - ring_buf_space_get b1" using kn u by (simp add: word_less_nat_alt uk)
  define t where "t = wrap (rb_head b1 + word_of_nat k) (rb_size b1)"
  have ut: "unat t = (?h + k) mod ?n"
    unfolding t_def same using unat_wrap[of "rb_head b" "word_of_nat k" "rb_size b"] uk kn u h ok(1) by (simp add: rb_ok_def)
  define b2 where "b2 = b1\<lparr>rb_head := t, tmp_head := t\<rparr>"
  have "ring_buf_get b data sz = Some (word_of_nat k, take k (contents b) @ drop k data, b2)"
    using b1(1) fits by (simp add: ring_buf_get_def ring_buf_get_finish_def Let_def b2_def t_def)
  moreover have "rb_inv b2"
    using b1(3,4) ok same ut h by (simp add: rb_inv_def rb_ok_def b2_def word_less_nat_alt)
  moreover have "contents b2 = drop k (contents b)"
  proof (rule nth_equalityI)
    show "length (contents b2) = length (drop k (contents b))"
      using used_head[OF h kn(1)] by (simp add: length_contents b2_def same ut)
    fix i
    assume "i < length (contents b2)"
    then have i: "i < ?u - k" using used_head[OF h kn(1)] by (simp add: length_contents b2_def same ut)
    have "((?h + k) mod ?n + i) mod ?n = (?h + (k + i)) mod ?n" by (simp add: mod_simps add.assoc)
    then show "contents b2 ! i = drop k (contents b) ! i"
      using i kn used_head[OF h kn(1)] by (simp add: contents_def b2_def same ut b1(4) nth_cells)
  qed
  ultimately show ?thesis using same by (intro exI[of _ b2]) (simp add: b2_def)
qed

subsection \<open>Items\<close>

lemma power_of_two: "is_power_of_two x \<Longrightarrow> \<exists>k < 32. x = 2 ^ k"
  by (auto simp: is_power_of_two_def intro!: power_of_two_word)

definition mask_ok :: "'a ring_buf \<Rightarrow> bool" where
  "mask_ok b \<longleftrightarrow> rb_mask b = 0 \<or> (is_power_of_two (rb_size b) \<and> rb_mask b = rb_size b - 1)"

lemma item_index_mod:
  assumes "mask_ok b"
  shows "item_index b i = i mod rb_size b"
proof (cases "rb_mask b = 0")
  case False
  then obtain k where k: "k < 32" "rb_size b = 2 ^ k" "rb_mask b = 2 ^ k - 1"
    using assms power_of_two by (auto simp: mask_ok_def)
  have "i AND (2 ^ k - 1) = i mod 2 ^ k"
    by (simp add: mask_eq_exp_minus_1[symmetric] take_bit_eq_mask[symmetric] take_bit_eq_mod)
  then show ?thesis using k False by (simp add: item_index_def)
qed (simp add: item_index_def)

lemma ring_element_parts:
  "element_type (ring_element t l v) = t" "element_length (ring_element t l v) = l" "element_value (ring_element t l v) = v"
  by (rule bit_word_eqI; auto simp: element_type_def element_length_def element_value_def ring_element_def bit_simps dest: bit_imp_le_length)+

lemma write_cell:
  assumes "length mem = n" "h < n" "u + 1 < n"
  shows "cells (mem[(h + u) mod n := x]) n h (u + 1) = cells mem n h u @ [x]"
proof -
  have p: "(h + u) mod n < n" using assms(2) by simp
  then have "(h + u) mod n + 1 \<le> n" by simp
  then show ?thesis using write_block[OF assms(1,2), of u 1 "[x]"] assms(1,3) p by (simp add: upd_conv_take_nth_drop)
qed

lemma item_put_loop_ok:
  assumes "mask_ok b" "length mem = unat (rb_size b)" "h < unat (rb_size b)" "j \<le> s" "u + (s - j) < unat (rb_size b)"
    and "unat (rb_tail b) + s + 1 < 2 ^ 32" "s \<le> length data" "(h + u) mod unat (rb_size b) = (unat (rb_tail b) + 1 + j) mod unat (rb_size b)"
  shows "\<exists>mem'. item_put_loop b data [j..<s] mem = Some mem' \<and> length mem' = unat (rb_size b)
    \<and> cells mem' (unat (rb_size b)) h (u + (s - j)) = cells mem (unat (rb_size b)) h u @ drop j (take s data)"
  using assms
proof (induction "s - j" arbitrary: j u mem)
  case (Suc d)
  let ?n = "unat (rb_size b)"
  have j: "j < s" using Suc.hyps(2) by simp
  have uj: "unat (word_of_nat j :: word_t) = j" using j Suc.prems(6) by (intro unat_word_of_nat) simp
  have i1: "unat (word_of_nat j + rb_tail b :: word_t) = j + unat (rb_tail b)"
    using uj j Suc.prems(6) by (subst unat_plus_no_overflow) simp_all
  have i2: "unat (word_of_nat j + rb_tail b + 1 :: word_t) = j + unat (rb_tail b) + 1"
    using i1 j Suc.prems(6) by (subst unat_plus_no_overflow) simp_all
  have ix: "unat (item_index b (word_of_nat j + rb_tail b + 1)) = (h + u) mod ?n"
    using Suc.prems(8) i2 by (simp add: item_index_mod[OF Suc.prems(1)] unat_mod ac_simps)
  let ?mem = "mem[(h + u) mod ?n := data ! j]"
  have st: "item_put_loop b data [j..<s] mem = item_put_loop b data [Suc j..<s] ?mem"
    using j uj ix Suc.prems(2,3,7) by (simp add: upt_conv_Cons arr_get_def arr_set_def)
  have nx: "(h + (u + 1)) mod ?n = (unat (rb_tail b) + 1 + Suc j) mod ?n"
    using arg_cong[OF Suc.prems(8), of "\<lambda>x. Suc x mod ?n"] by (simp add: mod_Suc_eq)
  obtain mem' where m: "item_put_loop b data [Suc j..<s] ?mem = Some mem'" "length mem' = ?n"
    "cells mem' ?n h (u + 1 + (s - Suc j)) = cells ?mem ?n h (u + 1) @ drop (Suc j) (take s data)"
  proof -
    have "d = s - Suc j" "length ?mem = ?n" "Suc j \<le> s" "u + 1 + (s - Suc j) < ?n" using Suc.hyps(2) Suc.prems(2,5) j by simp_all
    from Suc.hyps(1)[OF this(1) Suc.prems(1) this(2) Suc.prems(3) this(3,4) Suc.prems(6,7) nx] show thesis using that by blast
  qed
  have d: "drop j (take s data) = data ! j # drop (Suc j) (take s data)"
    using j Suc.prems(7) by (subst Cons_nth_drop_Suc[symmetric]) simp_all
  have e: "u + 1 + (s - Suc j) = u + (s - j)" using j by simp
  have w: "cells ?mem ?n h (u + 1) = cells mem ?n h u @ [data ! j]"
    using Suc.prems(2,3,5) j by (intro write_cell) simp_all
  have "cells mem' ?n h (u + (s - j)) = cells mem ?n h u @ drop j (take s data)"
    using m(3) unfolding e w d by simp
  then show ?case using st m(1,2) by (intro exI[of _ mem'] conjI) simp_all
qed simp

lemma item_get_loop_ok:
  assumes "mask_ok b" "length (rb_buf b) = unat (rb_size b)" "0 < unat (rb_size b)" "j \<le> s"
    and "unat (rb_head b) + s + 1 < 2 ^ 32" "s \<le> length data"
  shows "item_get_loop b [j..<s] data = Some (take j data @ map (\<lambda>i. rb_buf b ! ((unat (rb_head b) + 1 + i) mod unat (rb_size b))) [j..<s] @ drop s data)"
  using assms(4,6)
proof (induction "s - j" arbitrary: j data)
  case 0
  then show ?case by (simp add: append_take_drop_id)
next
  case (Suc d)
  let ?n = "unat (rb_size b)" and ?f = "\<lambda>i. rb_buf b ! ((unat (rb_head b) + 1 + i) mod unat (rb_size b))"
  have j: "j < s" using Suc.hyps(2) by simp
  have uj: "unat (word_of_nat j :: word_t) = j" using j assms(5) by (intro unat_word_of_nat) simp
  have i1: "unat (word_of_nat j + rb_head b :: word_t) = j + unat (rb_head b)"
    using uj j assms(5) by (subst unat_plus_no_overflow) simp_all
  have i2: "unat (word_of_nat j + rb_head b + 1 :: word_t) = j + unat (rb_head b) + 1"
    using i1 j assms(5) by (subst unat_plus_no_overflow) simp_all
  have ix: "unat (item_index b (word_of_nat j + rb_head b + 1)) = (unat (rb_head b) + 1 + j) mod ?n"
    using i2 by (simp add: item_index_mod[OF assms(1)] unat_mod ac_simps)
  have "item_get_loop b [j..<s] data = item_get_loop b [Suc j..<s] (data[j := ?f j])"
    using j uj ix assms(2,3) Suc.prems(2) by (simp add: upt_conv_Cons arr_get_def arr_set_def)
  also have "\<dots> = Some (take (Suc j) (data[j := ?f j]) @ map ?f [Suc j..<s] @ drop s (data[j := ?f j]))"
    using Suc.hyps j Suc.prems(2) by simp
  also have "take (Suc j) (data[j := ?f j]) @ map ?f [Suc j..<s] @ drop s (data[j := ?f j]) = take j data @ map ?f [j..<s] @ drop s data"
    using j Suc.prems(2) by (simp add: take_Suc_conv_app_nth upt_conv_Cons)
  finally show ?case .
qed

lemma item_put_ok:
  assumes "rb_ok b" "mask_ok b" "unat size32 + 1 \<le> rb_free b" "unat size32 \<le> length data"
  shows "\<exists>b'. ring_buf_item_put b type value data size32 = Some (0, b') \<and> rb_ok b' \<and> mask_ok b'
    \<and> contents b' = contents b @ ring_element type size32 value # take (unat size32) data \<and> rb_size b' = rb_size b"
proof -
  let ?n = "unat (rb_size b)" and ?h = "unat (rb_head b)" and ?t = "unat (rb_tail b)" and ?s = "unat size32"
  let ?u = "used ?n ?h ?t"
  have h: "?h < ?n" "?t < ?n" using rb_ok_nat[OF assms(1)] by simp_all
  have big: "?n + 256 < 2 ^ 32" using assms(1) by (simp add: rb_ok_def)
  have fits: "?u + 1 + ?s < ?n" using assms(3) h by (simp add: rb_free_def length_contents)
  have s: "?s < 256" using unsigned_less[of size32, where ?'a = nat] by simp
  have us: "unat (ucast size32 :: word_t) = ?s" using s by (simp add: unsigned_ucast_eq take_bit_nat_eq_self)
  then have us1: "unat (ucast size32 + 1 :: word_t) = ?s + 1" using s by (subst unat_plus_no_overflow) simp_all
  have sp: "unat (ring_buf_space_get b) = ?n - 1 - ?u"
    unfolding ring_buf_space_get_def using assms(1) by (intro unat_space) (simp_all add: rb_ok_def)
  have guard: "ring_buf_space_get b \<ge> ucast size32 + 1" using sp us1 fits by (simp add: word_le_nat_alt)
  let ?mem = "(rb_buf b)[?t := ring_element type size32 value]"
  have len: "length (rb_buf b) = ?n" using assms(1) by (simp add: rb_ok_def)
  have w: "cells ?mem ?n ?h (?u + 1) = contents b @ [ring_element type size32 value]"
    using write_cell[OF len h(1), of ?u] fits shift_used[OF h] by (simp add: contents_def)
  have q: "(?h + (?u + 1)) mod ?n = (?t + 1 + 0) mod ?n"
    using mod_add_left_eq[of "?h + ?u" ?n 1] shift_used[OF h] by (simp add: mod_Suc_eq)
  obtain mem' where m: "item_put_loop b data [0..<?s] ?mem = Some mem'" "length mem' = ?n"
    "cells mem' ?n ?h (?u + 1 + ?s) = cells ?mem ?n ?h (?u + 1) @ take ?s data"
    using item_put_loop_ok[OF assms(2) _ h(1) _ _ _ assms(4) q, of ?mem] len fits h(2) s big by auto
  have ut1: "unat (rb_tail b + ucast size32) = ?t + ?s" using us s h(2) big by (subst unat_plus_no_overflow) simp_all
  have ut: "unat (rb_tail b + ucast size32 + 1) = ?t + ?s + 1" using ut1 s h(2) big by (subst unat_plus_no_overflow) simp_all
  define t where "t = item_index b (rb_tail b + ucast size32 + 1)"
  have "unat t = (?t + (?s + 1)) mod ?n" using ut by (simp add: t_def item_index_mod[OF assms(2)] unat_mod)
  also have "\<dots> = (?h + (?u + 1 + ?s)) mod ?n"
    using mod_add_left_eq[of "?h + ?u" ?n "?s + 1"] shift_used[OF h] by (simp add: ac_simps)
  finally have t: "unat t = (?h + (?u + 1 + ?s)) mod ?n" .
  define b' where "b' = b\<lparr>rb_buf := mem', rb_tail := t\<rparr>"
  have "ring_buf_item_put b type value data size32 = Some (0, b')"
    using guard m(1) h(2) len by (simp add: ring_buf_item_put_def arr_set_def b'_def t_def)
  moreover have "used ?n ?h (unat t) = ?u + 1 + ?s" unfolding t using fits by (intro used_shift[OF h(1)]) simp
  then have "contents b' = contents b @ ring_element type size32 value # take ?s data"
    using m(3) w by (simp add: b'_def contents_def)
  moreover have "rb_ok b'" using assms(1) m(2) t h by (simp add: b'_def rb_ok_def word_less_nat_alt)
  ultimately show ?thesis using assms(2) by (intro exI[of _ b']) (simp add: b'_def mask_ok_def)
qed

lemma item_get_ok:
  assumes "rb_ok b" "mask_ok b" "contents b = ring_element type size32 value # xs @ rest" "length xs = unat size32"
    and "size32 \<le> limit" "unat limit \<le> length data"
  shows "\<exists>b'. ring_buf_item_get b data limit = Some (0, Some (type, value), size32, xs @ drop (length xs) data, b')
    \<and> rb_ok b' \<and> mask_ok b' \<and> contents b' = rest \<and> rb_size b' = rb_size b"
proof -
  let ?n = "unat (rb_size b)" and ?h = "unat (rb_head b)" and ?t = "unat (rb_tail b)" and ?s = "unat size32"
  let ?u = "used ?n ?h ?t" and ?f = "\<lambda>i. rb_buf b ! ((unat (rb_head b) + i) mod unat (rb_size b))"
  have h: "?h < ?n" "?t < ?n" using rb_ok_nat[OF assms(1)] by simp_all
  have big: "?n + 256 < 2 ^ 32" using assms(1) by (simp add: rb_ok_def)
  have s: "?s < 256" using unsigned_less[of size32, where ?'a = nat] by simp
  have us: "unat (ucast size32 :: word_t) = ?s" using s by (simp add: unsigned_ucast_eq take_bit_nat_eq_self)
  have len: "length (rb_buf b) = ?n" using assms(1) by (simp add: rb_ok_def)
  have u: "?u = Suc (?s + length rest)" using arg_cong[OF assms(3), of length] assms(4) by (simp add: length_contents)
  have nth: "contents b ! i = ?f i" if "i < ?u" for i using that by (simp add: contents_def nth_cells)
  have "rb_head b \<noteq> rb_tail b" using u h by (auto simp: used_split split: if_splits)
  then have ne: "\<not> ring_buf_is_empty b" by (simp add: ring_buf_is_empty_def)
  have hd: "rb_buf b ! ?h = ring_element type size32 value" using nth[of 0] u assms(3) h by simp
  have sl: "?s \<le> length data" using assms(5,6) by (simp add: word_le_nat_alt)
  have "map (\<lambda>i. rb_buf b ! ((?h + 1 + i) mod ?n)) [0..<?s] = xs"
  proof (rule nth_equalityI)
    fix i
    assume "i < length (map (\<lambda>i. rb_buf b ! ((?h + 1 + i) mod ?n)) [0..<?s])"
    then have i: "i < ?s" by simp
    then show "map (\<lambda>i. rb_buf b ! ((?h + 1 + i) mod ?n)) [0..<?s] ! i = xs ! i"
      using nth[of "Suc i"] u assms(3,4) by (simp add: nth_append)
  qed (simp add: assms(4))
  then have loop: "item_get_loop b [0..<?s] data = Some (xs @ drop ?s data)"
    using item_get_loop_ok[OF assms(2) len _ _ _ sl, of 0] h s big by simp
  have ut1: "unat (rb_head b + ucast size32) = ?h + ?s" using us s h big by (subst unat_plus_no_overflow) simp_all
  have ut: "unat (rb_head b + ucast size32 + 1) = ?h + ?s + 1" using ut1 s h big by (subst unat_plus_no_overflow) simp_all
  define t where "t = item_index b (rb_head b + ucast size32 + 1)"
  have t: "unat t = (?h + (?s + 1)) mod ?n" using ut by (simp add: t_def item_index_mod[OF assms(2)] unat_mod)
  define b' where "b' = b\<lparr>rb_head := t\<rparr>"
  have "ring_buf_item_get b data limit = Some (0, Some (type, value), size32, xs @ drop (length xs) data, b')"
    using ne hd loop h len assms(4,5) by (simp add: ring_buf_item_get_def arr_get_def ring_element_parts b'_def t_def not_less)
  moreover have us': "used ?n (unat t) ?t = ?u - (?s + 1)" unfolding t using u by (intro used_head[OF h]) simp
  have "contents b' = rest"
  proof (rule nth_equalityI)
    show "length (contents b') = length rest" using us' u by (simp add: length_contents b'_def)
    fix i
    assume "i < length (contents b')"
    then have i: "i < length rest" using us' u by (simp add: length_contents b'_def)
    have "(unat t + i) mod ?n = (?h + (?s + 1 + i)) mod ?n" unfolding t by (simp add: mod_simps ac_simps)
    then have "contents b' ! i = ?f (?s + 1 + i)" using i us' u by (simp add: contents_def b'_def nth_cells)
    also have "\<dots> = contents b ! (?s + 1 + i)" using i u by (intro nth[symmetric]) simp
    finally show "contents b' ! i = rest ! i" using assms(3,4) by (simp add: nth_append)
  qed
  moreover have "rb_ok b'" using assms(1) t h by (simp add: b'_def rb_ok_def word_less_nat_alt)
  ultimately show ?thesis using assms(2) by (intro exI[of _ b']) (simp add: b'_def mask_ok_def)
qed

section \<open>A bounded queue\<close>

text \<open>
  What a client of the byte mode relies on: a queue of bounded capacity, to which a piece of data is appended as far as
  it fits, and from which at most a given number of elements is taken, oldest first.
\<close>

datatype 'a fifo_op = Put "'a list" | Get nat

fun spec_run :: "nat \<Rightarrow> 'a list \<Rightarrow> 'a fifo_op list \<Rightarrow> (nat + 'a list) list" where
  "spec_run cap q [] = []"
| "spec_run cap q (Put xs # ops) = Inl (min (length xs) (cap - length q)) # spec_run cap (q @ take (cap - length q) xs) ops"
| "spec_run cap q (Get n # ops) = Inr (take n q) # spec_run cap (drop n q) ops"

fun op_run :: "('b \<Rightarrow> 'a list \<Rightarrow> (nat \<times> 'b) option) \<Rightarrow> ('b \<Rightarrow> nat \<Rightarrow> ('a list \<times> 'b) option) \<Rightarrow> 'b \<Rightarrow> 'a fifo_op list
    \<Rightarrow> (nat + 'a list) list option" where
  "op_run put get b [] = Some []"
| "op_run put get b (Put xs # ops) = do { (k, b) \<leftarrow> put b xs; rs \<leftarrow> op_run put get b ops; Some (Inl k # rs) }"
| "op_run put get b (Get n # ops) = do { (ys, b) \<leftarrow> get b n; rs \<leftarrow> op_run put get b ops; Some (Inr ys # rs) }"

fun op_size :: "'a fifo_op \<Rightarrow> nat" where
  "op_size (Put xs) = length xs"
| "op_size (Get n) = n"

locale bounded_fifo =
  fixes invar :: "'b \<Rightarrow> bool"
    and content :: "'b \<Rightarrow> 'a list"
    and capacity :: "'b \<Rightarrow> nat"
    and put :: "'b \<Rightarrow> 'a list \<Rightarrow> (nat \<times> 'b) option"
    and get :: "'b \<Rightarrow> nat \<Rightarrow> ('a list \<times> 'b) option"
    and limit :: nat
  assumes put_law: "\<lbrakk>invar b; length xs < limit\<rbrakk> \<Longrightarrow> \<exists>b'. put b xs = Some (min (length xs) (capacity b - length (content b)), b')
      \<and> invar b' \<and> content b' = content b @ take (capacity b - length (content b)) xs \<and> capacity b' = capacity b"
    and get_law: "\<lbrakk>invar b; n < limit\<rbrakk> \<Longrightarrow> \<exists>b'. get b n = Some (take n (content b), b')
      \<and> invar b' \<and> content b' = drop n (content b) \<and> capacity b' = capacity b"
begin

lemma op_run_refines:
  "\<lbrakk>invar b; list_all (\<lambda>op. op_size op < limit) ops\<rbrakk> \<Longrightarrow> op_run put get b ops = Some (spec_run (capacity b) (content b) ops)"
proof (induction ops arbitrary: b)
  case (Cons op ops)
  show ?case
  proof (cases op)
    case (Put xs)
    then obtain b' where "put b xs = Some (min (length xs) (capacity b - length (content b)), b')" "invar b'"
      "content b' = content b @ take (capacity b - length (content b)) xs" "capacity b' = capacity b"
      using put_law[OF Cons.prems(1), of xs] Cons.prems(2) by auto
    then show ?thesis using Cons Put by simp
  next
    case (Get n)
    then obtain b' where "get b n = Some (take n (content b), b')" "invar b'" "content b' = drop n (content b)" "capacity b' = capacity b"
      using get_law[OF Cons.prems(1), of n] Cons.prems(2) by auto
    then show ?thesis using Cons Get by simp
  qed
qed simp

end

text \<open>A client of the ring buffer passes a piece of data with its length, and a cleared array of the size it asks for.\<close>

definition rb_put_list :: "byte_t ring_buf \<Rightarrow> byte_t list \<Rightarrow> (nat \<times> byte_t ring_buf) option" where
  "rb_put_list b xs = do { (k, b) \<leftarrow> ring_buf_put b xs (word_of_nat (length xs)); Some (unat k, b) }"

definition rb_get_list :: "byte_t ring_buf \<Rightarrow> nat \<Rightarrow> (byte_t list \<times> byte_t ring_buf) option" where
  "rb_get_list b n = do { (k, ys, b) \<leftarrow> ring_buf_get b (replicate n 0) (word_of_nat n); Some (take (unat k) ys, b) }"

interpretation rb: bounded_fifo rb_inv contents "\<lambda>b. unat (rb_size b) - 1" rb_put_list rb_get_list "2 ^ 32"
proof (unfold_locales, goal_cases)
  case (1 b xs)
  have l: "unat (word_of_nat (length xs) :: word_t) = length xs" using 1(2) by (intro unat_word_of_nat) simp
  let ?k = "min (length xs) (rb_free b)"
  obtain b' where b': "ring_buf_put b xs (word_of_nat (length xs)) = Some (word_of_nat ?k, b')" "rb_inv b'"
    "contents b' = contents b @ take ?k xs" "rb_size b' = rb_size b"
    using ring_buf_put_ok[OF 1(1), of "word_of_nat (length xs)" xs] l by auto
  have "unat (word_of_nat ?k :: word_t) = ?k" using 1(2) by (intro unat_word_of_nat) simp
  moreover have "take ?k xs = take (rb_free b) xs" by (simp add: min_def)
  ultimately show ?case using b' by (simp add: rb_put_list_def rb_free_def)
next
  case (2 b n)
  have l: "unat (word_of_nat n :: word_t) = n" using 2(2) by (intro unat_word_of_nat) simp
  let ?k = "min n (length (contents b))"
  obtain b' where b': "ring_buf_get b (replicate n 0) (word_of_nat n) = Some (word_of_nat ?k, take ?k (contents b) @ drop ?k (replicate n 0), b')"
    "rb_inv b'" "contents b' = drop ?k (contents b)" "rb_size b' = rb_size b"
    using ring_buf_get_ok[OF 2(1), of "word_of_nat n" "replicate n 0"] l by auto
  have k: "unat (word_of_nat ?k :: word_t) = ?k" using 2(2) by (intro unat_word_of_nat) simp
  have "take ?k (contents b) = take n (contents b)" "drop ?k (contents b) = drop n (contents b)" by (auto simp: min_def)
  then show ?case using b' k by (simp add: rb_get_list_def)
qed

lemma ring_buf_init_inv:
  assumes "length data = unat sz" "0 < sz" "2 * unat sz \<le> 2 ^ 32"
  shows "rb_inv (ring_buf_init sz data)" "contents (ring_buf_init sz data) = []" "mask_ok (ring_buf_init sz data)"
  using assms by (simp_all add: rb_inv_def rb_ok_def ring_buf_init_def mask_ok_def contents_def used_def cells_def)

section \<open>Properties\<close>

text \<open>
  C10: A ring buffer of bytes, initialised with its memory, behaves under every sequence of writes and reads like a queue
  of bounded capacity, one less than its size: every call returns, a write stores as much of its data as fits, and
  a read returns the oldest bytes, also when they wrap round the end of the memory.
\<close>
theorem ring_buffer_refines_queue:
  assumes "length data = unat sz" "0 < sz" "2 * unat sz \<le> 2 ^ 32" "list_all (\<lambda>op. op_size op < 2 ^ 32) ops"
  shows "op_run rb_put_list rb_get_list (ring_buf_init sz data) ops = Some (spec_run (unat sz - 1) [] ops)"
  using rb.op_run_refines[OF ring_buf_init_inv(1)[OF assms(1-3)] assms(4)] ring_buf_init_inv(2)[OF assms(1-3)]
  by (simp add: ring_buf_init_def)

theorem ring_buffer_refines_queue_witness:
  "op_run rb_put_list rb_get_list (ring_buf_init 4 [0, 0, 0, 0]) [Put [1, 2], Get 1, Put [3, 4, 5], Get 9]
    = Some [Inl 2, Inr [1], Inl 2, Inr [2, 3, 4]]"
  using ring_buffer_refines_queue[of "[0, 0, 0, 0]" 4 "[Put [1, 2], Get 1, Put [3, 4, 5], Get 9]"] by simp

text \<open>
  An item that fits into an empty buffer comes back unchanged: \<open>ring_buf_item_get\<close> returns its type, its value
  and its words and leaves the buffer empty, for sizes that are powers of two and others.
\<close>
theorem ring_item_roundtrip:
  assumes "rb_ok b" "mask_ok b" "contents b = []" "unat size32 + 1 \<le> rb_free b" "length xs = unat size32"
    and "size32 \<le> limit" "unat limit \<le> length data"
  shows "\<exists>b1 b2. ring_buf_item_put b type value xs size32 = Some (0, b1)
    \<and> ring_buf_item_get b1 data limit = Some (0, Some (type, value), size32, xs @ drop (length xs) data, b2) \<and> contents b2 = []"
proof -
  obtain b1 where b1: "ring_buf_item_put b type value xs size32 = Some (0, b1)" "rb_ok b1" "mask_ok b1"
    "contents b1 = ring_element type size32 value # xs @ []"
    using item_put_ok[OF assms(1,2,4), of xs type "value"] assms(3,5) by auto
  show ?thesis using item_get_ok[OF b1(2-4) assms(5-7)] b1(1) by blast
qed

theorem ring_item_roundtrip_witness:
  "\<exists>b1 b2. ring_buf_item_put (ring_buf_init 5 [0, 0, 0, 0, 0]) 7 8 [1, 2] 2 = Some (0, b1)
    \<and> ring_buf_item_get b1 [0, 0, 9] 3 = Some (0, Some (7, 8), 2, [1, 2] @ drop (length [1 :: word_t, 2]) [0, 0, 9], b2) \<and> contents b2 = []"
proof -
  have "length [0 :: word_t, 0, 0, 0, 0] = unat (5 :: word_t)" "0 < (5 :: word_t)" "2 * unat (5 :: word_t) \<le> 2 ^ 32" by simp_all
  note i = ring_buf_init_inv[OF this]
  show ?thesis
    using i by (intro ring_item_roundtrip) (simp_all add: rb_inv_def rb_free_def, simp add: ring_buf_init_def)
qed

end
