(* ===== verification/Base64.thy ===== *)
theory Base64
  imports Prelude
begin

text \<open>
  Base64, \<^verbatim>\<open>src/lib/sys/base64.c\<close>.  A source pointer with its length is the list of its bytes; the destination is an
  optional list, \<open>None\<close> for a null pointer, whose length is the space behind the pointer, and \<open>dlen\<close> is the
  size that the caller passes.  \<open>olen\<close> is the caller's output length, which a rejected source leaves alone.  The result holds the return code, the output length and the destination.
\<close>

unbundle bit_operations_syntax

section \<open>Tables\<close>

definition base64_enc_map :: "byte_t list" where
  "base64_enc_map = [
    65, 66, 67, 68, 69, 70, 71, 72, 73, 74, 75, 76, 77, 78, 79, 80,
    81, 82, 83, 84, 85, 86, 87, 88, 89, 90, 97, 98, 99, 100, 101, 102,
    103, 104, 105, 106, 107, 108, 109, 110, 111, 112, 113, 114, 115, 116, 117, 118,
    119, 120, 121, 122, 48, 49, 50, 51, 52, 53, 54, 55, 56, 57, 43, 47]"

definition base64_dec_map :: "byte_t list" where
  "base64_dec_map = [
    127, 127, 127, 127, 127, 127, 127, 127, 127, 127, 127, 127, 127, 127, 127, 127,
    127, 127, 127, 127, 127, 127, 127, 127, 127, 127, 127, 127, 127, 127, 127, 127,
    127, 127, 127, 127, 127, 127, 127, 127, 127, 127, 127, 62, 127, 127, 127, 63,
    52, 53, 54, 55, 56, 57, 58, 59, 60, 61, 127, 127, 127, 64, 127, 127,
    127, 0, 1, 2, 3, 4, 5, 6, 7, 8, 9, 10, 11, 12, 13, 14,
    15, 16, 17, 18, 19, 20, 21, 22, 23, 24, 25, 127, 127, 127, 127, 127,
    127, 26, 27, 28, 29, 30, 31, 32, 33, 34, 35, 36, 37, 38, 39, 40,
    41, 42, 43, 44, 45, 46, 47, 48, 49, 50, 51, 127, 127, 127, 127, 127]"

section \<open>Encoding\<close>

definition BASE64_SIZE_T_MAX :: word_t where
  "BASE64_SIZE_T_MAX = - 1"

definition poke :: "byte_t list \<Rightarrow> nat \<Rightarrow> byte_t \<Rightarrow> byte_t list option" where
  "poke mem p v = (if p < length mem then Some (mem[p := v]) else None)"

definition enc_char :: "word_t \<Rightarrow> byte_t" where
  "enc_char x = base64_enc_map ! unat (x AND 0x3F)"

fun base64_encode_loop :: "nat \<Rightarrow> byte_t list \<Rightarrow> byte_t list \<Rightarrow> nat \<Rightarrow> (byte_t list \<times> byte_t list \<times> nat) option" where
  "base64_encode_loop (Suc k) (c1 # c2 # c3 # src) dst p =
     (let C1 = ucast c1 :: word_t; C2 = ucast c2 :: word_t; C3 = ucast c3 :: word_t in do {
       dst \<leftarrow> poke dst p (enc_char (drop_bit 2 C1));
       dst \<leftarrow> poke dst (p + 1) (enc_char (push_bit 4 (C1 AND 3) + drop_bit 4 C2));
       dst \<leftarrow> poke dst (p + 2) (enc_char (push_bit 2 (C2 AND 15) + drop_bit 6 C3));
       dst \<leftarrow> poke dst (p + 3) (enc_char C3);
       base64_encode_loop k src dst (p + 4) })"
| "base64_encode_loop (Suc k) src dst p = None"
| "base64_encode_loop 0 src dst p = Some (src, dst, p)"

text \<open>What is left after the groups of three bytes.\<close>

definition base64_encode_rest :: "byte_t list \<Rightarrow> byte_t list \<Rightarrow> nat \<Rightarrow> (byte_t list \<times> nat) option" where
  "base64_encode_rest src dst p =
     (case src of [] \<Rightarrow> Some (dst, p)
      | c1 # src \<Rightarrow>
          (let C1 = ucast c1 :: word_t; C2 = (case src of [] \<Rightarrow> 0 | c2 # _ \<Rightarrow> ucast c2) in do {
             dst \<leftarrow> poke dst p (enc_char (drop_bit 2 C1));
             dst \<leftarrow> poke dst (p + 1) (enc_char (push_bit 4 (C1 AND 3) + drop_bit 4 C2));
             dst \<leftarrow> poke dst (p + 2) (if src \<noteq> [] then enc_char (push_bit 2 (C2 AND 15)) else 0x3D);
             dst \<leftarrow> poke dst (p + 3) 0x3D;
             Some (dst, p + 4) }))"

definition base64_encode :: "byte_t list option \<Rightarrow> word_t \<Rightarrow> byte_t list \<Rightarrow> (int \<times> word_t \<times> byte_t list option) option" where
  "base64_encode dst dlen src =
     (let slen = (word_of_nat (length src) :: word_t) in
      if slen = 0 then Some (0, 0, dst)
      else let n = slen div 3 + (if slen mod 3 \<noteq> 0 then 1 else 0) in
      if n > (BASE64_SIZE_T_MAX - 1) div 4 then Some (- ENOMEM, BASE64_SIZE_T_MAX, dst)
      else let n = n * 4 in
      case dst of None \<Rightarrow> Some (- ENOMEM, n + 1, dst)
      | Some mem \<Rightarrow>
          if dlen < n + 1 then Some (- ENOMEM, n + 1, dst)
          else do {
            (src, mem, p) \<leftarrow> base64_encode_loop (unat (slen div 3)) src mem 0;
            (mem, p) \<leftarrow> base64_encode_rest src mem p;
            mem' \<leftarrow> poke mem p 0;
            Some (0, word_of_nat p, Some mem') })"

section \<open>Decoding\<close>

definition dec_char :: "byte_t \<Rightarrow> byte_t" where
  "dec_char c = base64_dec_map ! unat c"

text \<open>
  The first pass: the number of characters that count and the number of padding characters, or an error.  The pass always
  ends at the end of the source.
\<close>

function base64_scan :: "byte_t list \<Rightarrow> word_t \<Rightarrow> word_t \<Rightarrow> int + (word_t \<times> word_t)" where
  "base64_scan [] n j = Inr (n, j)"
| "base64_scan (s # src) n j =
     (let x = takeWhile (\<lambda>c. c = 0x20) (s # src) in
      case dropWhile (\<lambda>c. c = 0x20) (s # src) of [] \<Rightarrow> Inr (n, j)
      | c # rest \<Rightarrow>
          if c = 0x0D \<and> rest \<noteq> [] \<and> hd rest = 0x0A then base64_scan rest n j
          else if c = 0x0A then base64_scan rest n j
          else if x \<noteq> [] then Inl (- EINVAL)
          else let j = (if c = 0x3D then j + 1 else j) in
          if c = 0x3D \<and> j > 2 then Inl (- EINVAL)
          else if c > 127 \<or> dec_char c = 127 then Inl (- EINVAL)
          else if dec_char c < 64 \<and> j \<noteq> 0 then Inl (- EINVAL)
          else base64_scan rest (n + 1) j)"
  by pat_completeness auto

lemma dropWhile_shorter: "dropWhile P xs = c # rest \<Longrightarrow> length rest < length xs"
  using length_dropWhile_le[of P xs] by simp

termination base64_scan
  by (relation "measure (\<lambda>(src, n, j). length src)") (auto dest!: dropWhile_shorter simp del: dropWhile.simps takeWhile.simps)

text \<open>The second pass.\<close>

fun base64_decode_loop :: "byte_t list \<Rightarrow> word_t \<Rightarrow> word_t \<Rightarrow> word_t \<Rightarrow> byte_t list \<Rightarrow> nat \<Rightarrow> (byte_t list \<times> nat) option" where
  "base64_decode_loop [] j n x dst p = Some (dst, p)"
| "base64_decode_loop (s # src) j n x dst p =
     (if s = 0x0D \<or> s = 0x0A \<or> s = 0x20 then base64_decode_loop src j n x dst p
      else let j = j - (if dec_char s = 64 then 1 else 0);
               x = push_bit 6 x OR (ucast (dec_char s) AND 0x3F);
               n = n + 1 in
      if n = 4 then do {
        (dst, p) \<leftarrow> (if j > 0 then do { dst \<leftarrow> poke dst p (ucast (drop_bit 16 x)); Some (dst, p + 1) } else Some (dst, p));
        (dst, p) \<leftarrow> (if j > 1 then do { dst \<leftarrow> poke dst p (ucast (drop_bit 8 x)); Some (dst, p + 1) } else Some (dst, p));
        (dst, p) \<leftarrow> (if j > 2 then do { dst \<leftarrow> poke dst p (ucast x); Some (dst, p + 1) } else Some (dst, p));
        base64_decode_loop src j 0 x dst p }
      else base64_decode_loop src j n x dst p)"

definition base64_decode :: "byte_t list option \<Rightarrow> word_t \<Rightarrow> word_t \<Rightarrow> byte_t list \<Rightarrow> (int \<times> word_t \<times> byte_t list option) option" where
  "base64_decode dst dlen olen src =
     (case base64_scan src 0 0 of Inl e \<Rightarrow> Some (e, olen, dst)
      | Inr (n, j) \<Rightarrow>
          if n = 0 then Some (0, 0, dst)
          else let n = 6 * drop_bit 3 n + drop_bit 3 (6 * (n AND 0x7) + 7) - j in
          case dst of None \<Rightarrow> Some (- ENOMEM, n, dst)
          | Some mem \<Rightarrow>
              if dlen < n then Some (- ENOMEM, n, dst)
              else do {
                (mem, p) \<leftarrow> base64_decode_loop src 3 0 0 mem 0;
                Some (0, word_of_nat p, Some mem) })"


section \<open>Reference encoding\<close>

definition quad :: "word_t \<Rightarrow> word_t \<Rightarrow> word_t \<Rightarrow> byte_t list" where
  "quad C1 C2 C3 = [enc_char (drop_bit 2 C1), enc_char (push_bit 4 (C1 AND 3) + drop_bit 4 C2),
     enc_char (push_bit 2 (C2 AND 15) + drop_bit 6 C3), enc_char C3]"

fun b64 :: "byte_t list \<Rightarrow> byte_t list" where
  "b64 [] = []"
| "b64 [a] = take 2 (quad (ucast a) 0 0) @ [0x3D, 0x3D]"
| "b64 [a, b] = take 3 (quad (ucast a) (ucast b) 0) @ [0x3D]"
| "b64 (a # b # c # src) = quad (ucast a) (ucast b) (ucast c) @ b64 src"

lemma quad_length [simp]: "length (quad a b c) = 4"
  by (simp add: quad_def)

lemma b64_length: "length (b64 src) = 4 * ((length src + 2) div 3)"
proof (induction src rule: b64.induct)
  case (4 a b c src)
  have "length (a # b # c # src) + 2 = length src + 2 + 3" by simp
  then have "(length (a # b # c # src) + 2) div 3 = (length src + 2) div 3 + 1" by (simp only: div_add_self2 zero_neq_numeral not_False_eq_True)
  then show ?case using 4 by (simp only: b64.simps length_append quad_length) simp
qed simp_all

lemma poke_at: "p = length pre \<Longrightarrow> poke (pre @ old # post) p v = Some (pre @ v # post)"
  by (simp add: poke_def)

lemma list4E:
  assumes "length xs = 4 + n"
  obtains a b c d r where "xs = a # b # c # d # r" "length r = n"
  using assms by (auto simp: numeral_eq_Suc length_Suc_conv)

text \<open>Four pokes in a row.\<close>

lemma poke4:
  "(do { dst \<leftarrow> poke (pre @ a # b # c # d # post) (length pre) w; dst \<leftarrow> poke dst (length pre + 1) x;
     dst \<leftarrow> poke dst (length pre + 2) y; dst \<leftarrow> poke dst (length pre + 3) z; f dst }) = f (pre @ w # x # y # z # post)"
  using poke_at[of "length pre + 1" "pre @ [w]" b "c # d # post" x] poke_at[of "length pre + 2" "pre @ [w, x]" c "d # post" y]
    poke_at[of "length pre + 3" "pre @ [w, x, y]" d post z] by (simp add: poke_at)

lemma poke_quad:
  "(do { dst \<leftarrow> poke (pre @ a # b # c # d # post) (length pre) (enc_char (drop_bit 2 C1));
     dst \<leftarrow> poke dst (length pre + 1) (enc_char (push_bit 4 (C1 AND 3) + drop_bit 4 C2));
     dst \<leftarrow> poke dst (length pre + 2) (enc_char (push_bit 2 (C2 AND 15) + drop_bit 6 C3));
     dst \<leftarrow> poke dst (length pre + 3) (enc_char C3); f dst }) = f (pre @ quad C1 C2 C3 @ post)"
  unfolding poke4 quad_def by simp

lemma base64_encode_loop_ok:
  assumes "length src = 3 * k + r" "r < 3" "length old = 4 * k"
  shows "base64_encode_loop k src (pre @ old @ post) (length pre) =
    Some (drop (3 * k) src, pre @ b64 (take (3 * k) src) @ post, length pre + 4 * k)"
  using assms
proof (induction k arbitrary: src pre old)
  case 0
  then show ?case by simp
next
  case (Suc k)
  obtain c1 c2 c3 rest where src: "src = c1 # c2 # c3 # rest" "length rest = 3 * k + r"
    using Suc.prems(1) by (auto simp: numeral_eq_Suc length_Suc_conv)
  have "length old = 4 + 4 * k" using Suc.prems(3) by simp
  then obtain a b c d old' where old: "old = a # b # c # d # old'" "length old' = 4 * k" by (rule list4E)
  have k: "3 * Suc k = Suc (Suc (Suc (3 * k)))" by simp
  show ?case
    unfolding k using Suc.IH[OF src(2) Suc.prems(2) old(2), of "pre @ quad (ucast c1) (ucast c2) (ucast c3)"]
    unfolding src old append_Cons base64_encode_loop.simps Let_def poke_quad by simp
qed

lemma b64_append: "length xs = 3 * k \<Longrightarrow> b64 (xs @ ys) = b64 xs @ b64 ys"
proof (induction k arbitrary: xs)
  case (Suc k)
  then obtain a b c rest where "xs = a # b # c # rest" "length rest = 3 * k"
    by (auto simp: numeral_eq_Suc length_Suc_conv)
  then show ?case using Suc.IH[of rest] by simp
qed simp

lemma base64_encode_rest_ok:
  assumes "length src < 3" "length old = length (b64 src)"
  shows "base64_encode_rest src (pre @ old @ post) (length pre) = Some (pre @ b64 src @ post, length pre + length (b64 src))"
proof (cases src rule: b64.cases)
  case (2 a)
  have "length old = 4 + 0" using assms 2 by simp
  then obtain w x y z r where "old = w # x # y # z # r" "length r = 0" by (rule list4E)
  then show ?thesis by (simp add: 2 base64_encode_rest_def Let_def poke4 quad_def del: One_nat_def add_2_eq_Suc')
next
  case (3 a b)
  have "length old = 4 + 0" using assms 3 by simp
  then obtain w x y z r where "old = w # x # y # z # r" "length r = 0" by (rule list4E)
  then show ?thesis by (simp add: 3 base64_encode_rest_def Let_def poke4 quad_def del: One_nat_def add_2_eq_Suc')
qed (use assms in \<open>simp_all add: base64_encode_rest_def\<close>)


lemma b64_split: "b64 (take (3 * (length src div 3)) src) @ b64 (drop (3 * (length src div 3)) src) = b64 src"
proof -
  have "length (take (3 * (length src div 3)) src) = 3 * (length src div 3)" by simp
  from b64_append[OF this, of "drop (3 * (length src div 3)) src"] show ?thesis by simp
qed

lemma ceil3: "(n + 2) div 3 = n div 3 + (if n mod 3 \<noteq> 0 then 1 else 0)" for n :: nat
  by presburger

lemma unat_ceil3:
  assumes "length src < 2 ^ 32" "n = (word_of_nat (length src) :: word_t)"
  shows "unat (n div 3 + (if n mod 3 \<noteq> 0 then 1 else 0)) = (length src + 2) div 3"
proof -
  have n: "unat n = length src" using assms by (simp add: unat_word_of_nat)
  have "(n mod 3 \<noteq> 0) = (length src mod 3 \<noteq> 0)" by (simp add: word_eq_nat unat_mod n)
  moreover have "unat (n div 3) = length src div 3" by (simp add: unat_div n)
  moreover have "length src div 3 + 1 < 2 ^ 32" using assms(1) by simp
  ultimately show ?thesis unfolding ceil3 by (simp add: unat_plus_no_overflow)
qed

lemma encode_size:
  assumes "length (b64 src) < 2 ^ 32 - 1"
  shows "length src < 2 ^ 32" "(length src + 2) div 3 < 2 ^ 30"
proof -
  show a: "(length src + 2) div 3 < 2 ^ 30" using assms unfolding b64_length by simp
  have "n \<le> 3 * ((n + 2) div 3)" for n :: nat by presburger
  from this[of "length src"] show "length src < 2 ^ 32" using a by simp
qed

lemma split_three:
  assumes "i + j < length mem"
  shows "\<exists>a b x. mem = a @ b @ x # drop (i + j + 1) mem \<and> length a = i \<and> length b = j"
proof -
  have "mem = take i mem @ take j (drop i mem) @ drop (i + j) mem"
    by (metis append_take_drop_id drop_drop add.commute)
  then have "mem = take i mem @ take j (drop i mem) @ mem ! (i + j) # drop (i + j + 1) mem"
    using Cons_nth_drop_Suc[OF assms] by simp
  moreover have "length (take i mem) = i" "length (take j (drop i mem)) = j" using assms by simp_all
  ultimately show ?thesis by blast
qed

lemma base64_encode_ok:
  assumes "src \<noteq> []" "length (b64 src) < unat dlen" "unat dlen \<le> length mem"
  shows "base64_encode (Some mem) dlen src =
    Some (0, word_of_nat (length (b64 src)), Some (b64 src @ 0 # drop (length (b64 src) + 1) mem))"
proof -
  define n where "n = (word_of_nat (length src) :: word_t)"
  define c where "c = n div 3 + (if n mod 3 \<noteq> 0 then 1 else 0)"
  define m where "m = length (b64 src)"
  let ?k = "length src div 3"
  have lt: "m < 2 ^ 32 - 1" using assms(2) unat_bound32[of dlen] by (simp add: m_def)
  note len = encode_size[OF lt[unfolded m_def]]
  have n: "unat n = length src" unfolding n_def using len(1) by (simp add: unat_word_of_nat)
  have c: "unat c = (length src + 2) div 3" unfolding c_def by (rule unat_ceil3[OF len(1) n_def])
  have "unat (c * 4) = m" using c len(2) by (simp add: m_def b64_length unat_word_ariths)
  then have c4: "unat (c * 4 + 1) = m + 1" using lt by (simp add: unat_plus_no_overflow)
  have g1: "n \<noteq> 0" using n assms(1) by auto
  have g2: "\<not> c > (BASE64_SIZE_T_MAX - 1) div 4" using c len(2) by (simp add: word_nat BASE64_SIZE_T_MAX_def unat_div)
  have g3: "\<not> dlen < c * 4 + 1" using c4 assms(2) by (simp add: word_nat m_def)
  define pre where "pre = b64 (take (3 * ?k) src)"
  define tl' where "tl' = b64 (drop (3 * ?k) src)"
  have pre: "length pre = 4 * ?k" unfolding pre_def b64_length by simp
  have whole: "b64 src = pre @ tl'" unfolding pre_def tl'_def by (rule b64_split[symmetric])
  then have m: "m = 4 * ?k + length tl'" by (simp add: m_def pre)
  have "m < length mem" using assms(2,3) by (simp add: m_def)
  then obtain o1 o2 x where mem: "mem = o1 @ o2 @ x # drop (m + 1) mem" and o: "length o1 = 4 * ?k" "length o2 = length tl'"
    using split_three[of "4 * ?k" "length tl'" mem] by (auto simp: m)
  define post where "post = x # drop (m + 1) mem"
  have l: "base64_encode_loop ?k src (o1 @ o2 @ post) 0 = Some (drop (3 * ?k) src, pre @ o2 @ post, 4 * ?k)"
    using base64_encode_loop_ok[of src ?k "length src mod 3" o1 "[]" "o2 @ post"] o by (simp add: pre_def)
  have r: "base64_encode_rest (drop (3 * ?k) src) (pre @ o2 @ post) (4 * ?k) = Some (pre @ tl' @ post, m)"
    using base64_encode_rest_ok[of "drop (3 * ?k) src" o2 pre post] o m pre by (simp add: tl'_def minus_mult_div_eq_mod)
  have p: "poke (pre @ tl' @ post) m 0 = Some (b64 src @ 0 # drop (m + 1) mem)"
    using poke_at[of m "pre @ tl'" x "drop (m + 1) mem" 0] by (simp add: whole m pre post_def)
  have l': "base64_encode_loop ?k src mem 0 = Some (drop (3 * ?k) src, pre @ o2 @ post, 4 * ?k)"
    using l mem unfolding post_def by metis
  have k: "unat (n div 3) = ?k" by (simp add: unat_div n)
  show ?thesis unfolding base64_encode_def Let_def n_def[symmetric] c_def[symmetric] m_def[symmetric]
    using g1 g2 g3 by (simp add: k l' r p)
qed


section \<open>Characters\<close>

definition data :: "byte_t \<Rightarrow> bool" where
  "data c = (c \<le> 127 \<and> dec_char c < 64)"

definition sig :: "byte_t \<Rightarrow> bool" where
  "sig c = (c \<noteq> 0x0D \<and> c \<noteq> 0x0A \<and> c \<noteq> 0x20)"

lemma enc_map_decodes: "list_all (\<lambda>i. data (base64_enc_map ! i) \<and> dec_char (base64_enc_map ! i) = word_of_nat i) [0..<64]"
  by (simp add: upt_conv_Cons data_def dec_char_def base64_enc_map_def base64_dec_map_def)

lemma dec_map_values: "list_all (\<lambda>i. base64_dec_map ! i < 64 \<or> (base64_dec_map ! i = 64 \<and> i = 61) \<or> base64_dec_map ! i = 127) [0..<128]"
  by (simp add: upt_conv_Cons base64_dec_map_def)

lemma and_63_less: "unat (x AND 0x3F :: word_t) < 64"
proof -
  have "x AND 0x3F = take_bit 6 x" by (simp add: take_bit_eq_mask mask_eq_exp_minus_1)
  then show ?thesis using take_bit_nat_less_exp[of 6 "unat x"] by (simp add: unsigned_take_bit_eq)
qed

lemma enc_char_data [simp]: "data (enc_char x)"
  using enc_map_decodes and_63_less[of x] by (simp add: list_all_iff enc_char_def)

lemma dec_enc [simp]: "dec_char (enc_char x) = ucast (x AND 0x3F)"
  using enc_map_decodes and_63_less[of x] by (simp add: list_all_iff enc_char_def)

lemma dec_char_cases:
  assumes "c \<le> 127" "dec_char c \<noteq> 127" "c \<noteq> 0x3D"
  shows "data c"
proof -
  have "unat c < 128" using assms(1) by (simp add: word_le_nat)
  moreover have "unat c \<noteq> 61" using assms(3) by (simp add: word_eq_nat)
  ultimately show ?thesis using dec_map_values assms by (auto simp: list_all_iff dec_char_def data_def)
qed

lemma dec_pad [simp]: "dec_char 0x3D = 64" "sig 0x3D" "\<not> data 0x3D"
  by (simp_all add: dec_char_def base64_dec_map_def sig_def data_def)

lemma data_sig: "data c \<Longrightarrow> sig c \<and> c \<noteq> 0x3D \<and> dec_char c \<noteq> 64 \<and> dec_char c \<noteq> 127"
  by (auto simp: data_def sig_def dec_char_def base64_dec_map_def)


section \<open>Reference decoding\<close>

definition quad_word :: "word_t \<Rightarrow> byte_t list \<Rightarrow> word_t" where
  "quad_word x cs = foldl (\<lambda>x c. push_bit 6 x OR (ucast (dec_char c) AND 0x3F)) x cs"

definition quad_bytes :: "word_t \<Rightarrow> byte_t list" where
  "quad_bytes x = [ucast (drop_bit 16 x), ucast (drop_bit 8 x), ucast x]"

fun unb64 :: "word_t \<Rightarrow> byte_t list \<Rightarrow> byte_t list" where
  "unb64 x (a # b # c # d # src) =
     (let x = quad_word x [a, b, c, d] in
      take (3 - length (filter (\<lambda>c. c = 0x3D) [a, b, c, d])) (quad_bytes x) @ unb64 x src)"
| "unb64 x src = []"

lemma decode_loop_filter: "base64_decode_loop src j n x dst p = base64_decode_loop (filter sig src) j n x dst p"
  by (induction src arbitrary: j n x dst p) (auto simp: sig_def Let_def)

lemma filter_dropWhile: "(\<And>c. P c \<Longrightarrow> \<not> Q c) \<Longrightarrow> filter Q (dropWhile P xs) = filter Q xs"
  by (induction xs) auto

lemma scan_data: "data c \<Longrightarrow> base64_scan (c # src) n 0 = base64_scan src (n + 1) 0"
  using data_sig[of c] by (auto simp: sig_def data_def Let_def)

lemma scan_pad: "j = 0 \<or> j = 1 \<Longrightarrow> base64_scan (0x3D # src) n j = base64_scan src (n + 1) (j + 1)"
  by (elim disjE) (simp_all add: Let_def)

text \<open>One turn of the first pass.\<close>

lemma scan_step:
  assumes "base64_scan (s # src) n j = Inr r"
  shows "(filter sig (s # src) = [] \<and> r = (n, j)) \<or> (\<exists>c rest. length rest < length (s # src) \<and>
    ((filter sig (s # src) = filter sig rest \<and> base64_scan rest n j = Inr r) \<or>
     (filter sig (s # src) = 0x3D # filter sig rest \<and> j + 1 \<le> 2 \<and> base64_scan rest (n + 1) (j + 1) = Inr r) \<or>
     (filter sig (s # src) = c # filter sig rest \<and> data c \<and> j = 0 \<and> base64_scan rest (n + 1) 0 = Inr r)))"
proof -
  have fil: "filter sig (s # src) = filter sig (dropWhile (\<lambda>c. c = 0x20) (s # src))"
    by (rule filter_dropWhile[symmetric]) (simp add: sig_def)
  show ?thesis
  proof (cases "dropWhile (\<lambda>c. c = 0x20) (s # src)")
    case Nil
    then show ?thesis using assms fil by (simp only: base64_scan.simps Let_def list.case filter.simps) simp
  next
    case (Cons c rest)
    note len = dropWhile_shorter[OF Cons]
    note scan = assms[unfolded base64_scan.simps Let_def Cons list.case]
    show ?thesis
    proof (cases "c = 0x0D \<and> rest \<noteq> [] \<and> hd rest = 0x0A \<or> c = 0x0A")
      case True
      then have "base64_scan rest n j = Inr r" using scan by (auto split: if_splits)
      moreover have "filter sig (s # src) = filter sig rest" unfolding fil Cons using True by (auto simp: sig_def)
      ultimately show ?thesis using len by blast
    next
      case new: False
      show ?thesis
      proof (cases "c = 0x3D")
        case True
        then have "base64_scan rest (n + 1) (j + 1) = Inr r" "j + 1 \<le> 2" using scan by (auto split: if_splits simp: not_less)
        moreover have "filter sig (s # src) = 0x3D # filter sig rest" unfolding fil Cons using True by simp
        ultimately show ?thesis using len by blast
      next
        case False
        then have d: "c \<le> 127" "dec_char c \<noteq> 127" "base64_scan rest (n + 1) j = Inr r" "dec_char c < 64 \<longrightarrow> j = 0"
          using scan new by (auto split: if_splits simp: not_less)
        then have "data c" using dec_char_cases False by blast
        then have "filter sig (s # src) = c # filter sig rest" "j = 0" unfolding fil Cons using data_sig d by (auto simp: data_def)
        then show ?thesis using len d \<open>data c\<close> by blast
      qed
    qed
  qed
qed

lemma scan_shape:
  assumes "base64_scan src n j = Inr (n', j')" "unat j \<le> 2"
  shows "\<exists>ds k. filter sig src = ds @ replicate k 0x3D \<and> list_all data ds \<and> (j \<noteq> 0 \<longrightarrow> ds = []) \<and>
    n' = n + word_of_nat (length ds + k) \<and> unat j' = unat j + k \<and> unat j + k \<le> 2"
  using assms
proof (induction src arbitrary: n j rule: length_induct)
  case (1 src)
  show ?case
  proof (cases src)
    case Nil
    then show ?thesis using 1 by (auto intro!: exI[of _ "[]"] exI[of _ 0])
  next
    case (Cons s src')
    from scan_step[OF 1(2)[unfolded Cons]] show ?thesis
    proof (elim disjE exE conjE)
      assume "filter sig (s # src') = []" "(n', j') = (n, j)"
      then show ?thesis using 1(3) Cons by (auto intro!: exI[of _ "[]"] exI[of _ 0])
    next
      fix c rest
      assume "length rest < length (s # src')" "filter sig (s # src') = filter sig rest" "base64_scan rest n j = Inr (n', j')"
      then show ?thesis using 1(1,3) Cons by metis
    next
      fix c rest
      assume r: "length rest < length (s # src')" "filter sig (s # src') = 0x3D # filter sig rest" "j + 1 \<le> 2"
        "base64_scan rest (n + 1) (j + 1) = Inr (n', j')"
      have j1: "unat (j + 1) = unat j + 1" using 1(3) by (simp add: unat_plus_no_overflow)
      then have "unat (j + 1) \<le> 2" "j + 1 \<noteq> 0" using r(3) by (auto simp: word_nat)
      then obtain k where k: "filter sig rest = replicate k 0x3D" "n' = n + 1 + word_of_nat k" "unat j' = unat j + 1 + k" "unat j + 1 + k \<le> 2"
        using 1(1)[rule_format, of rest "n + 1" "j + 1"] r(1,4) Cons j1 by auto
      then show ?thesis unfolding Cons r(2) by (intro exI[of _ "[]"] exI[of _ "Suc k"]) (simp add: add.assoc)
    next
      fix c rest
      assume r: "length rest < length (s # src')" "filter sig (s # src') = c # filter sig rest" "data c" "j = 0"
        "base64_scan rest (n + 1) 0 = Inr (n', j')"
      have "length rest < length src" "unat (0 :: word_t) \<le> 2" using r(1) Cons by simp_all
      from 1(1)[rule_format, OF this(1) r(5) this(2)] obtain ds k where k: "filter sig rest = ds @ replicate k 0x3D" "list_all data ds"
        "n' = n + 1 + word_of_nat (length ds + k)" "unat j' = unat (0 :: word_t) + k" "unat (0 :: word_t) + k \<le> 2" by blast
      then show ?thesis unfolding Cons r(2) using r(3,4) by (intro exI[of _ "c # ds"] exI[of _ k]) (simp add: add.assoc)
    qed
  qed
qed


lemma poke_run:
  "poke (pre @ o1 # post) (length pre) u = Some (pre @ u # post)"
  "poke (pre @ u # o2 # post) (Suc (length pre)) v = Some (pre @ u # v # post)"
  "poke (pre @ u # v # o3 # post) (Suc (Suc (length pre))) w = Some (pre @ u # v # w # post)"
  using poke_at[of _ pre] poke_at[of _ "pre @ [u]"] poke_at[of _ "pre @ [u, v]"] by simp_all

lemma decode_full_quad:
  assumes "data a" "data b" "data c" "data d"
  shows "base64_decode_loop (a # b # c # d # src) 3 0 x (pre @ o1 # o2 # o3 # post) (length pre) =
    base64_decode_loop src 3 0 (quad_word x [a, b, c, d]) (pre @ quad_bytes (quad_word x [a, b, c, d]) @ post) (length pre + 3)"
  using assms[THEN data_sig, unfolded sig_def] by (simp add: Let_def poke_run quad_bytes_def quad_word_def numeral_3_eq_3)

lemma decode_quad_pad1:
  assumes "data a" "data b" "data c"
  shows "base64_decode_loop (a # b # c # 0x3D # src) 3 0 x (pre @ o1 # o2 # post) (length pre) =
    base64_decode_loop src 2 0 (quad_word x [a, b, c, 0x3D]) (pre @ take 2 (quad_bytes (quad_word x [a, b, c, 0x3D])) @ post) (length pre + 2)"
  using assms[THEN data_sig, unfolded sig_def] by (simp add: Let_def poke_run quad_bytes_def quad_word_def)

lemma decode_quad_pad2:
  assumes "data a" "data b"
  shows "base64_decode_loop (a # b # 0x3D # 0x3D # src) 3 0 x (pre @ o1 # post) (length pre) =
    base64_decode_loop src 1 0 (quad_word x [a, b, 0x3D, 0x3D]) (pre @ take 1 (quad_bytes (quad_word x [a, b, 0x3D, 0x3D])) @ post) (length pre + 1)"
  using assms[THEN data_sig, unfolded sig_def] by (simp add: Let_def poke_run quad_bytes_def quad_word_def)

lemma decode_short: "unat n + length cs < 4 \<Longrightarrow> base64_decode_loop cs j n x dst p = Some (dst, p)"
proof (induction cs arbitrary: j n x)
  case (Cons c cs)
  have "unat (n + 1) = unat n + 1" using Cons.prems by (simp add: unat_plus_no_overflow)
  then have "n + 1 \<noteq> 4" "unat (n + 1) + length cs < 4" "unat n + length cs < 4" using Cons.prems by (auto simp: word_eq_nat)
  then show ?case using Cons.IH by (simp add: Let_def)
qed simp

lemma unb64_data:
  assumes "list_all data [a, b, c, d]"
  shows "unb64 x (a # b # c # d # src) = quad_bytes (quad_word x [a, b, c, d]) @ unb64 (quad_word x [a, b, c, d]) src"
proof -
  have "filter (\<lambda>c. c = 0x3D) [a, b, c, d] = []" using assms data_sig by auto
  then show ?thesis by (simp add: quad_bytes_def Let_def)
qed

lemma unb64_short: "length cs < 4 \<Longrightarrow> unb64 x cs = []"
  by (cases "(x, cs)" rule: unb64.cases) auto

lemma length_ltE:
  assumes "length ds = n" "n < 4" "k \<le> 2" "n + k \<ge> 4"
  shows "(\<exists>a b c. ds = [a, b, c] \<and> k = 1) \<or> (\<exists>a b c. ds = [a, b, c] \<and> k = 2) \<or> (\<exists>a b. ds = [a, b] \<and> k = 2)"
proof -
  have "n = 3 \<and> k = 1 \<or> n = 3 \<and> k = 2 \<or> n = 2 \<and> k = 2" using assms by arith
  then show ?thesis using assms(1) by (auto simp: length_Suc_conv numeral_2_eq_2 numeral_3_eq_3)
qed


lemma decode_loop_tail:
  assumes "list_all data ds" "length ds < 4" "k \<le> 2" "length old = length (unb64 x (ds @ replicate k 0x3D))"
  shows "base64_decode_loop (ds @ replicate k 0x3D) 3 0 x (pre @ old @ post) (length pre) =
    Some (pre @ unb64 x (ds @ replicate k 0x3D) @ post, length pre + length old)"
proof (cases "length ds + k < 4")
  case True
  then show ?thesis using assms by (simp add: decode_short unb64_short)
next
  case False
  have f: "\<not> (c = 0x3D)" if "data c" for c using data_sig[OF that] by simp
  from length_ltE[OF refl assms(2,3)] False
  consider (a) a b c where "ds = [a, b, c]" "k = 1" | (b) a b c where "ds = [a, b, c]" "k = 2" | (c) a b where "ds = [a, b]" "k = 2" by auto
  then show ?thesis
  proof cases
    case a
    then obtain o1 o2 where "old = [o1, o2]"
      using assms f by (auto simp: Let_def quad_bytes_def length_Suc_conv numeral_2_eq_2)
    then show ?thesis using assms a f decode_quad_pad1[of a b c "[]" x pre o1 o2 post] by (simp add: Let_def quad_bytes_def)
  next
    case b
    then obtain o1 o2 where "old = [o1, o2]"
      using assms f by (auto simp: Let_def quad_bytes_def length_Suc_conv numeral_2_eq_2)
    then show ?thesis using assms b f decode_quad_pad1[of a b c "[0x3D]" x pre o1 o2 post] decode_short[of 0 "[0x3D]"]
      by (simp add: Let_def quad_bytes_def numeral_2_eq_2 del: base64_decode_loop.simps)
  next
    case c
    then obtain o1 where "old = [o1]"
      using assms f by (auto simp: Let_def quad_bytes_def length_Suc_conv numeral_2_eq_2)
    then show ?thesis using assms c f decode_quad_pad2[of a b "[]" x pre o1 post] by (simp add: Let_def quad_bytes_def numeral_2_eq_2)
  qed
qed

lemma decode_loop_ok:
  assumes "list_all data ds" "k \<le> 2" "length old = length (unb64 x (ds @ replicate k 0x3D))"
  shows "base64_decode_loop (ds @ replicate k 0x3D) 3 0 x (pre @ old @ post) (length pre) =
    Some (pre @ unb64 x (ds @ replicate k 0x3D) @ post, length pre + length old)"
  using assms
proof (induction x ds arbitrary: pre old rule: unb64.induct)
  case (1 x a b c d ds)
  define y where "y = quad_word x [a, b, c, d]"
  have abcd: "list_all data [a, b, c, d]" using 1(2) by simp
  have u: "unb64 x (a # b # c # d # ds @ replicate k 0x3D) = quad_bytes y @ unb64 y (ds @ replicate k 0x3D)"
    unfolding y_def by (rule unb64_data[OF abcd])
  then obtain o1 o2 o3 old' where old: "old = o1 # o2 # o3 # old'" "length old' = length (unb64 y (ds @ replicate k 0x3D))"
    using 1(4) by (auto simp: quad_bytes_def length_Suc_conv)
  have "base64_decode_loop (a # b # c # d # ds @ replicate k 0x3D) 3 0 x (pre @ o1 # o2 # o3 # old' @ post) (length pre) =
    base64_decode_loop (ds @ replicate k 0x3D) 3 0 y ((pre @ quad_bytes y) @ old' @ post) (length (pre @ quad_bytes y))"
    using decode_full_quad[of a b c d "ds @ replicate k 0x3D" x pre o1 o2 o3 "old' @ post"] abcd
    by (simp add: y_def quad_bytes_def numeral_3_eq_3)
  also have "\<dots> = Some ((pre @ quad_bytes y) @ unb64 y (ds @ replicate k 0x3D) @ post, length (pre @ quad_bytes y) + length old')"
    by (rule 1(1)[OF y_def _ 1(3) old(2)]) (use 1(2) in simp)
  finally show ?case using u old by (simp add: quad_bytes_def del: base64_decode_loop.simps unb64.simps)
qed (rule decode_loop_tail; simp)+

lemma length_unb64:
  assumes "list_all data ds" "k \<le> 2"
  shows "length (unb64 x (ds @ replicate k 0x3D)) =
    3 * (length ds div 4) + (if length ds mod 4 + k < 4 then 0 else length ds mod 4 - 1)"
  using assms
proof (induction x ds rule: unb64.induct)
  case (1 x a b c d ds)
  have abcd: "list_all data [a, b, c, d]" using 1(2) by simp
  have "length (a # b # c # d # ds) = length ds + 4" by simp
  then have "length (a # b # c # d # ds) div 4 = length ds div 4 + 1" "length (a # b # c # d # ds) mod 4 = length ds mod 4"
    by (simp_all only: div_add_self2 mod_add_self2 zero_neq_numeral not_False_eq_True)
  moreover have "length (unb64 x (a # b # c # d # ds @ replicate k 0x3D)) =
    3 + length (unb64 (quad_word x [a, b, c, d]) (ds @ replicate k 0x3D))"
    unfolding unb64_data[OF abcd] by (simp add: quad_bytes_def)
  moreover have "list_all data ds" using 1(2) by simp
  ultimately show ?case using 1(1)[OF refl _ 1(3)] by (simp only: append_Cons) simp
qed (use data_sig in \<open>auto simp: numeral_2_eq_2 le_Suc_eq Let_def quad_bytes_def unb64_short\<close>)


section \<open>Output size\<close>

definition out_size :: "nat \<Rightarrow> nat" where
  "out_size n = 6 * (n div 8) + (6 * (n mod 8) + 7) div 8"

lemma out_size_small:
  "list_all (\<lambda>r. list_all (\<lambda>k. 3 * (r div 4) + (if r mod 4 + k < 4 then 0 else r mod 4 - 1) + k
     \<le> 6 * ((r + k) div 8) + (6 * ((r + k) mod 8) + 7) div 8) [0..<3]) [0..<8::nat]"
  by code_simp

lemma out_size_enough:
  assumes "k \<le> 2"
  shows "3 * (d div 4) + (if d mod 4 + k < 4 then 0 else d mod 4 - 1) + k \<le> out_size (d + k)"
proof -
  define q r where "q = d div 8" and "r = d mod 8"
  have "d = 8 * q + r" and "r < 8" by (simp_all add: q_def r_def)
  then have "d = r + 2 * q * 4" "d + k = r + k + q * 8" by simp_all
  then have "d div 4 = 2 * q + r div 4" "d mod 4 = r mod 4" "(d + k) div 8 = q + (r + k) div 8" "(d + k) mod 8 = (r + k) mod 8"
    by (simp_all only: div_mult_self1 mod_mult_self1 zero_neq_numeral not_False_eq_True)
  moreover have "3 * (r div 4) + (if r mod 4 + k < 4 then 0 else r mod 4 - 1) + k \<le> 6 * ((r + k) div 8) + (6 * ((r + k) mod 8) + 7) div 8"
    using out_size_small \<open>r < 8\<close> assms by (simp add: list_all_iff)
  ultimately show ?thesis unfolding out_size_def by (cases "r mod 4 + k < 4") simp_all
qed

lemma out_size_pads: "k \<le> 2 \<Longrightarrow> k \<le> out_size (d + k)"
  using out_size_enough[of k d] by simp

lemma unat_out_size:
  assumes "unat n = m"
  shows "unat (6 * drop_bit 3 n + drop_bit 3 (6 * (n AND 0x7) + 7) :: word_t) = out_size m"
proof -
  have d: "unat (drop_bit 3 n) = m div 8" using assms by (simp add: drop_bit_eq_div unat_div)
  have "n AND 0x7 = take_bit 3 n" by (simp add: take_bit_eq_mask mask_eq_exp_minus_1)
  then have m: "unat (n AND 0x7) = m mod 8" using assms by (simp add: take_bit_eq_mod unat_mod)
  have lt: "m < 2 ^ 32" using assms unat_bound32 by auto
  have "m mod 8 < 8" by simp
  then have a: "unat (6 * (n AND 0x7) + 7) = 6 * (m mod 8) + 7" by (simp add: unat_word_ariths m)
  then have b: "unat (drop_bit 3 (6 * (n AND 0x7) + 7)) = (6 * (m mod 8) + 7) div 8" by (simp add: drop_bit_eq_div unat_div)
  have c: "unat (6 * drop_bit 3 n) = 6 * (m div 8)" using lt by (simp add: unat_word_ariths d)
  have "6 * (m div 8) + (6 * (m mod 8) + 7) div 8 < 2 ^ 32" using lt \<open>m mod 8 < 8\<close> by simp
  then show ?thesis unfolding out_size_def using b c by (simp add: unat_plus_no_overflow)
qed

section \<open>A group of four characters\<close>

lemma mask_words: "(0x3F :: word_t) = mask 6" "(3 :: word_t) = mask 2" "(15 :: word_t) = mask 4"
  by (simp_all add: mask_eq_exp_minus_1)

lemma sextet_cast: "ucast (ucast (y AND 0x3F :: word_t) :: byte_t) AND 0x3F = y AND 0x3F" for y :: word_t
  unfolding mask_words by (rule bit_word_eqI) (auto simp: bit_simps)

lemma byte_eqI:
  assumes "\<And>n. n < 8 \<Longrightarrow> bit a n = bit (b :: byte_t) n"
  shows "a = b"
  by (rule bit_word_eqI) (use assms in simp)

lemma byte_high: "8 \<le> n \<Longrightarrow> \<not> bit (b :: byte_t) n"
  using bit_imp_le_length[of b n] by auto

lemma group_bits:
  fixes a b c :: byte_t and x :: word_t
  assumes "w = push_bit 24 x OR push_bit 18 (drop_bit 2 (ucast a) AND mask 6) OR
    push_bit 12 ((push_bit 4 (ucast a AND mask 2) OR drop_bit 4 (ucast b)) AND mask 6) OR
    push_bit 6 ((push_bit 2 (ucast b AND mask 4) OR drop_bit 6 (ucast c)) AND mask 6) OR (ucast c AND mask 6)"
  shows "ucast (drop_bit 16 w) = a" "ucast (drop_bit 8 w) = b" "ucast w = c"
proof -
  show "ucast (drop_bit 16 w) = a"
    unfolding assms by (rule byte_eqI, drule less_8_cases, elim disjE; simp only: word_bits; simp add: byte_high)
  show "ucast (drop_bit 8 w) = b"
    unfolding assms by (rule byte_eqI, drule less_8_cases, elim disjE; simp only: word_bits; simp add: byte_high)
  show "ucast w = c"
    unfolding assms by (rule byte_eqI, drule less_8_cases, elim disjE; simp only: word_bits; simp add: byte_high)
qed

lemma group_words:
  fixes a b c :: byte_t and x :: word_t
  defines "A \<equiv> ucast a :: word_t" and "B \<equiv> ucast b :: word_t" and "C \<equiv> ucast c :: word_t"
  shows "quad_bytes (quad_word x (quad A B C)) = [a, b, c]"
proof -
  have p1: "push_bit 4 (A AND 3) + drop_bit 4 B = push_bit 4 (A AND 3) OR drop_bit 4 B"
    by (rule disjunctive_add) (auto simp: B_def bit_simps dest: bit_imp_le_length)
  have p2: "push_bit 2 (B AND 15) + drop_bit 6 C = push_bit 2 (B AND 15) OR drop_bit 6 C"
    by (rule disjunctive_add) (auto simp: C_def bit_simps dest: bit_imp_le_length)
  have w: "quad_word x (quad A B C) = push_bit 24 x OR push_bit 18 (drop_bit 2 A AND 0x3F) OR
    push_bit 12 ((push_bit 4 (A AND 3) OR drop_bit 4 B) AND 0x3F) OR push_bit 6 ((push_bit 2 (B AND 15) OR drop_bit 6 C) AND 0x3F) OR (C AND 0x3F)"
    unfolding quad_word_def quad_def
    by (simp only: foldl.simps dec_enc sextet_cast p1 p2 push_bit_or push_bit_push_bit or.assoc) simp
  show ?thesis unfolding quad_bytes_def using group_bits[OF w[unfolded mask_words A_def B_def C_def]]
    by (simp add: A_def B_def C_def)
qed


lemma pad_words:
  "quad_word x (take 3 (quad A B 0) @ [0x3D]) = quad_word x (quad A B 0)"
  "quad_word x (take 2 (quad A 0 0) @ [0x3D, 0x3D]) = quad_word x (quad A 0 0)"
  by (simp_all add: quad_word_def quad_def numeral_3_eq_3)

lemma quad_data: "list_all data (quad A B C)"
  by (simp add: quad_def)

lemma quad_split: "\<exists>a b c d. quad A B C = [a, b, c, d] \<and> data a \<and> data b \<and> data c \<and> data d"
  by (simp add: quad_def)

lemma unb64_b64: "unb64 x (b64 src) = src"
proof (induction src arbitrary: x rule: b64.induct)
  case (2 a)
  show ?case using group_words[of x a 0 0] pad_words(2)[of x "ucast a"] quad_split[of "ucast a" 0 0] data_sig
    by (auto simp: Let_def quad_bytes_def)
next
  case (3 a b)
  show ?case using group_words[of x a b 0] pad_words(1)[of x "ucast a" "ucast b"] quad_split[of "ucast a" "ucast b" 0] data_sig
    by (auto simp: Let_def quad_bytes_def numeral_3_eq_3 numeral_2_eq_2)
next
  case (4 a b c src)
  obtain d e f g where q: "quad (ucast a) (ucast b) (ucast c) = [d, e, f, g]" using quad_split by blast
  have "list_all data [d, e, f, g]" using quad_data[of "ucast a" "ucast b" "ucast c"] unfolding q .
  then have "unb64 x (d # e # f # g # b64 src) = quad_bytes (quad_word x [d, e, f, g]) @ src" by (simp only: unb64_data 4)
  then show ?case using group_words[of x a b c] unfolding b64.simps q by (simp del: unb64.simps)
qed simp

lemma b64_shape: "\<exists>ds k. b64 src = ds @ replicate k 0x3D \<and> list_all data ds \<and> k \<le> 2"
proof (induction src rule: b64.induct)
  case (2 a)
  show ?case by (intro exI[of _ "take 2 (quad (ucast a) 0 0)"] exI[of _ 2]) (simp add: quad_def numeral_2_eq_2)
next
  case (3 a b)
  show ?case by (intro exI[of _ "take 3 (quad (ucast a) (ucast b) 0)"] exI[of _ 1]) (simp add: quad_def numeral_3_eq_3)
next
  case (4 a b c src)
  then obtain ds k where "b64 src = ds @ replicate k 0x3D" "list_all data ds" "k \<le> 2" by blast
  then show ?case using quad_data[of "ucast a" "ucast b" "ucast c"]
    by (intro exI[of _ "quad (ucast a) (ucast b) (ucast c) @ ds"] exI[of _ k]) (simp add: quad_def)
qed simp


section \<open>The decoder\<close>

lemma scan_pads: "unat j + k \<le> 2 \<Longrightarrow> base64_scan (replicate k 0x3D) n j = Inr (n + word_of_nat k, j + word_of_nat k)"
proof (induction k arbitrary: n j)
  case (Suc k)
  have "unat j = 0 \<or> unat j = 1" using Suc.prems by arith
  then have j: "j = 0 \<or> j = 1" by (simp add: word_eq_nat)
  then have "unat (j + 1) + k \<le> 2" using Suc.prems by auto
  then show ?case using Suc.IH[of "j + 1" "n + 1"] scan_pad[OF j] by (simp add: add.assoc del: base64_scan.simps)
qed simp

lemma scan_text:
  "list_all data ds \<Longrightarrow> k \<le> 2 \<Longrightarrow> base64_scan (ds @ replicate k 0x3D) n 0 = Inr (n + word_of_nat (length ds + k), word_of_nat k)"
proof (induction ds arbitrary: n)
  case Nil
  then show ?case using scan_pads[of 0 k n] by simp
next
  case (Cons d ds)
  then show ?case using scan_data[of d "ds @ replicate k 0x3D" n] Cons.IH[of "n + 1"] by (simp add: add.assoc del: base64_scan.simps)
qed

lemma data_filter: "list_all data ds \<Longrightarrow> filter sig (ds @ replicate k 0x3D) = ds @ replicate k 0x3D"
  by (induction ds) (auto simp: data_sig intro!: filter_True)

lemma unb64_fits:
  assumes "list_all data ds" "k \<le> 2"
  shows "length (unb64 x (ds @ replicate k 0x3D)) \<le> out_size (length ds + k) - k"
  using out_size_enough[OF assms(2), of "length ds"] unfolding length_unb64[OF assms] by (rule add_le_imp_le_diff)

lemma scan_rejects: "base64_scan src n j = Inl e \<Longrightarrow> e = - EINVAL"
proof (induction src arbitrary: n j rule: length_induct)
  case (1 src)
  show ?case
  proof (cases src)
    case (Cons s src')
    show ?thesis
    proof (cases "dropWhile (\<lambda>c. c = 0x20) (s # src')")
      case Nil
      then show ?thesis using 1(2) unfolding Cons base64_scan.simps Let_def Nil by simp
    next
      case (Cons c rest)
      then have "base64_scan rest m i = Inl e \<longrightarrow> e = - EINVAL" for m i
        using 1(1) dropWhile_shorter[OF Cons] unfolding \<open>src = s # src'\<close> by blast
      then show ?thesis using 1(2) unfolding \<open>src = s # src'\<close> base64_scan.simps Let_def Cons list.case by (auto split: if_splits simp del: takeWhile.simps)
    qed
  qed (use 1 in simp)
qed

text \<open>An accepted source: the size that is asked for is enough, and the bytes are those of the reference.\<close>

lemma base64_decode_accepted:
  assumes "base64_scan src 0 0 = Inr (n, word_of_nat k)" "filter sig src = ds @ replicate k 0x3D" "list_all data ds" "k \<le> 2"
    and "unat n = length ds + k" "n \<noteq> 0" "unat dlen \<le> length mem"
  shows "base64_decode (Some mem) dlen olen src =
    (let out = unb64 0 (ds @ replicate k 0x3D); size = out_size (length ds + k) - k in
     if unat dlen < size then Some (- ENOMEM, word_of_nat size, Some mem)
     else Some (0, word_of_nat (length out), Some (out @ drop (length out) mem)))"
proof -
  define m where "m = 6 * drop_bit 3 n + drop_bit 3 (6 * (n AND 0x7) + 7)"
  define out where "out = unb64 0 (ds @ replicate k 0x3D)"
  have um: "unat m = out_size (length ds + k)" unfolding m_def by (rule unat_out_size[OF assms(5)])
  have "unat (word_of_nat k :: word_t) = k" using assms(4) by (simp add: unat_word_of_nat)
  then have us: "unat (m - word_of_nat k) = out_size (length ds + k) - k"
    using um out_size_pads[OF assms(4)] by (simp add: unat_minus_le word_le_nat)
  then have sz: "m - word_of_nat k = word_of_nat (out_size (length ds + k) - k)" by (simp flip: us)
  have len: "length out \<le> out_size (length ds + k) - k"
    unfolding out_def by (rule unb64_fits[OF assms(3,4)])
  have loop: "base64_decode_loop src 3 0 0 mem 0 = Some (out @ drop (length out) mem, length out)" if "length out \<le> length mem"
    using decode_loop_ok[OF assms(3,4), of "take (length out) mem" 0 "[]" "drop (length out) mem"] that
    unfolding decode_loop_filter[of src] assms(2) out_def by simp
  show ?thesis unfolding base64_decode_def assms(1) sum.case prod.case Let_def m_def[symmetric] out_def[symmetric] option.case
    using assms(6,7) us len loop by (auto simp: word_less_nat sz)
qed

lemma base64_decode_total:
  assumes "length src < 2 ^ 32" "unat dlen \<le> length mem"
  shows "\<exists>rc n mem'. base64_decode (Some mem) dlen olen src = Some (rc, n, Some mem') \<and> length mem' = length mem
    \<and> (rc = 0 \<longrightarrow> unat n \<le> unat dlen \<and> drop (unat n) mem' = drop (unat n) mem) \<and> (rc \<noteq> 0 \<longrightarrow> mem' = mem)"
proof (cases "base64_scan src 0 0")
  case (Inl e)
  then show ?thesis using scan_rejects[OF Inl] by (simp add: base64_decode_def EINVAL_def)
next
  case (Inr nj)
  obtain n j where nj: "nj = (n, j)" by (cases nj)
  obtain ds k where sh: "filter sig src = ds @ replicate k 0x3D" "list_all data ds" "n = word_of_nat (length ds + k)" "unat j = k" "k \<le> 2"
    using scan_shape[OF Inr[unfolded nj]] unfolding add_0 unat_0 by blast
  have "length ds + k \<le> length src" using length_filter_le[of sig src] sh(1) by simp
  then have un: "unat n = length ds + k" using assms(1) sh(3) by (simp add: unat_word_of_nat del: of_nat_add)
  have j: "j = word_of_nat k" by (simp flip: sh(4))
  define out where "out = unb64 0 (ds @ replicate k 0x3D)"
  have len: "length out \<le> out_size (length ds + k) - k"
    unfolding out_def by (rule unb64_fits[OF sh(2,5)])
  show ?thesis
  proof (cases "n = 0")
    case True
    then show ?thesis using Inr nj by (simp add: base64_decode_def)
  next
    case False
    from base64_decode_accepted[OF Inr[unfolded nj j] sh(1,2,5) un False assms(2)]
    have "base64_decode (Some mem) dlen olen src = (if unat dlen < out_size (length ds + k) - k
      then Some (- ENOMEM, word_of_nat (out_size (length ds + k) - k), Some mem)
      else Some (0, word_of_nat (length out), Some (out @ drop (length out) mem)))" by (simp add: Let_def out_def)
    moreover have "unat (word_of_nat (length out) :: word_t) = length out" if "length out \<le> unat dlen"
      using that unat_bound32[of dlen] by (simp add: unat_word_of_nat)
    ultimately show ?thesis using len assms(2) by (auto simp: ENOMEM_def)
  qed
qed


lemma out_size_quads: "out_size (4 * c) = 3 * c"
proof (cases "even c")
  case True
  then show ?thesis by (auto simp: out_size_def elim!: evenE)
next
  case False
  then obtain q where q: "4 * c = 4 + q * 8" "3 * c = 6 * q + 3" by (auto elim!: oddE)
  have "(4 + q * 8) div 8 = q" "(4 + q * 8) mod 8 = 4" by simp_all
  then show ?thesis unfolding out_size_def q by simp
qed

lemma b64_out_size:
  assumes "b64 bs = ds @ replicate k 0x3D" "list_all data ds" "k \<le> 2"
  shows "out_size (length ds + k) - k = length bs"
proof -
  define c where "c = (length bs + 2) div 3"
  have dk: "length ds + k = 4 * c" using arg_cong[OF assms(1), of length] by (simp add: b64_length c_def)
  have os: "out_size (length ds + k) = 3 * c" unfolding dk by (rule out_size_quads)
  have bs: "length bs = 3 * (length ds div 4) + (if length ds mod 4 + k < 4 then 0 else length ds mod 4 - 1)"
    using length_unb64[OF assms(2,3), of 0] unb64_b64[of 0 bs] assms(1) by simp
  consider "k = 0" "length ds = 4 * c" | d where "k = 1" "c = Suc d" "length ds = 4 * d + 3" | d where "k = 2" "c = Suc d" "length ds = 4 * d + 2"
    using dk assms(3) by (cases c) (auto simp: le_Suc_eq numeral_2_eq_2)
  then show ?thesis
  proof cases
    case 1
    then show ?thesis using bs os by simp
  next
    case (2 d)
    have "length ds div 4 = d" "length ds mod 4 = 3" unfolding 2 by simp_all
    then show ?thesis using bs os 2 by simp
  next
    case (3 d)
    have "length ds div 4 = d" "length ds mod 4 = 2" unfolding 3 by (simp_all del: add_2_eq_Suc')
    then show ?thesis using bs os 3 by simp
  qed
qed

lemma base64_decode_text:
  assumes "bs \<noteq> []" "length (b64 bs) < 2 ^ 32" "length bs \<le> unat dlen" "unat dlen \<le> length mem"
  shows "base64_decode (Some mem) dlen olen (b64 bs) = Some (0, word_of_nat (length bs), Some (bs @ drop (length bs) mem))"
proof -
  obtain ds k where b: "b64 bs = ds @ replicate k 0x3D" "list_all data ds" "k \<le> 2" using b64_shape by blast
  have len: "length ds + k = length (b64 bs)" by (simp add: b(1))
  have "0 < (length bs + 2) div 3" using assms(1) by (cases bs) (simp_all add: div_greater_zero_iff)
  then have pos: "0 < length ds + k" by (simp add: len b64_length)
  define n where "n = (word_of_nat (length ds + k) :: word_t)"
  have un: "unat n = length ds + k" unfolding n_def using assms(2) len by (simp add: unat_word_of_nat del: of_nat_add)
  then have "n \<noteq> 0" using pos by auto
  have scan: "base64_scan (b64 bs) 0 0 = Inr (n, word_of_nat k)" unfolding b(1) n_def using scan_text[OF b(2,3), of 0] by simp
  have fil: "filter sig (b64 bs) = ds @ replicate k 0x3D" unfolding b(1) by (rule data_filter[OF b(2)])
  from base64_decode_accepted[OF scan fil b(2,3) un \<open>n \<noteq> 0\<close> assms(4)] show ?thesis
    using assms(3) by (simp add: Let_def b64_out_size[OF b] unb64_b64 flip: b(1))
qed

section \<open>Properties\<close>

text \<open>
  C12: Encoding bytes as Base64 and decoding the text gives the bytes: with space for the text and its terminator
  \<open>base64_encode\<close> succeeds, and \<open>base64_decode\<close> of the text succeeds with space for the bytes alone, returns their
  number and leaves the rest of its buffer alone.
\<close>

theorem base64_roundtrip:
  assumes "bs \<noteq> []" "4 * ((length bs + 2) div 3) < unat dlen" "unat dlen \<le> length mem"
    and "length bs \<le> unat dlen'" "unat dlen' \<le> length buf"
  shows "\<exists>text len. base64_encode (Some mem) dlen bs = Some (0, len, Some text) \<and> text ! unat len = 0
    \<and> base64_decode (Some buf) dlen' olen (take (unat len) text) = Some (0, word_of_nat (length bs), Some (bs @ drop (length bs) buf))"
proof -
  have lt: "length (b64 bs) < unat dlen" using assms(2) by (simp add: b64_length)
  then have "length (b64 bs) < 2 ^ 32" using unat_bound32[of dlen] by simp
  then show ?thesis using base64_encode_ok[OF assms(1) lt assms(3)] base64_decode_text[OF assms(1) _ assms(4,5)]
    by (simp add: unat_word_of_nat nth_append)
qed

theorem base64_roundtrip_witness:
  "\<exists>text len. base64_encode (Some (replicate 5 0)) 5 [0xFF, 0x10] = Some (0, len, Some text) \<and> text ! unat len = 0
    \<and> base64_decode (Some [1, 2, 3]) 3 0 (take (unat len) text) = Some (0, 2, Some [0xFF, 0x10, 3])"
  using base64_roundtrip[of "[0xFF, 0x10]" 5 "replicate 5 0" 3 "[1, 2, 3]" 0] by simp

text \<open>
  C13: Decoding is safe for every source, also one with characters that are no Base64, with padding at the wrong place or
  of the wrong length: \<open>base64_decode\<close> returns and never writes behind the size it is given; when it succeeds, no
  byte behind the length it reports has changed, and on an error the destination is unchanged.
\<close>

theorem base64_decode_safe:
  assumes "length src < 2 ^ 32" "unat dlen \<le> length mem"
  shows "\<exists>rc n mem'. base64_decode (Some mem) dlen olen src = Some (rc, n, Some mem') \<and> length mem' = length mem
    \<and> (rc = 0 \<longrightarrow> unat n \<le> unat dlen \<and> drop (unat n) mem' = drop (unat n) mem) \<and> (rc \<noteq> 0 \<longrightarrow> mem' = mem)"
  using base64_decode_total[OF assms] .

theorem base64_decode_safe_witness:
  "\<exists>rc n mem'. base64_decode (Some [7, 8]) 2 0 [0x51, 0x3D, 0x3D] = Some (rc, n, Some mem') \<and> length mem' = Suc (Suc 0)
    \<and> (rc = 0 \<longrightarrow> unat n \<le> 2 \<and> drop (unat n) mem' = drop (unat n) [7, 8]) \<and> (rc \<noteq> 0 \<longrightarrow> mem' = [7, 8])"
  using base64_decode_safe[of "[0x51, 0x3D, 0x3D]" 2 "[7, 8]" 0] by simp

end
