(* ===== verification/Mpu.thy ===== *)
theory Mpu
  imports Prio_Bitmap
begin

text \<open>
  The driver of the memory protection unit of the Cortex-M4, \<^verbatim>\<open>src/arch/arm/aarch32/cortex_m/mpu/arm_mpu.c\<close> with
  \<^verbatim>\<open>arm_mpu_v7m.c\<close>.  The hardware is the record \<open>mpu\<close>: the base address and the attribute registers of its eight
  regions, which the driver selects with the region number register before each access, and the number of regions
  that are reserved for the static configuration.  \<open>user_may\<close> is the rule by which the hardware decides an unprivileged
  access; the checks of the driver are compared with it.
\<close>

unbundle bit_operations_syntax

section \<open>Registers\<close>

definition MPU_RBAR_ADDR_Msk :: word_t where
  "MPU_RBAR_ADDR_Msk = push_bit 5 0x7FFFFFF"

definition MPU_RBAR_VALID_Msk :: word_t where
  "MPU_RBAR_VALID_Msk = push_bit 4 1"

definition MPU_RASR_XN_Msk :: word_t where
  "MPU_RASR_XN_Msk = push_bit 28 1"

definition MPU_RASR_AP_Msk :: word_t where
  "MPU_RASR_AP_Msk = push_bit 24 7"

definition MPU_RASR_SIZE_Msk :: word_t where
  "MPU_RASR_SIZE_Msk = push_bit 1 0x1F"

definition MPU_RASR_ENABLE_Msk :: word_t where
  "MPU_RASR_ENABLE_Msk = 1"

definition REGION_32B :: word_t where
  "REGION_32B = push_bit 1 0x04 AND MPU_RASR_SIZE_Msk"

definition REGION_4G :: word_t where
  "REGION_4G = push_bit 1 0x1F AND MPU_RASR_SIZE_Msk"

definition P_RW_U_NA :: word_t where
  "P_RW_U_NA = 1"

definition P_RW_U_RO :: word_t where
  "P_RW_U_RO = 2"

definition P_RW_U_RW :: word_t where
  "P_RW_U_RW = 3"

definition P_RO_U_RO :: word_t where
  "P_RO_U_RO = 6"

definition RO :: word_t where
  "RO = 7"

record mpu =
  mpu_rbar :: "word_t list"
  mpu_rasr :: "word_t list"
  static_regions_num :: byte_t

record mem_partition =
  part_start :: word_t
  part_size :: word_t
  part_attr :: word_t

text \<open>A shift by the width of a word or more is undefined.\<close>

definition shl32 :: "word_t \<Rightarrow> word_t \<Rightarrow> word_t option" where
  "shl32 x n = (if n < 32 then Some (push_bit (unat n) x) else None)"

section \<open>Programming regions\<close>

definition get_num_regions :: byte_t where
  "get_num_regions = 8"

definition region_init :: "byte_t \<Rightarrow> word_t \<Rightarrow> word_t \<Rightarrow> mpu \<Rightarrow> mpu option" where
  "region_init index base rasr m = do {
     rbar \<leftarrow> arr_set (mpu_rbar m) index ((base AND MPU_RBAR_ADDR_Msk) OR MPU_RBAR_VALID_Msk OR ucast index);
     rasr \<leftarrow> arr_set (mpu_rasr m) index (rasr OR MPU_RASR_ENABLE_Msk);
     Some (m\<lparr>mpu_rbar := rbar, mpu_rasr := rasr\<rparr>) }"

definition mpu_partition_is_valid :: "mem_partition \<Rightarrow> bool" where
  "mpu_partition_is_valid part \<longleftrightarrow> (part_size part AND (part_size part - 1)) = 0 \<and> part_size part \<ge> 32
     \<and> (part_start part AND (part_size part - 1)) = 0"

definition size_to_mpu_rasr_size :: "word_t \<Rightarrow> word_t" where
  "size_to_mpu_rasr_size sz =
     (if sz \<le> 32 then REGION_32B
      else if sz > push_bit 31 1 then REGION_4G
      else push_bit 1 (32 - word_of_nat (clzl (sz - 1)) - 2 + 1) AND MPU_RASR_SIZE_Msk)"

definition region_allocate_and_init :: "byte_t \<Rightarrow> word_t \<Rightarrow> word_t \<Rightarrow> mpu \<Rightarrow> (int \<times> mpu) option" where
  "region_allocate_and_init index base rasr m =
     (if index > get_num_regions - 1 then Some (- EINVAL, m)
      else do {
        m \<leftarrow> region_init index base rasr m;
        Some (int (unat index), m) })"

definition arm_core_mpu_configure_region :: "byte_t \<Rightarrow> mem_partition \<Rightarrow> mpu \<Rightarrow> (int \<times> mpu) option" where
  "arm_core_mpu_configure_region index new_region m =
     region_allocate_and_init index (part_start new_region) (part_attr new_region OR size_to_mpu_rasr_size (part_size new_region)) m"

fun arm_core_mpu_configure_regions :: "mem_partition list \<Rightarrow> int \<Rightarrow> bool \<Rightarrow> mpu \<Rightarrow> (int \<times> mpu) option" where
  "arm_core_mpu_configure_regions [] reg_index do_sanity_check m = Some (reg_index, m)"
| "arm_core_mpu_configure_regions (r # regions) reg_index do_sanity_check m =
     (if part_size r = 0 then arm_core_mpu_configure_regions regions reg_index do_sanity_check m
      else if do_sanity_check \<and> \<not> mpu_partition_is_valid r then Some (- EINVAL, m)
      else do {
        (reg_index, m) \<leftarrow> arm_core_mpu_configure_region (word_of_int reg_index) r m;
        if reg_index = - EINVAL then Some (reg_index, m)
        else arm_core_mpu_configure_regions regions (reg_index + 1) do_sanity_check m })"

definition mpu_configure_static_mpu_regions :: "mem_partition list \<Rightarrow> mpu \<Rightarrow> (int \<times> mpu) option" where
  "mpu_configure_static_mpu_regions static_regions m = do {
     (mpu_reg_index, m) \<leftarrow> arm_core_mpu_configure_regions static_regions (int (unat (static_regions_num m))) True m;
     Some (mpu_reg_index, m\<lparr>static_regions_num := word_of_int mpu_reg_index\<rparr>) }"

definition ARM_MPU_ClrRegion :: "word_t \<Rightarrow> mpu \<Rightarrow> mpu option" where
  "ARM_MPU_ClrRegion rnr m = do {
     rasr \<leftarrow> arr_set (mpu_rasr m) rnr 0;
     Some (m\<lparr>mpu_rasr := rasr\<rparr>) }"

fun mpu_clear_loop :: "nat list \<Rightarrow> mpu \<Rightarrow> mpu option" where
  "mpu_clear_loop [] m = Some m"
| "mpu_clear_loop (i # is) m = do {
     m \<leftarrow> ARM_MPU_ClrRegion (word_of_nat i) m;
     mpu_clear_loop is m }"

definition mpu_configure_dynamic_mpu_regions :: "mem_partition list \<Rightarrow> mpu \<Rightarrow> (int \<times> mpu) option" where
  "mpu_configure_dynamic_mpu_regions dynamic_regions m = do {
     (mpu_reg_index, m) \<leftarrow> arm_core_mpu_configure_regions dynamic_regions (int (unat (static_regions_num m))) False m;
     m \<leftarrow> (if mpu_reg_index \<noteq> - EINVAL then mpu_clear_loop [nat mpu_reg_index..<unat get_num_regions] m else Some m);
     Some (mpu_reg_index, m) }"

definition arm_core_mpu_configure_dynamic_mpu_regions :: "mem_partition list \<Rightarrow> mpu \<Rightarrow> mpu option" where
  "arm_core_mpu_configure_dynamic_mpu_regions dynamic_regions m = do {
     (_, m) \<leftarrow> mpu_configure_dynamic_mpu_regions dynamic_regions m;
     Some m }"

section \<open>Reading regions\<close>

definition mpu_rasr_size_to_size :: "word_t \<Rightarrow> word_t option" where
  "mpu_rasr_size_to_size rasr_size = shl32 1 (rasr_size + 1)"

definition mpu_region_get_base :: "byte_t \<Rightarrow> mpu \<Rightarrow> word_t option" where
  "mpu_region_get_base index m = do {
     rbar \<leftarrow> arr_get (mpu_rbar m) index;
     Some (rbar AND MPU_RBAR_ADDR_Msk) }"

definition mpu_region_get_size :: "byte_t \<Rightarrow> mpu \<Rightarrow> word_t option" where
  "mpu_region_get_size index m = do {
     rasr \<leftarrow> arr_get (mpu_rasr m) index;
     mpu_rasr_size_to_size (drop_bit 1 (rasr AND MPU_RASR_SIZE_Msk)) }"

definition is_enabled_region :: "byte_t \<Rightarrow> mpu \<Rightarrow> bool option" where
  "is_enabled_region index m = do {
     rasr \<leftarrow> arr_get (mpu_rasr m) index;
     Some (rasr AND MPU_RASR_ENABLE_Msk \<noteq> 0) }"

definition get_region_ap :: "byte_t \<Rightarrow> mpu \<Rightarrow> word_t option" where
  "get_region_ap r_index m = do {
     rasr \<leftarrow> arr_get (mpu_rasr m) r_index;
     Some (drop_bit 24 (rasr AND MPU_RASR_AP_Msk)) }"

definition is_in_region :: "byte_t \<Rightarrow> word_t \<Rightarrow> word_t \<Rightarrow> mpu \<Rightarrow> bool option" where
  "is_in_region r_index start sz m = do {
     rbar \<leftarrow> arr_get (mpu_rbar m) r_index;
     rasr \<leftarrow> arr_get (mpu_rasr m) r_index;
     let r_addr_start = rbar AND MPU_RBAR_ADDR_Msk;
     len \<leftarrow> shl32 1 (drop_bit 1 (rasr AND MPU_RASR_SIZE_Msk) + 1);
     let r_addr_end = r_addr_start + len - 1;
     let sz = (if sz = 0 then 0 else sz - 1);
     let end' = start + sz;
     Some (\<not> end' < start \<and> start \<ge> r_addr_start \<and> end' \<le> r_addr_end) }"

definition MPU_USER_READ_ACCESSIBLE_Msk :: word_t where
  "MPU_USER_READ_ACCESSIBLE_Msk = P_RW_U_RO AND P_RW_U_RW AND P_RO_U_RO AND RO"

definition is_user_accessible_region :: "byte_t \<Rightarrow> bool \<Rightarrow> mpu \<Rightarrow> bool option" where
  "is_user_accessible_region r_index write m = do {
     r_ap \<leftarrow> get_region_ap r_index m;
     Some (if write then r_ap = P_RW_U_RW else r_ap AND MPU_USER_READ_ACCESSIBLE_Msk \<noteq> 0) }"

text \<open>The loop runs down from the given region to region 0.\<close>

fun mpu_validate_loop :: "nat \<Rightarrow> word_t \<Rightarrow> word_t \<Rightarrow> bool \<Rightarrow> mpu \<Rightarrow> int option" where
  "mpu_validate_loop 0 addr sz write m = Some (- EPERM)"
| "mpu_validate_loop (Suc r) addr sz write m = do {
     enabled \<leftarrow> is_enabled_region (word_of_nat r) m;
     inside \<leftarrow> (if enabled then is_in_region (word_of_nat r) addr sz m else Some False);
     if \<not> enabled \<or> \<not> inside then mpu_validate_loop r addr sz write m
     else do {
       acc \<leftarrow> is_user_accessible_region (word_of_nat r) write m;
       Some (if acc then 0 else - EPERM) } }"

definition mpu_buffer_validate :: "word_t \<Rightarrow> word_t \<Rightarrow> bool \<Rightarrow> mpu \<Rightarrow> int option" where
  "mpu_buffer_validate addr sz write m = mpu_validate_loop (unat get_num_regions) addr sz write m"

text \<open>The first enabled region from \<open>i\<close> on with the base and size of the partition.\<close>

fun mpu_find_region :: "nat list \<Rightarrow> mem_partition \<Rightarrow> mpu \<Rightarrow> byte_t option option" where
  "mpu_find_region [] p m = Some None"
| "mpu_find_region (i # is) p m = do {
     enabled \<leftarrow> is_enabled_region (word_of_nat i) m;
     if \<not> enabled then mpu_find_region is p m
     else do {
       base \<leftarrow> mpu_region_get_base (word_of_nat i) m;
       if base \<noteq> part_start p then mpu_find_region is p m
       else do {
         sz \<leftarrow> mpu_region_get_size (word_of_nat i) m;
         if sz \<noteq> part_size p then mpu_find_region is p m
         else Some (Some (word_of_nat i)) } } }"

definition arm_core_mpu_mem_partition_config_update :: "mem_partition \<Rightarrow> word_t \<Rightarrow> mpu \<Rightarrow> (mem_partition \<times> mpu) option" where
  "arm_core_mpu_mem_partition_config_update p new_attr m = do {
     found \<leftarrow> mpu_find_region [unat (static_regions_num m)..<unat get_num_regions] p m;
     case found of None \<Rightarrow> None
     | Some reg_index \<Rightarrow> do {
         let p = p\<lparr>part_attr := new_attr\<rparr>;
         (_, m) \<leftarrow> arm_core_mpu_configure_region reg_index p m;
         Some (p, m) } }"

definition arm_core_mpu_get_max_available_dyn_regions :: "mpu \<Rightarrow> int" where
  "arm_core_mpu_get_max_available_dyn_regions m = int (unat get_num_regions) - int (unat (static_regions_num m))"


section \<open>The access rule of the hardware\<close>

definition reg_base :: "mpu \<Rightarrow> nat \<Rightarrow> nat" where
  "reg_base m r = unat (mpu_rbar m ! r AND MPU_RBAR_ADDR_Msk)"

definition reg_exp :: "mpu \<Rightarrow> nat \<Rightarrow> nat" where
  "reg_exp m r = unat (drop_bit 1 (mpu_rasr m ! r AND MPU_RASR_SIZE_Msk)) + 1"

definition reg_enabled :: "mpu \<Rightarrow> nat \<Rightarrow> bool" where
  "reg_enabled m r = bit (mpu_rasr m ! r) 0"

definition reg_ap :: "mpu \<Rightarrow> nat \<Rightarrow> word_t" where
  "reg_ap m r = drop_bit 24 (mpu_rasr m ! r AND MPU_RASR_AP_Msk)"

definition ap_allows :: "bool \<Rightarrow> word_t \<Rightarrow> bool" where
  "ap_allows write ap = (if write then ap = 3 else ap = 2 \<or> ap = 3 \<or> ap = 6 \<or> ap = 7)"

text \<open>
  A region of \<open>2 ^ n\<close> bytes matches an address when all bits above the lowest \<open>n\<close> agree with its base; of the regions that
  match the one with the highest number decides.  Without a matching region only privileged accesses pass.
\<close>

definition reg_matches :: "mpu \<Rightarrow> word_t \<Rightarrow> nat \<Rightarrow> bool" where
  "reg_matches m a r \<longleftrightarrow> reg_enabled m r \<and> unat a div 2 ^ reg_exp m r = reg_base m r div 2 ^ reg_exp m r"

definition user_may :: "mpu \<Rightarrow> bool \<Rightarrow> word_t \<Rightarrow> bool" where
  "user_may m write a =
     (case filter (reg_matches m a) (rev [0..<8]) of [] \<Rightarrow> False | r # _ \<Rightarrow> ap_allows write (reg_ap m r))"

definition mpu_ok :: "mpu \<Rightarrow> bool" where
  "mpu_ok m \<longleftrightarrow> length (mpu_rbar m) = 8 \<and> length (mpu_rasr m) = 8
     \<and> (\<forall>r < 8. reg_enabled m r \<longrightarrow> reg_exp m r < 32 \<and> reg_base m r mod 2 ^ reg_exp m r = 0)"

definition reg_covers :: "mpu \<Rightarrow> nat \<Rightarrow> nat \<Rightarrow> nat \<Rightarrow> bool" where
  "reg_covers m r lo hi \<longleftrightarrow> reg_base m r \<le> lo \<and> hi < reg_base m r + 2 ^ reg_exp m r"

lemma reg_fits:
  assumes "mpu_ok m" "r < 8" "reg_enabled m r"
  shows "reg_base m r + 2 ^ reg_exp m r \<le> 2 ^ 32"
proof -
  let ?n = "reg_exp m r"
  have n: "?n < 32" and d: "2 ^ ?n dvd reg_base m r" using assms by (auto simp: mpu_ok_def)
  obtain q where q: "reg_base m r = 2 ^ ?n * q" using d by blast
  have e: "(2 :: nat) ^ 32 = 2 ^ ?n * 2 ^ (32 - ?n)" using n by (simp only: power_add[symmetric]) simp
  have "reg_base m r < 2 ^ 32" unfolding reg_base_def by (rule unat_bound32)
  then have "2 ^ ?n * q < 2 ^ ?n * 2 ^ (32 - ?n)" unfolding e q .
  then have "Suc q \<le> 2 ^ (32 - ?n)" by simp
  then have "2 ^ ?n * Suc q \<le> 2 ^ ?n * 2 ^ (32 - ?n)" by (rule mult_le_mono2)
  then show ?thesis unfolding e q by simp
qed

lemma div_eq_iff_range:
  fixes L :: nat
  assumes "0 < L"
  shows "n div L = q \<longleftrightarrow> L * q \<le> n \<and> n < L * q + L"
  using assms div_nat_eqI[of L q n] dividend_less_times_div[of L n] times_div_less_eq_dividend[of L n] by (auto simp: mult.commute)

lemma reg_matches_iff:
  assumes "mpu_ok m" "r < 8"
  shows "reg_matches m a r \<longleftrightarrow> reg_enabled m r \<and> reg_covers m r (unat a) (unat a)"
proof (cases "reg_enabled m r")
  case True
  define L where "L = (2 :: nat) ^ reg_exp m r"
  have "0 < L" by (simp add: L_def)
  obtain q where q: "reg_base m r = L * q" using assms True by (auto simp: mpu_ok_def L_def)
  have "unat a div L = q \<longleftrightarrow> L * q \<le> unat a \<and> unat a < L * q + L"
    using \<open>0 < L\<close> by (rule div_eq_iff_range)
  then show ?thesis using True \<open>0 < L\<close> unfolding reg_matches_def reg_covers_def L_def[symmetric] q by simp
qed (simp add: reg_matches_def)


section \<open>The checks of the driver\<close>

lemma unat_region: "r < 8 \<Longrightarrow> unat (word_of_nat r :: byte_t) = r"
  by (simp add: unat_word_of_nat)

lemma is_enabled_region_eq: "mpu_ok m \<Longrightarrow> r < 8 \<Longrightarrow> is_enabled_region (word_of_nat r) m = Some (reg_enabled m r)"
  by (simp add: is_enabled_region_def mpu_ok_def unat_region reg_enabled_def MPU_RASR_ENABLE_Msk_def and_one_eq bit_0
      odd_iff_mod_2_eq_one)

lemma AP_mask: "MPU_RASR_AP_Msk = push_bit 24 (mask 3)"
  by (simp add: MPU_RASR_AP_Msk_def mask_eq_exp_minus_1)

lemma unat_shift_one:
  assumes "n < 32"
  shows "unat (push_bit n 1 :: word_t) = 2 ^ n"
proof -
  have "(2 :: nat) ^ n < 2 ^ LENGTH(32)" using assms power_strict_increasing[of n 32 "2 :: nat"] by simp
  from unat_word_of_nat[OF this] show ?thesis by (simp add: push_bit_eq_mult)
qed

lemma is_in_region_eq:
  assumes "mpu_ok m" "r < 8" "reg_enabled m r" "sz \<noteq> 0" "unat addr + unat sz \<le> 2 ^ 32"
  shows "is_in_region (word_of_nat r) addr sz m = Some (reg_covers m r (unat addr) (unat addr + unat sz - 1))"
proof -
  define base where "base = mpu_rbar m ! r AND MPU_RBAR_ADDR_Msk"
  define s where "s = drop_bit 1 (mpu_rasr m ! r AND MPU_RASR_SIZE_Msk)"
  have e: "reg_exp m r = unat s + 1" and b: "reg_base m r = unat base" by (simp_all add: reg_exp_def reg_base_def s_def base_def)
  have lt: "unat s + 1 < 32" using assms(1-3) e by (auto simp: mpu_ok_def)
  have us: "unat (s + 1) = unat s + 1" using lt by (simp add: unat_plus_no_overflow)
  define len where "len = push_bit (unat s + 1) (1 :: word_t)"
  have sh: "shl32 1 (s + 1) = Some len" using us lt by (simp add: shl32_def word_less_nat len_def)
  have ulen: "unat len = 2 ^ (unat s + 1)" unfolding len_def by (rule unat_shift_one[OF lt])
  have fit: "unat base + unat len \<le> 2 ^ 32" using reg_fits[OF assms(1-3)] by (simp add: e b ulen)
  have "0 < unat len" by (simp add: ulen)
  then have "unat (len - 1) = unat len - 1" by (intro unat_minus_one) auto
  then have rend: "unat (base + len - 1) = unat base + unat len - 1"
    using fit \<open>0 < unat len\<close> unat_plus_no_overflow[of base "len - 1"] by (simp add: add_diff_eq)
  have "unat (sz - 1) = unat sz - 1" "0 < unat sz" using assms(4) by (simp_all add: unat_minus_one unat_gt_0)
  then have bend: "unat (addr + (sz - 1)) = unat addr + unat sz - 1"
    using assms(5) unat_plus_no_overflow[of addr "sz - 1"] by simp
  have "\<not> addr + (sz - 1) < addr" using bend \<open>0 < unat sz\<close> by (simp add: word_less_nat)
  moreover have "addr + (sz - 1) \<le> base + len - 1 \<longleftrightarrow> unat addr + unat sz - 1 < unat base + unat len"
    unfolding word_le_nat bend rend using \<open>0 < unat len\<close> by auto
  moreover have "base \<le> addr \<longleftrightarrow> unat base \<le> unat addr" by (rule word_le_nat)
  moreover have g: "arr_get (mpu_rbar m) (word_of_nat r :: byte_t) = Some (mpu_rbar m ! r)"
    "arr_get (mpu_rasr m) (word_of_nat r :: byte_t) = Some (mpu_rasr m ! r)" using assms(1,2) by (auto simp: mpu_ok_def unat_region)
  ultimately show ?thesis
    unfolding is_in_region_def reg_covers_def e b g Option.bind.bind_lunit Let_def base_def[symmetric] s_def[symmetric] sh
    using assms(4) ulen by simp
qed

lemma is_user_accessible_region_eq:
  assumes "mpu_ok m" "r < 8"
  shows "is_user_accessible_region (word_of_nat r) write m = Some (ap_allows write (reg_ap m r))"
proof -
  have "reg_ap m r = take_bit 3 (drop_bit 24 (mpu_rasr m ! r))"
    unfolding reg_ap_def AP_mask by (rule bit_word_eqI) (auto simp: bit_simps)
  then have "unat (reg_ap m r) < 8" using take_bit_nat_less_exp[of 3] by (simp add: unsigned_take_bit_eq)
  then have "reg_ap m r \<in> {0, 1, 2, 3, 4, 5, 6, 7}" by (auto simp: word_eq_nat less_8_iff less_4_iff)
  moreover have "get_region_ap (word_of_nat r) m = Some (reg_ap m r)"
    using assms by (simp add: get_region_ap_def reg_ap_def mpu_ok_def unat_region)
  ultimately show ?thesis
    by (auto simp: is_user_accessible_region_def ap_allows_def MPU_USER_READ_ACCESSIBLE_Msk_def P_RW_U_RO_def P_RW_U_RW_def P_RO_U_RO_def RO_def)
qed

lemma mpu_validate_loop_eq:
  assumes "mpu_ok m" "n \<le> 8" "sz \<noteq> 0" "unat addr + unat sz \<le> 2 ^ 32"
  shows "mpu_validate_loop n addr sz write m = Some
    (case filter (\<lambda>r. reg_enabled m r \<and> reg_covers m r (unat addr) (unat addr + unat sz - 1)) (rev [0..<n]) of [] \<Rightarrow> - EPERM
     | r # _ \<Rightarrow> if ap_allows write (reg_ap m r) then 0 else - EPERM)"
  using assms(2)
proof (induction n)
  case (Suc r)
  then have r: "r < 8" by simp
  show ?case
  proof (cases "reg_enabled m r")
    case True
    then show ?thesis using Suc is_enabled_region_eq[OF assms(1) r] is_in_region_eq[OF assms(1) r True assms(3,4)]
        is_user_accessible_region_eq[OF assms(1) r] by simp
  next
    case False
    then show ?thesis using Suc is_enabled_region_eq[OF assms(1) r] by simp
  qed
qed simp

text \<open>Every enabled region contains the buffer or is disjoint from it.\<close>

definition no_partial :: "mpu \<Rightarrow> nat \<Rightarrow> nat \<Rightarrow> bool" where
  "no_partial m lo hi \<longleftrightarrow> (\<forall>r < 8. reg_enabled m r \<longrightarrow>
     reg_covers m r lo hi \<or> hi < reg_base m r \<or> reg_base m r + 2 ^ reg_exp m r \<le> lo)"

lemma no_partial_matches:
  assumes "mpu_ok m" "no_partial m lo hi" "lo \<le> unat a" "unat a \<le> hi"
  shows "filter (reg_matches m a) (rev [0..<8]) = filter (\<lambda>r. reg_enabled m r \<and> reg_covers m r lo hi) (rev [0..<8])"
proof (rule filter_cong[OF refl])
  fix r :: nat assume "r \<in> set (rev [0..<8])"
  then have "r < 8" by simp
  then show "reg_matches m a r = (reg_enabled m r \<and> reg_covers m r lo hi)"
    using assms(2-) unfolding reg_matches_iff[OF assms(1) \<open>r < 8\<close>] no_partial_def reg_covers_def by force
qed

lemma mpu_buffer_validate_eq:
  assumes "mpu_ok m" "sz \<noteq> 0" "unat addr + unat sz \<le> 2 ^ 32" "no_partial m (unat addr) (unat addr + unat sz - 1)"
    and "addr \<le> a" "unat a \<le> unat addr + unat sz - 1"
  shows "mpu_buffer_validate addr sz write m = Some (if user_may m write a then 0 else - EPERM)"
  using mpu_validate_loop_eq[OF assms(1) _ assms(2,3), where n = 8] no_partial_matches[OF assms(1,4) _ assms(6)] assms(5)
  unfolding mpu_buffer_validate_def get_num_regions_def user_may_def by (auto simp: word_le_nat split: list.splits)


section \<open>The programmed regions\<close>

definition enc_rbar :: "nat \<times> mem_partition \<Rightarrow> word_t" where
  "enc_rbar ip = (part_start (snd ip) AND MPU_RBAR_ADDR_Msk) OR MPU_RBAR_VALID_Msk OR word_of_nat (fst ip)"

definition enc_rasr :: "mem_partition \<Rightarrow> word_t" where
  "enc_rasr p = part_attr p OR size_to_mpu_rasr_size (part_size p) OR MPU_RASR_ENABLE_Msk"

definition nonempty :: "mem_partition \<Rightarrow> bool" where
  "nonempty p \<longleftrightarrow> part_size p \<noteq> 0"

definition program :: "nat \<Rightarrow> mem_partition list \<Rightarrow> mpu \<Rightarrow> mpu" where
  "program k ps m = m\<lparr>mpu_rbar := take k (mpu_rbar m) @ map enc_rbar (enumerate k ps) @ drop (k + length ps) (mpu_rbar m),
     mpu_rasr := take k (mpu_rasr m) @ map enc_rasr ps @ drop (k + length ps) (mpu_rasr m)\<rparr>"

lemma configure_region_eq:
  assumes "length (mpu_rbar m) = 8" "length (mpu_rasr m) = 8" "k < 8"
  shows "arm_core_mpu_configure_region (word_of_int (int k)) p m =
    Some (int k, m\<lparr>mpu_rbar := (mpu_rbar m)[k := enc_rbar (k, p)], mpu_rasr := (mpu_rasr m)[k := enc_rasr p]\<rparr>)"
proof -
  have i: "unat (word_of_int (int k) :: byte_t) = k" using assms(3) unat_region[of k] by simp
  have u: "ucast (word_of_nat k :: byte_t) = (word_of_nat k :: word_t)"
    using less_8_cases[OF assms(3)] by (elim disjE) simp_all
  have "\<not> (get_num_regions - 1 < (word_of_int (int k) :: byte_t))" using assms(3) i by (simp add: get_num_regions_def word_less_nat)
  then show ?thesis using assms i
    by (simp add: arm_core_mpu_configure_region_def region_allocate_and_init_def region_init_def enc_rbar_def enc_rasr_def u or.assoc)
qed

lemma take_update_Suc: "k < length xs \<Longrightarrow> take (Suc k) (xs[k := v]) = take k xs @ [v]"
  by (simp add: take_Suc_conv_app_nth)

lemma configure_regions_eq:
  assumes "length (mpu_rbar m) = 8" "length (mpu_rasr m) = 8" "k + length (filter nonempty rs) \<le> 8"
  shows "arm_core_mpu_configure_regions rs (int k) False m = Some (int (k + length (filter nonempty rs)), program k (filter nonempty rs) m)"
  using assms
proof (induction rs arbitrary: k m)
  case Nil
  then show ?case by (simp add: program_def)
next
  case (Cons r rs)
  show ?case
  proof (cases "nonempty r")
    case True
    define m1 where "m1 = m\<lparr>mpu_rbar := (mpu_rbar m)[k := enc_rbar (k, r)], mpu_rasr := (mpu_rasr m)[k := enc_rasr r]\<rparr>"
    have k: "k < 8" using Cons.prems True by simp
    have "arm_core_mpu_configure_regions rs (int (Suc k)) False m1 =
      Some (int (Suc k + length (filter nonempty rs)), program (Suc k) (filter nonempty rs) m1)"
      using Cons.prems True by (intro Cons.IH) (simp_all add: m1_def)
    moreover have "program (Suc k) (filter nonempty rs) m1 = program k (filter nonempty (r # rs)) m"
      using Cons.prems True k by (simp add: program_def m1_def take_update_Suc)
    moreover have "part_size r \<noteq> 0" using True by (simp add: nonempty_def)
    ultimately show ?thesis using True configure_region_eq[OF Cons.prems(1,2) k, of r]
      by (simp add: m1_def EINVAL_def add.commute)
  next
    case False
    then show ?thesis using Cons by (simp add: nonempty_def)
  qed
qed

lemma mpu_clear_loop_eq:
  assumes "length (mpu_rasr m) = 8" "j \<le> 8"
  shows "mpu_clear_loop [j..<8] m = Some (m\<lparr>mpu_rasr := take j (mpu_rasr m) @ replicate (8 - j) 0\<rparr>)"
  using assms
proof (induction "8 - j" arbitrary: j m)
  case 0
  then show ?case by simp
next
  case (Suc d)
  then have j: "j < 8" "8 - j = Suc (8 - Suc j)" by simp_all
  have u: "unat (word_of_nat j :: word_t) = j" using j(1) by (simp add: unat_word_of_nat)
  have "mpu_clear_loop [Suc j..<8] (m\<lparr>mpu_rasr := (mpu_rasr m)[j := 0]\<rparr>) =
    Some (m\<lparr>mpu_rasr := take (Suc j) ((mpu_rasr m)[j := 0]) @ replicate (8 - Suc j) 0\<rparr>)"
    using Suc(1)[of "Suc j" "m\<lparr>mpu_rasr := (mpu_rasr m)[j := 0]\<rparr>"] Suc(2-) by simp
  then show ?case using j Suc.prems u by (simp add: upt_conv_Cons ARM_MPU_ClrRegion_def take_update_Suc)
qed


lemma mpu_configure_dynamic_eq:
  assumes "length (mpu_rbar m) = 8" "length (mpu_rasr m) = 8" "k = unat (static_regions_num m)"
    and "ps = filter nonempty rs" "k + length ps \<le> 8"
  shows "mpu_configure_dynamic_mpu_regions rs m = Some (int (k + length ps),
    m\<lparr>mpu_rbar := take k (mpu_rbar m) @ map enc_rbar (enumerate k ps) @ drop (k + length ps) (mpu_rbar m),
      mpu_rasr := take k (mpu_rasr m) @ map enc_rasr ps @ replicate (8 - (k + length ps)) 0\<rparr>)"
proof -
  define j where "j = k + length ps"
  have j8: "j \<le> 8" using assms(5) by (simp add: j_def)
  have c: "arm_core_mpu_configure_regions rs (int k) False m = Some (int j, program k ps m)"
    using configure_regions_eq[OF assms(1,2), of k rs] assms(5) unfolding assms(4) j_def by blast
  have len: "length (mpu_rasr (program k ps m)) = 8" using assms by (simp add: program_def)
  have tk: "take j (mpu_rasr (program k ps m)) = take k (mpu_rasr m) @ map enc_rasr ps" using assms by (simp add: program_def j_def)
  have "mpu_configure_dynamic_mpu_regions rs m = Some (int j, (program k ps m)\<lparr>mpu_rasr := take j (mpu_rasr (program k ps m)) @ replicate (8 - j) 0\<rparr>)"
    unfolding mpu_configure_dynamic_mpu_regions_def assms(3)[symmetric] c using mpu_clear_loop_eq[OF len j8]
    by (simp add: get_num_regions_def EINVAL_def)
  then show ?thesis unfolding tk by (simp add: program_def j_def)
qed

section \<open>Sizes\<close>

lemma clzl_mask:
  assumes "0 < j" "j \<le> 32"
  shows "clzl (mask j) = 32 - j"
proof -
  have b: "bit (mask j :: word_t) i \<longleftrightarrow> i < j" for i using assms by (auto simp: bit_mask_iff)
  have "mask j \<noteq> (0 :: word_t)" using b[of 0] assms(1) by auto
  note c = clzl_bit[OF this]
  have "31 - clzl (mask j) < j" using c(2) b by simp
  moreover have "j - 1 \<le> 31 - clzl (mask j)" using c(3)[of "j - 1"] b assms by simp
  ultimately show ?thesis using c(1) assms by arith
qed

lemma SIZE_mask: "MPU_RASR_SIZE_Msk = push_bit 1 (mask 5)"
  by (simp add: MPU_RASR_SIZE_Msk_def mask_eq_exp_minus_1)

lemma small_bits: "n < 32 \<Longrightarrow> bit (word_of_nat n :: word_t) i \<Longrightarrow> i < 5"
proof (rule ccontr)
  assume n: "n < 32" "bit (word_of_nat n :: word_t) i" "\<not> i < 5"
  have "(2 :: nat) ^ 5 \<le> 2 ^ i" using n(3) by (intro power_increasing) simp_all
  then have "n div 2 ^ i = 0" using n(1) by simp
  then have "\<not> bit n i" by (simp add: bit_iff_odd)
  then show False using n(2) by (simp add: bit_of_nat_iff)
qed

lemma size_field:
  assumes "5 \<le> j" "j < 32"
  shows "size_to_mpu_rasr_size (2 ^ j) = push_bit 1 (word_of_nat (j - 1))"
proof (cases "j = 5")
  case True
  then show ?thesis by (simp add: size_to_mpu_rasr_size_def REGION_32B_def MPU_RASR_SIZE_Msk_def)
next
  case False
  have u: "unat (2 ^ j :: word_t) = 2 ^ j" using unat_shift_one[OF assms(2)] by (simp add: push_bit_eq_mult)
  have "(2 :: nat) ^ 5 < 2 ^ j" using False assms by (intro power_strict_increasing) simp_all
  then have g1: "\<not> (2 :: word_t) ^ j \<le> 32" using u by (simp add: word_le_nat)
  have "(2 :: nat) ^ j \<le> 2 ^ 31" using assms by (intro power_increasing) simp_all
  then have g2: "\<not> (2 :: word_t) ^ j > push_bit 31 1" using u unat_shift_one[of 31] by (simp add: word_less_nat)
  have "clzl (2 ^ j - 1) = 32 - j" using clzl_mask[of j] assms by (simp add: mask_eq_exp_minus_1)
  moreover have "32 - word_of_nat (32 - j) - 2 + 1 = (word_of_nat (j - 1) :: word_t)" using assms by (simp add: of_nat_diff)
  moreover have "push_bit 1 (word_of_nat (j - 1)) AND MPU_RASR_SIZE_Msk = (push_bit 1 (word_of_nat (j - 1)) :: word_t)"
    unfolding SIZE_mask push_bit_and[symmetric] using small_bits[of "j - 1"] assms
    by (intro arg_cong[where f = "push_bit 1"] bit_word_eqI) (auto simp: bit_and_iff bit_mask_iff)
  ultimately show ?thesis unfolding size_to_mpu_rasr_size_def using g1 g2 by simp
qed


section \<open>Partitions\<close>

text \<open>The attributes of a partition leave the size and the enable bit of the register clear.\<close>

definition part_ok :: "mem_partition \<Rightarrow> bool" where
  "part_ok p \<longleftrightarrow> mpu_partition_is_valid p \<and> take_bit 6 (part_attr p) = 0"

definition part_ap :: "mem_partition \<Rightarrow> word_t" where
  "part_ap p = drop_bit 24 (part_attr p AND MPU_RASR_AP_Msk)"

definition part_has :: "word_t \<Rightarrow> mem_partition \<Rightarrow> bool" where
  "part_has a p \<longleftrightarrow> unat (part_start p) \<le> unat a \<and> unat a < unat (part_start p) + unat (part_size p)"

lemma part_ok_size:
  assumes "part_ok p"
  obtains j where "5 \<le> j" "j < 32" "part_size p = 2 ^ j" "unat (part_size p) = 2 ^ j" "2 ^ j dvd unat (part_start p)"
proof -
  have v: "part_size p AND (part_size p - 1) = 0" "32 \<le> part_size p" "part_start p AND (part_size p - 1) = 0"
    using assms by (auto simp: part_ok_def mpu_partition_is_valid_def)
  then have "part_size p \<noteq> 0" by auto
  then obtain j where j: "j < 32" "part_size p = 2 ^ j" using power_of_two_word v(1) by blast
  have u: "unat (part_size p) = 2 ^ j" using unat_shift_one[OF j(1)] j(2) by (simp add: push_bit_eq_mult)
  have "(2 :: nat) ^ 5 \<le> 2 ^ j" using v(2) u by (simp add: word_le_nat)
  then have "5 \<le> j" by (rule power_le_imp_le_exp[rotated]) simp
  have "take_bit j (part_start p) = 0" using v(3) unfolding j(2) by (simp add: take_bit_eq_mask mask_eq_exp_minus_1)
  then have "take_bit j (unat (part_start p)) = 0" by (simp flip: unsigned_take_bit_eq)
  then have "2 ^ j dvd unat (part_start p)" by (simp add: take_bit_eq_0_iff)
  then show ?thesis using that \<open>5 \<le> j\<close> j u by blast
qed

lemma enc_rasr_fields:
  assumes "part_ok p" "part_size p = 2 ^ j" "5 \<le> j" "j < 32"
  shows "bit (enc_rasr p) 0" "drop_bit 1 (enc_rasr p AND MPU_RASR_SIZE_Msk) = word_of_nat (j - 1)"
    "drop_bit 24 (enc_rasr p AND MPU_RASR_AP_Msk) = part_ap p"
proof -
  have low: "\<not> bit (part_attr p) i" if "i < 6" for i
    using assms(1) that bit_take_bit_iff[of 6 "part_attr p" i] by (auto simp: part_ok_def)
  define w where "w = (word_of_nat (j - 1) :: word_t)"
  have sb: "bit w i \<Longrightarrow> i < 5" for i unfolding w_def using small_bits[of "j - 1" i] assms by simp
  have sb31: "bit w i \<Longrightarrow> i < 31" for i using sb[of i] by simp
  have e: "enc_rasr p = part_attr p OR push_bit 1 w OR 1"
    unfolding enc_rasr_def MPU_RASR_ENABLE_Msk_def assms(2) size_field[OF assms(3,4)] w_def ..
  show "bit (enc_rasr p) 0" unfolding e by (simp add: bit_or_iff)
  show "drop_bit 1 (enc_rasr p AND MPU_RASR_SIZE_Msk) = word_of_nat (j - 1)" unfolding e SIZE_mask w_def[symmetric]
    by (rule bit_word_eqI, simp only: word_bits bit_1_iff) (use low sb sb31 in auto)
  show "drop_bit 24 (enc_rasr p AND MPU_RASR_AP_Msk) = part_ap p" unfolding e part_ap_def AP_mask
    by (rule bit_word_eqI, simp only: word_bits bit_1_iff) (use sb in fastforce)
qed

lemma ADDR_mask: "bit MPU_RBAR_ADDR_Msk n \<longleftrightarrow> 5 \<le> n \<and> n < 32"
proof -
  have m: "MPU_RBAR_ADDR_Msk = push_bit 5 (mask 27)" by (simp add: MPU_RBAR_ADDR_Msk_def mask_eq_exp_minus_1)
  show ?thesis unfolding m word_bits by auto
qed

lemma enc_rbar_base:
  assumes "part_ok p" "i < 8"
  shows "enc_rbar (i, p) AND MPU_RBAR_ADDR_Msk = part_start p"
proof -
  obtain j where j: "5 \<le> j" "2 ^ j dvd unat (part_start p)" using part_ok_size[OF assms(1)] by metis
  have "(2 :: nat) ^ 5 dvd unat (part_start p)" using le_imp_power_dvd[OF j(1), of "2 :: nat"] j(2) dvd_trans by blast
  then have "take_bit 5 (unat (part_start p)) = 0" by (simp add: take_bit_eq_0_iff)
  then have "unat (take_bit 5 (part_start p)) = 0" by (simp add: unsigned_take_bit_eq)
  then have low: "5 \<le> n" if "bit (part_start p) n" for n
    using that bit_take_bit_iff[of 5 "part_start p" n] by (auto simp: unat_eq_zero not_less)
  have v: "MPU_RBAR_VALID_Msk = push_bit 4 (mask 1)" by (simp add: MPU_RBAR_VALID_Msk_def mask_eq_exp_minus_1)
  have i: "bit (word_of_nat i :: word_t) n \<Longrightarrow> \<not> 5 \<le> n" for n using small_bits[of i n] assms(2) by simp
  show ?thesis unfolding enc_rbar_def fst_conv snd_conv v
    by (rule bit_word_eqI, simp only: word_bits ADDR_mask) (use low i in \<open>auto simp: not_less\<close>)
qed

text \<open>The unit with the static regions alone.\<close>

definition static_part :: "mpu \<Rightarrow> mpu" where
  "static_part m = m\<lparr>mpu_rasr := take (unat (static_regions_num m)) (mpu_rasr m) @ replicate (8 - unat (static_regions_num m)) 0\<rparr>"

lemma reg_matches_part:
  assumes "part_ok p" "i < 8" "mpu_rbar m ! r = enc_rbar (i, p)" "mpu_rasr m ! r = enc_rasr p"
  shows "reg_matches m a r = part_has a p" "reg_ap m r = part_ap p"
proof -
  obtain j where j: "5 \<le> j" "j < 32" "part_size p = 2 ^ j" "unat (part_size p) = 2 ^ j" "2 ^ j dvd unat (part_start p)"
    using part_ok_size[OF assms(1)] by metis
  note f = enc_rasr_fields[OF assms(1) j(3,1,2)]
  have "unat (word_of_nat (j - 1) :: word_t) = j - 1" using j(2) by (simp add: unat_word_of_nat)
  then have e: "reg_exp m r = j" using j(1) f(2) by (simp add: reg_exp_def assms(4))
  have b: "reg_base m r = unat (part_start p)" using enc_rbar_base[OF assms(1,2)] by (simp add: reg_base_def assms(3))
  define L where "L = (2 :: nat) ^ j"
  obtain q where q: "unat (part_start p) = L * q" using j(5) unfolding L_def by blast
  have "0 < L" by (simp add: L_def)
  then have "unat a div L = q \<longleftrightarrow> L * q \<le> unat a \<and> unat a < L * q + L" by (rule div_eq_iff_range)
  then show "reg_matches m a r = part_has a p"
    using f(1) \<open>0 < L\<close> unfolding reg_matches_def reg_enabled_def part_has_def e b assms(4) j(4) L_def[symmetric] q by simp
  show "reg_ap m r = part_ap p" using f(3) by (simp add: reg_ap_def part_ap_def assms(4))
qed

lemma upt_split: "i \<le> j \<Longrightarrow> j \<le> n \<Longrightarrow> [i..<n] = [i..<j] @ [j..<n]"
  using upt_add_eq_append[of i j "n - j"] by simp

lemma filter_rev_nth: "map ((!) ps) (filter (\<lambda>i. P (ps ! i)) (rev [0..<length ps])) = filter P (rev ps)"
proof -
  have "rev ps = map ((!) ps) (rev [0..<length ps])" by (simp add: map_nth flip: rev_map)
  then show ?thesis by (simp add: filter_map o_def)
qed

lemma reg_matches_cong:
  assumes "mpu_rbar m ! r = mpu_rbar m' ! r" "mpu_rasr m ! r = mpu_rasr m' ! r"
  shows "reg_matches m a r = reg_matches m' a r" "reg_ap m r = reg_ap m' r"
  using assms by (simp_all add: reg_matches_def reg_enabled_def reg_base_def reg_exp_def reg_ap_def)

lemma reg_matches_disabled: "mpu_rasr m ! r = 0 \<Longrightarrow> \<not> reg_matches m a r"
  by (simp add: reg_matches_def reg_enabled_def)

text \<open>The eight regions: static ones, programmed ones and disabled ones.\<close>

lemma user_may_programmed:
  assumes "length (mpu_rbar m) = 8" "length (mpu_rasr m) = 8" "k = unat (static_regions_num m)" "k + length ps \<le> 8" "list_all part_ok ps"
    and m': "m' = m\<lparr>mpu_rbar := take k (mpu_rbar m) @ map enc_rbar (enumerate k ps) @ drop (k + length ps) (mpu_rbar m),
      mpu_rasr := take k (mpu_rasr m) @ map enc_rasr ps @ replicate (8 - (k + length ps)) 0\<rparr>"
  shows "user_may m' write a = (case filter (part_has a) (rev ps) of [] \<Rightarrow> user_may (static_part m) write a | p # _ \<Rightarrow> ap_allows write (part_ap p))"
proof -
  let ?l = "length ps"
  have k8: "k \<le> 8" using assms(4) by simp
  have split: "[0..<8] = [0..<k] @ map (\<lambda>i. i + k) [0..<?l] @ [k + ?l..<8]" "[0..<8] = [0..<k] @ [k..<8]"
    using upt_split[of 0 k 8] upt_split[of k "k + ?l" 8] map_add_upt[of k ?l] assms(4) by (simp_all add: add.commute)
  have off: "filter (reg_matches m' a) (rev [k + ?l..<8]) = []" "filter (reg_matches (static_part m) a) (rev [k..<8]) = []"
    using assms(2,4) unfolding filter_empty_conv m' static_part_def assms(3)[symmetric]
    by (auto intro!: reg_matches_disabled simp: nth_append)
  have same: "reg_matches m' a r = reg_matches (static_part m) a r" "reg_ap m' r = reg_ap (static_part m) r" if "r < k" for r
    using that assms(1,2) k8 by (auto intro!: reg_matches_cong simp: m' static_part_def nth_append simp flip: assms(3))
  have mid: "reg_matches m' a (i + k) = part_has a (ps ! i)" "reg_ap m' (i + k) = part_ap (ps ! i)" if "i < ?l" for i
  proof -
    have e: "mpu_rbar m' ! (i + k) = enc_rbar (k + i, ps ! i)" "mpu_rasr m' ! (i + k) = enc_rasr (ps ! i)"
      using that assms(1,2,4) by (simp_all add: m' nth_append nth_enumerate_eq)
    have "part_ok (ps ! i)" "k + i < 8" using that assms(4,5) by (simp_all add: list_all_length)
    from reg_matches_part[OF this e] show "reg_matches m' a (i + k) = part_has a (ps ! i)" "reg_ap m' (i + k) = part_ap (ps ! i)" by simp_all
  qed
  define F where "F = filter (\<lambda>i. part_has a (ps ! i)) (rev [0..<?l])"
  have F: "filter (part_has a) (rev ps) = map ((!) ps) F" unfolding F_def by (rule filter_rev_nth[symmetric])
  have m: "filter (reg_matches m' a) (rev (map (\<lambda>i. i + k) [0..<?l])) = map (\<lambda>i. i + k) F"
    unfolding F_def rev_map filter_map o_def by (auto intro!: arg_cong[where f = "map _"] filter_cong simp: mid)
  have s: "filter (reg_matches m' a) (rev [0..<k]) = filter (reg_matches (static_part m) a) (rev [0..<k])"
    by (rule filter_cong) (auto simp: same)
  have all: "filter (reg_matches m' a) (rev [0..<8]) = map (\<lambda>i. i + k) F @ filter (reg_matches (static_part m) a) (rev [0..<k])"
    unfolding split(1) rev_append filter_append by (simp add: off m s)
  have st: "filter (reg_matches (static_part m) a) (rev [0..<8]) = filter (reg_matches (static_part m) a) (rev [0..<k])"
    unfolding split(2) rev_append filter_append by (simp add: off)
  show ?thesis
  proof (cases F)
    case Nil
    have "r < k" if "filter (reg_matches (static_part m) a) (rev [0..<k]) = r # rs" for r rs
      using arg_cong[OF that, of set] by auto
    then show ?thesis unfolding user_may_def all st F Nil by (auto simp: same split: list.splits)
  next
    case (Cons i js)
    then have "i \<in> set F" by simp
    then have "i < ?l" by (simp add: F_def)
    then show ?thesis unfolding user_may_def all F Cons by (simp add: mid)
  qed
qed


section \<open>Properties\<close>

text \<open>
  C7: The dynamic configuration isolates user memory: when the unit has enough regions for the partitions that are not
  empty, and these are valid, an unprivileged access to an address is decided by the last partition that contains the
  address, with its permissions, and by the static regions alone when no partition contains it.
\<close>

theorem mpu_isolates_partitions:
  assumes "length (mpu_rbar m) = 8" "length (mpu_rasr m) = 8" "list_all part_ok (filter nonempty rs)"
    and "unat (static_regions_num m) + length (filter nonempty rs) \<le> 8"
  shows "\<exists>m'. arm_core_mpu_configure_dynamic_mpu_regions rs m = Some m'
    \<and> (\<forall>write a. user_may m' write a = (case filter (part_has a) (rev (filter nonempty rs)) of
        [] \<Rightarrow> user_may (static_part m) write a | p # _ \<Rightarrow> ap_allows write (part_ap p)))"
  using mpu_configure_dynamic_eq[OF assms(1,2) refl refl assms(4)] user_may_programmed[OF assms(1,2) refl assms(4,3) refl]
  by (simp add: arm_core_mpu_configure_dynamic_mpu_regions_def)

definition mpu_ex :: mpu where
  "mpu_ex = \<lparr>mpu_rbar = replicate 8 0, mpu_rasr = replicate 8 0, static_regions_num = 2\<rparr>"

definition part_ex :: "mem_partition" where
  "part_ex = \<lparr>part_start = 0x20001000, part_size = 0x1000, part_attr = 0x130B0000\<rparr>"

theorem mpu_isolates_partitions_witness:
  "\<exists>m'. arm_core_mpu_configure_dynamic_mpu_regions [part_ex] mpu_ex = Some m'
    \<and> (\<forall>write a. user_may m' write a = (case filter (part_has a) [part_ex] of
        [] \<Rightarrow> user_may (static_part mpu_ex) write a | p # _ \<Rightarrow> ap_allows write (part_ap p)))"
  using mpu_isolates_partitions[of mpu_ex "[part_ex]"]
  by (simp add: mpu_ex_def part_ex_def nonempty_def part_ok_def mpu_partition_is_valid_def)

text \<open>
  C14: The check of a user buffer is exact when no enabled region overlaps a part of it only: for a buffer of at least one
  byte that does not wrap round, \<open>mpu_buffer_validate\<close> returns, with 0 exactly when the hardware grants the access to
  every byte of the buffer.
\<close>

theorem mpu_buffer_validate_exact:
  assumes "mpu_ok m" "sz \<noteq> 0" "unat addr + unat sz \<le> 2 ^ 32" "no_partial m (unat addr) (unat addr + unat sz - 1)"
  shows "\<exists>rc. mpu_buffer_validate addr sz write m = Some rc
    \<and> (rc = 0 \<longleftrightarrow> (\<forall>a. addr \<le> a \<and> unat a < unat addr + unat sz \<longrightarrow> user_may m write a))"
proof -
  have "0 < unat sz" using assms(2) by (simp add: unat_gt_0)
  have v: "mpu_buffer_validate addr sz write m = Some (if user_may m write a then 0 else - EPERM)"
    if "addr \<le> a" "unat a < unat addr + unat sz" for a
    using mpu_buffer_validate_eq[OF assms, of a] that by simp
  show ?thesis
  proof (cases "user_may m write addr")
    case True
    then have "user_may m write a" if "addr \<le> a" "unat a < unat addr + unat sz" for a
      using v[of addr] v[OF that] \<open>0 < unat sz\<close> by (auto simp: EPERM_def split: if_splits)
    then show ?thesis using v[of addr] \<open>0 < unat sz\<close> True by auto
  next
    case False
    then show ?thesis using v[of addr] \<open>0 < unat sz\<close> by (auto simp: EPERM_def)
  qed
qed

definition mpu_full :: "mpu" where
  "mpu_full = \<lparr>mpu_rbar = 0x20000010 # 0x20000011 # replicate 6 0, mpu_rasr = 0x13000017 # 0x11000009 # replicate 6 0, static_regions_num = 2\<rparr>"

lemma mpu_full_ok: "mpu_ok mpu_full"
  by (auto simp: mpu_ok_def mpu_full_def reg_enabled_def reg_exp_def reg_base_def less_8_iff less_4_iff MPU_RASR_SIZE_Msk_def
      MPU_RBAR_ADDR_Msk_def)

theorem mpu_buffer_validate_exact_witness:
  "\<exists>rc. mpu_buffer_validate 0x20000100 64 True mpu_full = Some rc
    \<and> (rc = 0 \<longleftrightarrow> (\<forall>a. 0x20000100 \<le> a \<and> unat a < unat (0x20000100 :: word_t) + unat (64 :: word_t) \<longrightarrow> user_may mpu_full True a))"
proof -
  have "no_partial mpu_full (unat (0x20000100 :: word_t)) (unat (0x20000100 :: word_t) + unat (64 :: word_t) - 1)"
    by (auto simp: no_partial_def mpu_full_def reg_enabled_def reg_exp_def reg_base_def reg_covers_def less_8_iff less_4_iff
      MPU_RASR_SIZE_Msk_def MPU_RBAR_ADDR_Msk_def)
  from mpu_buffer_validate_exact[OF mpu_full_ok _ _ this] show ?thesis by simp
qed

text \<open>
  A region of higher number that overlaps a part of the buffer only is passed over by the check, although it decides the
  accesses to that part: here region 1 denies the first 32 bytes of a buffer of 64 bytes that the check accepts.
\<close>

lemma mpu_buffer_validate_partial:
  "mpu_buffer_validate 0x20000000 64 False mpu_full = Some 0 \<and> \<not> user_may mpu_full False 0x20000000"
proof -
  have r: "rev [0..<8] = [7, 6, 5, 4, 3, 2, 1, 0 :: nat]" by (simp add: upt_conv_Cons)
  have "mpu_buffer_validate 0x20000000 64 False mpu_full = Some 0"
    unfolding mpu_buffer_validate_def get_num_regions_def
    using mpu_validate_loop_eq[OF mpu_full_ok, of 8 64 "0x20000000" False] unfolding r
    by (simp add: mpu_full_def reg_enabled_def reg_covers_def reg_exp_def reg_base_def reg_ap_def ap_allows_def
      MPU_RASR_SIZE_Msk_def MPU_RBAR_ADDR_Msk_def MPU_RASR_AP_Msk_def)
  moreover have "\<not> user_may mpu_full False 0x20000000" unfolding user_may_def r
    by (simp add: mpu_full_def reg_matches_def reg_enabled_def reg_exp_def reg_base_def reg_ap_def ap_allows_def
      MPU_RASR_SIZE_Msk_def MPU_RBAR_ADDR_Msk_def MPU_RASR_AP_Msk_def)
  ultimately show ?thesis ..
qed

end
