(* ===== verification/Pages.thy ===== *)
theory Pages
  imports Mpu Objects
begin

text \<open>
  The pages of user threads, \<^verbatim>\<open>src/object/anode.c\<close>, with the functions of
  \<^verbatim>\<open>src/arch/arm/aarch32/cortex_m/mpu/arm_mpu_anode.c\<close> that hand them to the memory protection unit.  A page is an array of
  partitions; a partition of size zero is free.  The record \<open>space\<close> holds the pages, the parts of the threads that belong
  to memory protection, the links of the threads that use a page, the protection unit and the kernel state, whose object
  pool provides new pages.  The list node of a thread has the address of the thread, and the list header of a page that
  of the page.
\<close>

unbundle bit_operations_syntax

section \<open>State\<close>

definition CONFIG_MAX_DOMAIN_PARTITIONS :: nat where
  "CONFIG_MAX_DOMAIN_PARTITIONS = 16"

definition MAX_DYNAMIC_MPU_REGIONS_NUM :: nat where
  "MAX_DYNAMIC_MPU_REGIONS_NUM = CONFIG_MAX_DOMAIN_PARTITIONS + 1"

definition obj_frame_obj :: word_t where
  "obj_frame_obj = 3"

record thread_page =
  partitions :: "mem_partition list"
  partitions_number :: byte_t

record page_thread =
  pagetable_item :: ptr
  priv_stack_start :: word_t
  userspace_stack_point :: word_t
  stack_info_start :: word_t
  stack_info_size :: word_t

record space =
  kernel :: kstate
  pages :: "ptr \<Rightarrow> thread_page option"
  page_threads :: "ptr \<Rightarrow> page_thread option"
  page_links :: dheap
  mpu_unit :: mpu
  max_partitions :: byte_t

definition page_at :: "ptr \<Rightarrow> space \<Rightarrow> thread_page option" where
  "page_at p s = (if p = NULL then None else pages s p)"

definition page_put :: "ptr \<Rightarrow> thread_page \<Rightarrow> space \<Rightarrow> space" where
  "page_put p pg s = s\<lparr>pages := (pages s)(p \<mapsto> pg)\<rparr>"

definition page_thread_at :: "ptr \<Rightarrow> space \<Rightarrow> page_thread option" where
  "page_thread_at p s = (if p = NULL then None else page_threads s p)"

definition page_thread_put :: "ptr \<Rightarrow> page_thread \<Rightarrow> space \<Rightarrow> space" where
  "page_thread_put p t s = s\<lparr>page_threads := (page_threads s)(p \<mapsto> t)\<rparr>"

section \<open>Attributes\<close>

definition P_RW_U_RW_Msk :: word_t where
  "P_RW_U_RW_Msk = push_bit 24 P_RW_U_RW AND MPU_RASR_AP_Msk"

definition P_RW_U_RO_Msk :: word_t where
  "P_RW_U_RO_Msk = push_bit 24 P_RW_U_RO AND MPU_RASR_AP_Msk"

definition P_RW_U_NA_Msk :: word_t where
  "P_RW_U_NA_Msk = push_bit 24 P_RW_U_NA AND MPU_RASR_AP_Msk"

definition NORMAL_OUTER_INNER_WRITE_BACWRITE_READ_ALLOCATE_NON_SHAREABLE :: word_t where
  "NORMAL_OUTER_INNER_WRITE_BACWRITE_READ_ALLOCATE_NON_SHAREABLE = push_bit 19 1 OR push_bit 17 1 OR push_bit 16 1"

definition MEM_PARTITION_P_RW_U_RW :: word_t where
  "MEM_PARTITION_P_RW_U_RW = P_RW_U_RW_Msk OR MPU_RASR_XN_Msk OR NORMAL_OUTER_INNER_WRITE_BACWRITE_READ_ALLOCATE_NON_SHAREABLE"

definition MEM_PARTITION_P_RW_U_RO :: word_t where
  "MEM_PARTITION_P_RW_U_RO = P_RW_U_RO_Msk OR MPU_RASR_XN_Msk OR NORMAL_OUTER_INNER_WRITE_BACWRITE_READ_ALLOCATE_NON_SHAREABLE"

definition MEM_PARTITION_P_RW_U_NA :: word_t where
  "MEM_PARTITION_P_RW_U_NA = P_RW_U_NA_Msk OR MPU_RASR_XN_Msk OR NORMAL_OUTER_INNER_WRITE_BACWRITE_READ_ALLOCATE_NON_SHAREABLE"

definition MEM_PARTITION_P_RWX_U_RWX :: word_t where
  "MEM_PARTITION_P_RWX_U_RWX = P_RW_U_RW_Msk OR NORMAL_OUTER_INNER_WRITE_BACWRITE_READ_ALLOCATE_NON_SHAREABLE"

definition PARTITION_IS_WRITABLE :: "word_t \<Rightarrow> bool" where
  "PARTITION_IS_WRITABLE attr \<longleftrightarrow> attr AND MPU_RASR_AP_Msk \<in> {P_RW_U_RW_Msk, P_RW_U_RO_Msk, P_RW_U_NA_Msk}"

definition PARTITION_IS_EXECUTABLE :: "word_t \<Rightarrow> bool" where
  "PARTITION_IS_EXECUTABLE attr \<longleftrightarrow> attr AND MPU_RASR_XN_Msk = 0"

section \<open>Partitions of a page\<close>

definition part_last :: "mem_partition \<Rightarrow> word_t" where
  "part_last p = part_start p + part_size p - 1"

fun contrast_loop :: "mem_partition \<Rightarrow> mem_partition list \<Rightarrow> bool" where
  "contrast_loop t [] = True"
| "contrast_loop t (p # ps) =
     (if part_last t < part_start p \<or> part_last p < part_start t then contrast_loop t ps
      else if (PARTITION_IS_WRITABLE (part_attr p) \<and> PARTITION_IS_EXECUTABLE (part_attr t))
            \<or> (PARTITION_IS_EXECUTABLE (part_attr p) \<and> PARTITION_IS_WRITABLE (part_attr t)) then False
      else contrast_loop t ps)"

definition contrast_partition :: "mem_partition \<Rightarrow> mem_partition list \<Rightarrow> bool" where
  "contrast_partition part_target part_array =
     (if PARTITION_IS_EXECUTABLE (part_attr part_target) \<and> PARTITION_IS_WRITABLE (part_attr part_target) then False
      else contrast_loop part_target part_array)"

definition contrast_partition_domain :: "thread_page \<Rightarrow> mem_partition \<Rightarrow> bool option" where
  "contrast_partition_domain pg part_target = do {
     assertK (unat (partitions_number pg) \<le> length (partitions pg));
     Some (contrast_partition part_target (take (unat (partitions_number pg)) (partitions pg))) }"

fun reset_page_loop :: "mem_partition option list \<Rightarrow> nat \<Rightarrow> thread_page \<Rightarrow> thread_page option" where
  "reset_page_loop [] i pg = Some pg"
| "reset_page_loop (None # ps) i pg = None"
| "reset_page_loop (Some p # ps) i pg = do {
     assertK (part_start p + part_size p > part_start p);
     ok \<leftarrow> contrast_partition_domain pg p;
     assertK ok;
     assertK (i < length (partitions pg));
     reset_page_loop ps (i + 1) (pg\<lparr>partitions := (partitions pg)[i := p], partitions_number := partitions_number pg + 1\<rparr>) }"

definition reset_page :: "ptr \<Rightarrow> mem_partition option list \<Rightarrow> space \<Rightarrow> space option" where
  "reset_page page_item part_array s = do {
     assertK (page_item \<noteq> NULL);
     assertK (length part_array \<le> unat (max_partitions s));
     pg \<leftarrow> page_at page_item s;
     let pg = pg\<lparr>partitions_number := 0,
       partitions := replicate CONFIG_MAX_DOMAIN_PARTITIONS \<lparr>part_start = 0, part_size = 0, part_attr = 0\<rparr>\<rparr>;
     pg \<leftarrow> reset_page_loop part_array 0 pg;
     links \<leftarrow> sys_dlist_init page_item (page_links s);
     Some (page_put page_item pg (s\<lparr>page_links := links\<rparr>)) }"

text \<open>The first index below the bound whose partition satisfies the test, or the bound.\<close>

fun find_partition :: "(mem_partition \<Rightarrow> bool) \<Rightarrow> nat \<Rightarrow> nat \<Rightarrow> mem_partition list \<Rightarrow> nat option" where
  "find_partition test index 0 parts = Some index"
| "find_partition test index (Suc n) parts =
     (if index < length parts then
        if test (parts ! index) then Some index else find_partition test (index + 1) n parts
      else None)"

definition add_to_page :: "ptr \<Rightarrow> mem_partition \<Rightarrow> space \<Rightarrow> space option" where
  "add_to_page page_item part s = do {
     assertK (page_item \<noteq> NULL);
     assertK (part_start part + part_size part > part_start part);
     pg \<leftarrow> page_at page_item s;
     ok \<leftarrow> contrast_partition_domain pg part;
     assertK ok;
     index \<leftarrow> find_partition (\<lambda>p. part_size p = 0) 0 (unat (max_partitions s)) (partitions pg);
     assertK (index < unat (max_partitions s));
     Some (page_put page_item (pg\<lparr>partitions := (partitions pg)[index := part], partitions_number := partitions_number pg + 1\<rparr>) s) }"

definition arm_core_page_partition_remove :: "ptr \<Rightarrow> nat \<Rightarrow> space \<Rightarrow> space option" where
  "arm_core_page_partition_remove page_f partition_id s = do {
     t \<leftarrow> page_thread_at (current_thread (kernel s)) s;
     if pagetable_item t \<noteq> page_f then Some s
     else do {
       pg \<leftarrow> page_at page_f s;
       assertK (partition_id < length (partitions pg));
       (p, m) \<leftarrow> arm_core_mpu_mem_partition_config_update (partitions pg ! partition_id) MEM_PARTITION_P_RW_U_NA (mpu_unit s);
       Some (page_put page_f (pg\<lparr>partitions := (partitions pg)[partition_id := p]\<rparr>) (s\<lparr>mpu_unit := m\<rparr>)) } }"

definition remove_from_page :: "ptr \<Rightarrow> mem_partition \<Rightarrow> space \<Rightarrow> space option" where
  "remove_from_page page_item part s = do {
     assertK (page_item \<noteq> NULL);
     pg \<leftarrow> page_at page_item s;
     index \<leftarrow> find_partition (\<lambda>p. part_start p = part_start part \<and> part_size p = part_size part) 0 (unat (max_partitions s)) (partitions pg);
     assertK (index < unat (max_partitions s));
     s \<leftarrow> arm_core_page_partition_remove page_item index s;
     pg \<leftarrow> page_at page_item s;
     Some (page_put page_item (pg\<lparr>partitions := (partitions pg)[index := (partitions pg ! index)\<lparr>part_size := 0\<rparr>],
       partitions_number := partitions_number pg - 1\<rparr>) s) }"

section \<open>Configuration of the protection unit\<close>

fun collect_regions :: "mem_partition list \<Rightarrow> word_t \<Rightarrow> mem_partition list" where
  "collect_regions [] n = []"
| "collect_regions (p # ps) n =
     (if part_size p = 0 then collect_regions ps n
      else p # (if n - 1 = 0 then [] else collect_regions ps (n - 1)))"

definition arm_configure_dynamic_mpu_regions :: "ptr \<Rightarrow> space \<Rightarrow> space option" where
  "arm_configure_dynamic_mpu_regions thread s = do {
     t \<leftarrow> page_thread_at thread s;
     regions \<leftarrow> (if pagetable_item t \<noteq> NULL then do {
         pg \<leftarrow> page_at (pagetable_item t) s;
         Some (collect_regions (partitions pg) (ucast (partitions_number pg))) }
       else Some []);
     assertK (length regions \<le> MAX_DYNAMIC_MPU_REGIONS_NUM);
     regions \<leftarrow> (if priv_stack_start t \<noteq> 0 then do {
         assertK (length regions < MAX_DYNAMIC_MPU_REGIONS_NUM);
         let base = userspace_stack_point t;
         Some (regions @ [\<lparr>part_start = base, part_size = stack_info_size t + (stack_info_start t - base),
           part_attr = MEM_PARTITION_P_RW_U_RW\<rparr>]) }
       else Some regions);
     m \<leftarrow> arm_core_mpu_configure_dynamic_mpu_regions regions (mpu_unit s);
     Some (s\<lparr>mpu_unit := m\<rparr>) }"

definition arm_core_page_max_partitions_get :: "space \<Rightarrow> int" where
  "arm_core_page_max_partitions_get s = arm_core_mpu_get_max_available_dyn_regions (mpu_unit s) - 1"

definition init_page_module :: "space \<Rightarrow> space option" where
  "init_page_module s = do {
     let s = s\<lparr>max_partitions := word_of_int (arm_core_page_max_partitions_get s)\<rparr>;
     assertK (unat (max_partitions s) \<le> CONFIG_MAX_DOMAIN_PARTITIONS);
     Some s }"

fun page_destroy_loop :: "mem_partition list \<Rightarrow> mpu \<Rightarrow> mpu option" where
  "page_destroy_loop [] m = Some m"
| "page_destroy_loop (p # ps) m =
     (if part_size p = 0 then page_destroy_loop ps m
      else do {
        (_, m) \<leftarrow> arm_core_mpu_mem_partition_config_update p MEM_PARTITION_P_RW_U_NA m;
        page_destroy_loop ps m })"

definition arm_core_page_destroy :: "ptr \<Rightarrow> space \<Rightarrow> space option" where
  "arm_core_page_destroy page_f s = do {
     t \<leftarrow> page_thread_at (current_thread (kernel s)) s;
     if pagetable_item t \<noteq> page_f then Some s
     else do {
       pg \<leftarrow> page_at page_f s;
       m \<leftarrow> page_destroy_loop (partitions pg) (mpu_unit s);
       Some (s\<lparr>mpu_unit := m\<rparr>) } }"

definition arm_core_page_table_add :: "ptr \<Rightarrow> space \<Rightarrow> space option" where
  "arm_core_page_table_add thread s =
     (if current_thread (kernel s) \<noteq> thread then Some s else arm_configure_dynamic_mpu_regions thread s)"

definition arm_core_page_table_remove :: "ptr \<Rightarrow> space \<Rightarrow> space option" where
  "arm_core_page_table_remove thread s =
     (if current_thread (kernel s) \<noteq> thread then Some s
      else do {
        t \<leftarrow> page_thread_at thread s;
        arm_core_page_destroy (pagetable_item t) s })"

section \<open>Threads of a page\<close>

definition add_to_page_table :: "ptr \<Rightarrow> ptr \<Rightarrow> space \<Rightarrow> space option" where
  "add_to_page_table page_item thread s = do {
     assertK (page_item \<noteq> NULL);
     assertK (thread \<noteq> NULL);
     links \<leftarrow> sys_dlist_append page_item thread (page_links s);
     let s = s\<lparr>page_links := links\<rparr>;
     t \<leftarrow> page_thread_at thread s;
     let s = page_thread_put thread (t\<lparr>pagetable_item := page_item\<rparr>) s;
     arm_core_page_table_add thread s }"

definition remove_from_page_table :: "ptr \<Rightarrow> space \<Rightarrow> space option" where
  "remove_from_page_table thread s = do {
     t \<leftarrow> page_thread_at thread s;
     assertK (pagetable_item t \<noteq> NULL);
     s \<leftarrow> arm_core_page_table_remove thread s;
     links \<leftarrow> sys_dlist_remove thread (page_links s);
     Some (page_thread_put thread (t\<lparr>pagetable_item := NULL\<rparr>) (s\<lparr>page_links := links\<rparr>)) }"

partial_function (option) page_unlink_loop :: "ptr \<Rightarrow> ptr \<Rightarrow> ptr \<Rightarrow> space \<Rightarrow> space option" where
  "page_unlink_loop page_item thread next_thread s =
     (if thread \<noteq> NULL then do {
        links \<leftarrow> sys_dlist_remove thread (page_links s);
        t \<leftarrow> page_thread_at thread s;
        let s = page_thread_put thread (t\<lparr>pagetable_item := NULL\<rparr>) (s\<lparr>page_links := links\<rparr>);
        n \<leftarrow> sys_dlist_peek_next page_item next_thread (page_links s);
        page_unlink_loop page_item next_thread n s }
      else Some s)"

declare page_unlink_loop.simps [code]

definition remove_from_page_table_of :: "ptr \<Rightarrow> space \<Rightarrow> space option" where
  "remove_from_page_table_of page_item s = do {
     assertK (page_item \<noteq> NULL);
     s \<leftarrow> arm_core_page_destroy page_item s;
     n \<leftarrow> sys_dlist_peek_head page_item (page_links s);
     nn \<leftarrow> sys_dlist_peek_next page_item n (page_links s);
     page_unlink_loop page_item n nn s }"

section \<open>Mapping\<close>

definition right_attr :: "word_t \<Rightarrow> word_t option" where
  "right_attr right =
     (if right = 0x0 then Some MEM_PARTITION_P_RW_U_NA
      else if right = 0x4 then Some MEM_PARTITION_P_RW_U_RO
      else if right = 0x6 then Some MEM_PARTITION_P_RW_U_RW
      else if right = 0x7 then Some MEM_PARTITION_P_RWX_U_RWX
      else None)"

text \<open>The page of a thread, or a new empty one.\<close>

definition thread_page_get :: "ptr \<Rightarrow> space \<Rightarrow> (ptr \<times> space) option" where
  "thread_page_get thread s = do {
     t \<leftarrow> page_thread_at thread s;
     if pagetable_item t \<noteq> NULL then Some (pagetable_item t, s)
     else do {
       let (page, k) = d_object_alloc obj_frame_obj (kernel s);
       assertK (page \<noteq> NULL);
       let s = s\<lparr>kernel := k, pages := (pages s)(page \<mapsto> \<lparr>partitions = replicate CONFIG_MAX_DOMAIN_PARTITIONS
           \<lparr>part_start = 0, part_size = 0, part_attr = 0\<rparr>, partitions_number = 0\<rparr>),
         page_links := (page_links s)(page \<mapsto> \<lparr>dn_next = NULL, dn_prev = NULL\<rparr>)\<rparr>;
       s \<leftarrow> reset_page page [] s;
       Some (page, s) } }"

definition do_map_page :: "ptr \<Rightarrow> word_t \<Rightarrow> word_t \<Rightarrow> word_t \<Rightarrow> space \<Rightarrow> space option" where
  "do_map_page thread addr len right s = do {
     attr \<leftarrow> right_attr right;
     (page, s) \<leftarrow> thread_page_get thread s;
     s \<leftarrow> add_to_page page \<lparr>part_start = addr, part_size = len, part_attr = attr\<rparr> s;
     add_to_page_table page thread s }"

definition do_guard_page :: "ptr \<Rightarrow> ptr \<Rightarrow> word_t \<Rightarrow> word_t \<Rightarrow> word_t \<Rightarrow> space \<Rightarrow> space option" where
  "do_guard_page s_thread d_thread addr len right s = do {
     attr \<leftarrow> right_attr right;
     let part = \<lparr>part_start = addr, part_size = len, part_attr = attr\<rparr>;
     st \<leftarrow> page_thread_at s_thread s;
     s \<leftarrow> (if pagetable_item st \<noteq> NULL then remove_from_page (pagetable_item st) part s else Some s);
     (page, s) \<leftarrow> thread_page_get d_thread s;
     s \<leftarrow> add_to_page page part s;
     add_to_page_table page d_thread s }"

definition do_map_string :: "ptr \<Rightarrow> word_t \<Rightarrow> word_t \<Rightarrow> space \<Rightarrow> space option" where
  "do_map_string thread len addr s = do {
     (page, s) \<leftarrow> thread_page_get thread s;
     s \<leftarrow> add_to_page page \<lparr>part_start = addr, part_size = len, part_attr = 0\<rparr> s;
     add_to_page_table page thread s }"

text \<open>Freeing the page object drops its memory when the object is registered.\<close>

definition do_unmap_page :: "ptr \<Rightarrow> space \<Rightarrow> space option" where
  "do_unmap_page thread s = do {
     t \<leftarrow> page_thread_at thread s;
     k \<leftarrow> d_object_free (pagetable_item t) (kernel s);
     let s = (case d_object_find (pagetable_item t) (kernel s) of None \<Rightarrow> s
       | Some _ \<Rightarrow> s\<lparr>kernel := k, pages := (pages s)(pagetable_item t := None), page_links := (page_links s)(pagetable_item t := None)\<rparr>);
     remove_from_page_table thread s }"

section \<open>Write xor execute\<close>

definition part_bounded :: "mem_partition \<Rightarrow> bool" where
  "part_bounded p \<longleftrightarrow> part_start p + part_size p > part_start p"

text \<open>No address is writable through one partition and executable through the same or another one.\<close>

definition no_wx :: "mem_partition list \<Rightarrow> bool" where
  "no_wx ps \<longleftrightarrow> (\<forall>a. \<forall>p\<in>set ps. \<forall>q\<in>set ps. part_has a p \<and> part_has a q \<longrightarrow>
     \<not> (PARTITION_IS_WRITABLE (part_attr p) \<and> PARTITION_IS_EXECUTABLE (part_attr q)))"

lemma part_bounded_unat:
  assumes "part_bounded p"
  shows "unat (part_size p) > 0" "unat (part_start p) + unat (part_size p) < 2 ^ 32"
    "unat (part_last p) = unat (part_start p) + unat (part_size p) - 1"
proof -
  have sum: "unat (part_start p + part_size p) = (unat (part_start p) + unat (part_size p)) mod 2 ^ 32"
    by (simp add: unat_word_ariths)
  have lt: "unat (part_start p) < unat (part_start p + part_size p)" using assms by (simp add: part_bounded_def word_less_nat_alt)
  have b: "unat (part_start p) < 2 ^ 32" "unat (part_size p) < 2 ^ 32" using unsigned_less[of "part_start p"] unsigned_less[of "part_size p"] by simp_all
  show less: "unat (part_start p) + unat (part_size p) < 2 ^ 32"
  proof (rule ccontr)
    assume "\<not> ?thesis"
    then have "(unat (part_start p) + unat (part_size p)) mod 2 ^ 32 = unat (part_start p) + unat (part_size p) - 2 ^ 32"
      using b by (simp add: le_mod_geq)
    then show False using sum lt b by simp
  qed
  then have e: "unat (part_start p + part_size p) = unat (part_start p) + unat (part_size p)" using sum by simp
  then show "unat (part_size p) > 0" using lt by simp
  have "part_start p + part_size p \<noteq> 0" using lt by (auto simp: unat_0)
  then show "unat (part_last p) = unat (part_start p) + unat (part_size p) - 1"
    using e by (simp add: part_last_def unat_minus_one)
qed

lemma part_overlap_iff:
  assumes "part_bounded p" "part_bounded q"
  shows "\<not> (part_last p < part_start q \<or> part_last q < part_start p) \<longleftrightarrow> (\<exists>a. part_has a p \<and> part_has a q)" (is "?l = ?r")
proof
  assume l: ?l
  define a where "a = max (part_start p) (part_start q)"
  have "part_has a p \<and> part_has a q"
    using l part_bounded_unat[OF assms(1)] part_bounded_unat[OF assms(2)]
    by (auto simp: a_def part_has_def word_less_nat_alt word_le_nat_alt max_def)
  then show ?r by blast
next
  assume ?r
  then show ?l using part_bounded_unat[OF assms(1)] part_bounded_unat[OF assms(2)]
    by (auto simp: part_has_def word_less_nat_alt)
qed

lemma contrast_loop_iff:
  assumes "part_bounded t" "list_all part_bounded ps"
  shows "contrast_loop t ps \<longleftrightarrow> (\<forall>a. \<forall>p\<in>set ps. part_has a t \<and> part_has a p \<longrightarrow>
    \<not> (PARTITION_IS_WRITABLE (part_attr p) \<and> PARTITION_IS_EXECUTABLE (part_attr t))
    \<and> \<not> (PARTITION_IS_EXECUTABLE (part_attr p) \<and> PARTITION_IS_WRITABLE (part_attr t)))"
  using assms(2)
proof (induction ps)
  case (Cons p ps)
  then have "part_bounded p" by simp
  from part_overlap_iff[OF assms(1) this] Cons show ?case by (auto split: if_splits)
qed simp

lemma contrast_partition_iff:
  assumes "part_bounded t" "list_all part_bounded ps" "no_wx ps"
  shows "contrast_partition t ps \<longleftrightarrow> no_wx (ps @ [t])"
proof -
  have "part_has (part_start t) t" using part_bounded_unat(1)[OF assms(1)] by (simp add: part_has_def)
  then show ?thesis unfolding contrast_partition_def contrast_loop_iff[OF assms(1,2)]
    using assms(3) unfolding no_wx_def by (auto split: if_splits)
qed

text \<open>The page at \<open>p\<close> holds exactly the partitions \<open>ps\<close>, in its first slots.\<close>

definition page_of :: "mem_partition list \<Rightarrow> thread_page \<Rightarrow> bool" where
  "page_of ps pg \<longleftrightarrow> length (partitions pg) = CONFIG_MAX_DOMAIN_PARTITIONS \<and> length ps \<le> CONFIG_MAX_DOMAIN_PARTITIONS
     \<and> take (length ps) (partitions pg) = ps \<and> list_all (\<lambda>p. part_size p = 0) (drop (length ps) (partitions pg))
     \<and> partitions_number pg = word_of_nat (length ps) \<and> list_all part_bounded ps \<and> no_wx ps"

definition page_holds :: "space \<Rightarrow> ptr \<Rightarrow> mem_partition list \<Rightarrow> bool" where
  "page_holds s p ps \<longleftrightarrow> (\<exists>pg. page_at p s = Some pg \<and> page_of ps pg)"

lemma page_at_put [simp]:
  "page_at p (page_put q pg s) = (if p = q \<and> p \<noteq> NULL then Some pg else page_at p s)"
  by (simp add: page_at_def page_put_def)

lemma page_of_number:
  assumes "page_of ps pg"
  shows "unat (partitions_number pg) = length ps"
  using assms by (simp add: page_of_def unat_of_nat CONFIG_MAX_DOMAIN_PARTITIONS_def)

lemma page_of_slot:
  assumes "page_of ps pg"
  shows "i < length ps \<Longrightarrow> partitions pg ! i = ps ! i" "i < length ps \<Longrightarrow> part_size (partitions pg ! i) \<noteq> 0"
    "length ps \<le> i \<Longrightarrow> i < 16 \<Longrightarrow> part_size (partitions pg ! i) = 0"
proof -
  show e: "i < length ps \<Longrightarrow> partitions pg ! i = ps ! i" for i using assms by (metis page_of_def nth_take)
  show "part_size (partitions pg ! i) \<noteq> 0" if "i < length ps"
    using e[OF that] part_bounded_unat(1)[of "ps ! i"] assms that by (auto simp: page_of_def list_all_length)
  show "part_size (partitions pg ! i) = 0" if "length ps \<le> i" "i < 16"
  proof -
    have "i - length ps < length (drop (length ps) (partitions pg))" using assms that by (simp add: page_of_def CONFIG_MAX_DOMAIN_PARTITIONS_def)
    then have "part_size (drop (length ps) (partitions pg) ! (i - length ps)) = 0" using assms unfolding page_of_def list_all_length by blast
    then show ?thesis using that assms by (simp add: page_of_def CONFIG_MAX_DOMAIN_PARTITIONS_def)
  qed
qed

lemma find_partition_first:
  assumes "\<forall>i. k \<le> i \<and> i < j \<longrightarrow> \<not> test (parts ! i)" "k + n \<le> length parts" "k \<le> j" "j < k + n \<Longrightarrow> test (parts ! j)"
  shows "find_partition test k n parts = Some (min j (k + n))"
  using assms
proof (induction n arbitrary: k)
  case (Suc n)
  show ?case
  proof (cases "k = j")
    case False
    then have "find_partition test (k + 1) n parts = Some (min j (k + 1 + n))" using Suc by simp
    then show ?thesis using Suc.prems False by simp
  qed (use Suc.prems in simp)
qed simp

lemma page_of_add:
  assumes "page_of ps pg" "part_bounded part" "no_wx (ps @ [part])" "length ps < 16"
  shows "page_of (ps @ [part]) (pg\<lparr>partitions := (partitions pg)[length ps := part], partitions_number := partitions_number pg + 1\<rparr>)"
proof -
  have "part_size ((drop (Suc (length ps)) (partitions pg)) ! n) = 0" if "n < 15 - length ps" for n
    using page_of_slot(3)[OF assms(1), of "Suc (length ps + n)"] that assms(1) by (simp add: page_of_def CONFIG_MAX_DOMAIN_PARTITIONS_def)
  then show ?thesis
    using assms by (auto simp: page_of_def CONFIG_MAX_DOMAIN_PARTITIONS_def take_Suc_conv_app_nth list_all_length nth_append less_Suc_eq)
qed

lemma add_to_page_eq:
  assumes "page_at p s = Some pg" "page_of ps pg" "unat (max_partitions s) \<le> 16"
  shows "add_to_page p part s =
    (if part_bounded part \<and> no_wx (ps @ [part]) \<and> length ps < unat (max_partitions s)
     then Some (page_put p (pg\<lparr>partitions := (partitions pg)[length ps := part], partitions_number := partitions_number pg + 1\<rparr>) s)
     else None)"
proof -
  have p: "p \<noteq> NULL" using assms(1) by (auto simp: page_at_def)
  have l: "length ps \<le> 16" "length (partitions pg) = 16" "take (length ps) (partitions pg) = ps" "list_all part_bounded ps" "no_wx ps"
    using assms(2) by (simp_all add: page_of_def CONFIG_MAX_DOMAIN_PARTITIONS_def)
  have f: "find_partition (\<lambda>p. part_size p = 0) 0 (unat (max_partitions s)) (partitions pg) = Some (min (length ps) (unat (max_partitions s)))"
    using find_partition_first[of 0 "length ps" "\<lambda>p. part_size p = 0" "partitions pg" "unat (max_partitions s)"]
      page_of_slot[OF assms(2)] assms(3) l by simp
  have c: "contrast_partition_domain pg part = Some (contrast_partition part ps)"
    using l page_of_number[OF assms(2)] by (simp add: contrast_partition_domain_def)
  show ?thesis
    using p f c assms(1) contrast_partition_iff[OF _ l(4,5)] by (auto simp: add_to_page_def part_bounded_def min_def)
qed

section \<open>Programming a page\<close>

lemma page_thread_at_put [simp]:
  "page_thread_at p (page_thread_put q t s) = (if p = q \<and> p \<noteq> NULL then Some t else page_thread_at p s)"
  by (simp add: page_thread_at_def page_thread_put_def)

lemma put_fields [simp]:
  "page_thread_at q (page_put p pg s) = page_thread_at q s" "mpu_unit (page_put p pg s) = mpu_unit s"
  "kernel (page_put p pg s) = kernel s" "max_partitions (page_put p pg s) = max_partitions s" "page_links (page_put p pg s) = page_links s"
  "page_at q (page_thread_put p t s) = page_at q s" "mpu_unit (page_thread_put p t s) = mpu_unit s"
  "kernel (page_thread_put p t s) = kernel s" "max_partitions (page_thread_put p t s) = max_partitions s"
  "page_links (page_thread_put p t s) = page_links s"
  by (simp_all add: page_put_def page_thread_put_def page_at_def page_thread_at_def)

lemma upd_fields [simp]:
  "page_at p (s\<lparr>page_links := h\<rparr>) = page_at p s" "page_thread_at p (s\<lparr>page_links := h\<rparr>) = page_thread_at p s"
  "page_at p (s\<lparr>mpu_unit := m\<rparr>) = page_at p s" "page_thread_at p (s\<lparr>mpu_unit := m\<rparr>) = page_thread_at p s"
  by (simp_all add: page_at_def page_thread_at_def)

lemma collect_free: "list_all (\<lambda>p. part_size p = 0) zs \<Longrightarrow> collect_regions zs n = []"
  by (induction zs) simp_all

lemma collect_regions_all:
  assumes "list_all (\<lambda>p. part_size p \<noteq> 0) ps" "list_all (\<lambda>p. part_size p = 0) zs" "length ps < 2 ^ 32"
  shows "collect_regions (ps @ zs) (word_of_nat (length ps)) = ps"
  using assms(1,3)
proof (induction ps)
  case Nil
  then show ?case using collect_free[OF assms(2)] by simp
next
  case (Cons p ps)
  have "(word_of_nat (length ps) :: word_t) = 0 \<longleftrightarrow> ps = []"
    using Cons.prems by (auto simp: word_of_nat_eq_0_iff dest!: dvd_imp_le)
  then show ?case using Cons by auto
qed

lemma page_of_regions:
  assumes "page_of ps pg"
  shows "collect_regions (partitions pg) (ucast (partitions_number pg)) = ps"
proof -
  have "list_all (\<lambda>p. part_size p \<noteq> 0) ps"
    using assms part_bounded_unat(1) by (fastforce simp: page_of_def list_all_iff)
  moreover have "ps @ drop (length ps) (partitions pg) = partitions pg" "list_all (\<lambda>p. part_size p = 0) (drop (length ps) (partitions pg))"
    using assms append_take_drop_id[of "length ps" "partitions pg"] by (simp_all add: page_of_def)
  moreover have "(ucast (partitions_number pg) :: word_t) = word_of_nat (length ps)"
    using page_of_number[OF assms] by (metis of_nat_unat)
  ultimately show ?thesis
    using collect_regions_all[of ps "drop (length ps) (partitions pg)"] assms by (simp add: page_of_def CONFIG_MAX_DOMAIN_PARTITIONS_def)
qed

text \<open>The partition that holds the user stack of a thread, when the thread has one.\<close>

definition stack_parts :: "page_thread \<Rightarrow> mem_partition list" where
  "stack_parts t = (if priv_stack_start t = 0 then []
     else [\<lparr>part_start = userspace_stack_point t,
       part_size = stack_info_size t + (stack_info_start t - userspace_stack_point t), part_attr = MEM_PARTITION_P_RW_U_RW\<rparr>])"

text \<open>What the unit grants when it holds the partitions \<open>ps\<close> above the static regions.\<close>

definition grants :: "mpu \<Rightarrow> mem_partition list \<Rightarrow> bool \<Rightarrow> word_t \<Rightarrow> bool" where
  "grants m ps write a = (case filter (part_has a) (rev ps) of [] \<Rightarrow> user_may (static_part m) write a | p # _ \<Rightarrow> ap_allows write (part_ap p))"

definition unit_fits :: "mpu \<Rightarrow> nat \<Rightarrow> bool" where
  "unit_fits m n \<longleftrightarrow> length (mpu_rbar m) = 8 \<and> length (mpu_rasr m) = 8 \<and> unat (static_regions_num m) + n \<le> 8"

lemma part_ok_nonempty: "part_ok p \<Longrightarrow> nonempty p"
  by (auto simp: part_ok_def mpu_partition_is_valid_def nonempty_def)

lemma configure_grants:
  assumes "unit_fits m (length ps)" "list_all part_ok ps"
  shows "\<exists>m'. arm_core_mpu_configure_dynamic_mpu_regions ps m = Some m' \<and> (\<forall>write a. user_may m' write a = grants m ps write a)"
proof -
  have f: "filter nonempty ps = ps" using assms(2) by (auto simp: list_all_iff part_ok_nonempty)
  have u: "length (mpu_rbar m) = 8" "length (mpu_rasr m) = 8" "unat (static_regions_num m) + length ps \<le> 8"
    using assms(1) by (simp_all add: unit_fits_def)
  show ?thesis
    using mpu_configure_dynamic_eq[OF u(1,2) refl f[symmetric] u(3)] user_may_programmed[OF u(1,2) refl u(3) assms(2) refl]
    by (simp add: arm_core_mpu_configure_dynamic_mpu_regions_def grants_def)
qed

lemma configure_page:
  assumes "page_thread_at thread s = Some t" "pagetable_item t = p" "page_holds s p ps"
    and "unit_fits (mpu_unit s) (length (ps @ stack_parts t))" "list_all part_ok (ps @ stack_parts t)"
  shows "\<exists>m'. arm_configure_dynamic_mpu_regions thread s = Some (s\<lparr>mpu_unit := m'\<rparr>)
    \<and> (\<forall>write a. user_may m' write a = grants (mpu_unit s) (ps @ stack_parts t) write a)"
proof -
  obtain pg where pg: "page_at p s = Some pg" "page_of ps pg" using assms(3) by (auto simp: page_holds_def)
  have "p \<noteq> NULL" using pg(1) by (auto simp: page_at_def)
  moreover have "length ps \<le> 8" using assms(4) by (simp add: unit_fits_def)
  moreover obtain m' where "arm_core_mpu_configure_dynamic_mpu_regions (ps @ stack_parts t) (mpu_unit s) = Some m'"
    "\<forall>write a. user_may m' write a = grants (mpu_unit s) (ps @ stack_parts t) write a"
    using configure_grants[OF assms(4,5)] by auto
  ultimately show ?thesis
    using assms(1,2) pg(1) page_of_regions[OF pg(2)]
    by (auto simp: arm_configure_dynamic_mpu_regions_def MAX_DYNAMIC_MPU_REGIONS_NUM_def CONFIG_MAX_DOMAIN_PARTITIONS_def
        stack_parts_def Let_def split: if_splits)
qed

section \<open>A new page\<close>

lemma page_of_empty: "page_of [] \<lparr>partitions = replicate CONFIG_MAX_DOMAIN_PARTITIONS z, partitions_number = 0\<rparr> \<longleftrightarrow> part_size z = 0"
  by (auto simp: page_of_def no_wx_def list_all_iff CONFIG_MAX_DOMAIN_PARTITIONS_def)

lemma d_object_alloc_current [simp]: "current_thread (snd (d_object_alloc obj_frame_obj k)) = current_thread k"
  by (simp add: d_object_alloc_def zero_object_def obj_frame_obj_def obj_defs Let_def split: list.splits)

lemma thread_page_get_new:
  assumes "page_thread_at thread s = Some t" "pagetable_item t = NULL" "free_objects (kernel s) = p # free" "p \<noteq> NULL"
  shows "\<exists>s'. thread_page_get thread s = Some (p, s') \<and> page_holds s' p [] \<and> dlist (page_links s') p []
    \<and> (\<forall>q. q \<noteq> p \<longrightarrow> page_links s' q = page_links s q) \<and> page_threads s' = page_threads s \<and> mpu_unit s' = mpu_unit s
    \<and> max_partitions s' = max_partitions s \<and> current_thread (kernel s') = current_thread (kernel s)"
proof -
  obtain k where k: "d_object_alloc obj_frame_obj (kernel s) = (p, k)"
    using assms(3) by (simp add: d_object_alloc_def Let_def)
  then have "current_thread k = current_thread (kernel s)" using d_object_alloc_current[of "kernel s"] by simp
  then show ?thesis
    using assms(1,2,4) k page_of_empty
    by (auto simp: thread_page_get_def reset_page_def sys_dlist_init_def dnode_upd_def dnode_at_def page_at_def page_put_def
        page_holds_def dlist_def Let_def)
qed

lemmas attr_defs = MEM_PARTITION_P_RW_U_RW_def MEM_PARTITION_P_RW_U_RO_def MEM_PARTITION_P_RW_U_NA_def MEM_PARTITION_P_RWX_U_RWX_def
  P_RW_U_RW_Msk_def P_RW_U_RO_Msk_def P_RW_U_NA_Msk_def NORMAL_OUTER_INNER_WRITE_BACWRITE_READ_ALLOCATE_NON_SHAREABLE_def
  MPU_RASR_AP_Msk_def MPU_RASR_XN_Msk_def P_RW_U_RW_def P_RW_U_RO_def P_RW_U_NA_def

lemma attr_values:
  "MEM_PARTITION_P_RW_U_NA = 0x110B0000" "MEM_PARTITION_P_RW_U_RO = 0x120B0000" "MEM_PARTITION_P_RW_U_RW = 0x130B0000"
  "MEM_PARTITION_P_RWX_U_RWX = 0x030B0000"
  by (simp_all add: attr_defs)

lemma right_attr_fields:
  assumes "right \<in> {0, 4, 6}" "right_attr right = Some attr" "p = \<lparr>part_start = addr, part_size = len, part_attr = attr\<rparr>"
  shows "\<not> PARTITION_IS_EXECUTABLE attr" "take_bit 6 attr = 0" "ap_allows write (part_ap p) \<longleftrightarrow> (if write then right = 6 else right \<noteq> 0)"
  using assms by (auto simp: right_attr_def attr_values PARTITION_IS_EXECUTABLE_def MPU_RASR_XN_Msk_def part_ap_def
      MPU_RASR_AP_Msk_def ap_allows_def)

section \<open>Unlinking the threads of a page\<close>

lemma page_unlink_loop_all:
  assumes "dlist (page_links s) p xs" "\<forall>x\<in>set xs. page_thread_at x s \<noteq> None"
  shows "\<exists>s'. page_unlink_loop p (if xs = [] then NULL else hd xs) (if tl xs = [] then NULL else hd (tl xs)) s = Some s'
    \<and> dlist (page_links s') p [] \<and> mpu_unit s' = mpu_unit s \<and> pages s' = pages s
    \<and> (\<forall>x. page_thread_at x s' = (if x \<in> set xs then map_option (pagetable_item_update (\<lambda>_. NULL)) (page_thread_at x s) else page_thread_at x s))"
  using assms
proof (induction xs arbitrary: s)
  case Nil
  then show ?case by (simp add: page_unlink_loop.simps)
next
  case (Cons x xs)
  obtain h where h: "sys_dlist_remove x (page_links s) = Some h" "dlist h p xs"
    using dlist_remove[of "page_links s" p "[]" x xs] Cons.prems(1) by auto
  obtain t where t: "page_thread_at x s = Some t" using Cons.prems(2) by auto
  have x: "x \<noteq> NULL" "x \<notin> set xs" using Cons.prems(1) by (auto simp: dlist_def)
  define s1 where "s1 = page_thread_put x (t\<lparr>pagetable_item := NULL\<rparr>) (s\<lparr>page_links := h\<rparr>)"
  have s1: "page_links s1 = h" "mpu_unit s1 = mpu_unit s" "pages s1 = pages s"
    "page_thread_at y s1 = (if y = x then Some (t\<lparr>pagetable_item := NULL\<rparr>) else page_thread_at y s)" for y
    using x(1) by (simp_all add: s1_def) (simp add: page_thread_put_def)
  have next_node: "sys_dlist_peek_next p (if xs = [] then NULL else hd xs) h = Some (if tl xs = [] then NULL else hd (tl xs))"
    using h(2) dlist_peek_next[of h p "[]" "hd xs" "tl xs"] by (cases xs) (simp_all add: sys_dlist_peek_next_def)
  have "page_unlink_loop p x (if xs = [] then NULL else hd xs) s =
      page_unlink_loop p (if xs = [] then NULL else hd xs) (if tl xs = [] then NULL else hd (tl xs)) s1"
    by (subst page_unlink_loop.simps) (use x(1) h(1) t next_node s1(1) in \<open>simp add: Let_def flip: s1_def\<close>)
  moreover have d: "dlist (page_links s1) p xs" "\<forall>y\<in>set xs. page_thread_at y s1 \<noteq> None"
    using h(2) s1(1,4) Cons.prems(2) by auto
  moreover obtain s' where "page_unlink_loop p (if xs = [] then NULL else hd xs) (if tl xs = [] then NULL else hd (tl xs)) s1 = Some s'"
    "dlist (page_links s') p []" "mpu_unit s' = mpu_unit s1" "pages s' = pages s1"
    "\<forall>y. page_thread_at y s' = (if y \<in> set xs then map_option (pagetable_item_update (\<lambda>_. NULL)) (page_thread_at y s1) else page_thread_at y s1)"
    using Cons.IH[OF d] by blast
  ultimately show ?case using s1 t x(2) by auto
qed

lemma arm_core_page_destroy_frame:
  assumes "arm_core_page_destroy p s = Some s1"
  shows "page_links s1 = page_links s \<and> pages s1 = pages s \<and> page_threads s1 = page_threads s"
  using assms by (auto simp: arm_core_page_destroy_def bind_eq_Some_conv split: if_splits)

lemma add_to_page_table_grants:
  assumes "current_thread (kernel s) = thread" "page_thread_at thread s = Some t" "page_holds s p ps"
    and "dlist (page_links s) p xs" "thread \<notin> set (p # xs)" "page_links s thread \<noteq> None"
    and "unit_fits (mpu_unit s) (length (ps @ stack_parts t))" "list_all part_ok (ps @ stack_parts t)"
  shows "\<exists>s'. add_to_page_table p thread s = Some s' \<and> page_holds s' p ps \<and> dlist (page_links s') p (xs @ [thread])
    \<and> (\<forall>write a. user_may (mpu_unit s') write a = grants (mpu_unit s) (ps @ stack_parts t) write a)"
proof -
  have n: "thread \<noteq> NULL" "p \<noteq> NULL" using assms(2,4) by (auto simp: page_thread_at_def dlist_def)
  obtain h where h: "sys_dlist_append p thread (page_links s) = Some h" "dlist h p (xs @ [thread])"
    using dlist_append[OF assms(4) _ n(1) assms(5)] assms(6) by auto
  define s3 where "s3 = page_thread_put thread (t\<lparr>pagetable_item := p\<rparr>) (s\<lparr>page_links := h\<rparr>)"
  have t3: "page_thread_at thread s3 = Some (t\<lparr>pagetable_item := p\<rparr>)" "page_holds s3 p ps" "mpu_unit s3 = mpu_unit s"
    "current_thread (kernel s3) = thread" "stack_parts (t\<lparr>pagetable_item := p\<rparr>) = stack_parts t" "page_links s3 = h"
    using n assms(1,3) by (simp_all add: s3_def page_holds_def stack_parts_def)
  obtain m' where m': "arm_configure_dynamic_mpu_regions thread s3 = Some (s3\<lparr>mpu_unit := m'\<rparr>)"
    "\<forall>write a. user_may m' write a = grants (mpu_unit s) (ps @ stack_parts t) write a"
    using configure_page[OF t3(1) _ t3(2)] t3(3,5) assms(7,8) by auto
  have "add_to_page_table p thread s = Some (s3\<lparr>mpu_unit := m'\<rparr>)"
    using h(1) assms(1,2) m'(1) n by (simp add: add_to_page_table_def arm_core_page_table_add_def Let_def flip: s3_def)
  then show ?thesis using t3(2,6) h(2) m'(2) by (simp add: page_holds_def)
qed

section \<open>Properties\<close>

text \<open>
  C9: Adding a partition to a page keeps write xor execute, exactly: on a page that holds the partitions \<open>ps\<close> in its first
  slots, \<^verbatim>\<open>add_to_page\<close> appends the partition and leaves the other pages alone when the partition is not empty and
  does not wrap round, no address becomes both writable and executable, and a slot is free; otherwise it panics.
\<close>

theorem add_to_page_wx:
  assumes "page_holds s p ps" "unat (max_partitions s) \<le> 16"
  shows "case add_to_page p part s of
      None \<Rightarrow> \<not> (part_bounded part \<and> no_wx (ps @ [part]) \<and> length ps < unat (max_partitions s))
    | Some s' \<Rightarrow> part_bounded part \<and> length ps < unat (max_partitions s) \<and> page_holds s' p (ps @ [part])
        \<and> (\<forall>q. q \<noteq> p \<longrightarrow> page_at q s' = page_at q s)"
proof -
  obtain pg where pg: "page_at p s = Some pg" "page_of ps pg" using assms(1) by (auto simp: page_holds_def)
  have "p \<noteq> NULL" using pg(1) by (auto simp: page_at_def)
  then show ?thesis
    unfolding add_to_page_eq[OF pg assms(2)] using page_of_add[OF pg(2), of part] assms(2) by (auto simp: page_holds_def)
qed

definition page_thread_ex :: page_thread where
  "page_thread_ex = \<lparr>pagetable_item = NULL, priv_stack_start = 0, userspace_stack_point = 0, stack_info_start = 0, stack_info_size = 0\<rparr>"

definition space_ex :: "ptr list \<Rightarrow> space" where
  "space_ex free = \<lparr>kernel = (pool_ex free)\<lparr>current_thread := 8\<rparr>,
     pages = [256 \<mapsto> \<lparr>partitions = replicate 16 \<lparr>part_start = 0, part_size = 0, part_attr = 0\<rparr>, partitions_number = 0\<rparr>],
     page_threads = [8 \<mapsto> page_thread_ex],
     page_links = [8 \<mapsto> \<lparr>dn_next = 0, dn_prev = 0\<rparr>, 256 \<mapsto> \<lparr>dn_next = 256, dn_prev = 256\<rparr>],
     mpu_unit = mpu_ex, max_partitions = 5\<rparr>"

lemma space_ex_fields [simp]:
  "max_partitions (space_ex f) = 5" "mpu_unit (space_ex f) = mpu_ex" "current_thread (kernel (space_ex f)) = 8"
  "free_objects (kernel (space_ex f)) = free_objects (pool_ex f)"
  "page_thread_at 8 (space_ex f) = Some page_thread_ex"
  by (simp_all add: space_ex_def page_thread_at_def)

lemma space_ex_page: "page_holds (space_ex f) 256 []"
  using page_of_empty[of "\<lparr>part_start = 0, part_size = 0, part_attr = 0\<rparr>"]
  by (auto simp: page_holds_def page_at_def space_ex_def CONFIG_MAX_DOMAIN_PARTITIONS_def)

theorem add_to_page_wx_witness:
  "case add_to_page 256 part_ex (space_ex []) of
      None \<Rightarrow> \<not> (part_bounded part_ex \<and> no_wx ([] @ [part_ex]) \<and> length ([] :: mem_partition list) < unat (max_partitions (space_ex [])))
    | Some s' \<Rightarrow> part_bounded part_ex \<and> length ([] :: mem_partition list) < unat (max_partitions (space_ex []))
        \<and> page_holds s' 256 ([] @ [part_ex]) \<and> (\<forall>q. q \<noteq> 256 \<longrightarrow> page_at q s' = page_at q (space_ex []))"
  by (rule add_to_page_wx[OF space_ex_page]) simp

text \<open>
  C8: Mapping the first page of the running thread grants exactly the requested rights: with a free object, a free
  region and a valid partition, \<^verbatim>\<open>do_map_page\<close> returns; the new page holds the partition, the thread is the one thread
  on its list, and afterwards an unprivileged access is decided by the user stack of the thread, outside of it inside the
  partition by the right (6 writes, 4 and 6 read), and elsewhere by the static regions.
\<close>

theorem do_map_page_grants:
  assumes "current_thread (kernel s) = thread" "page_thread_at thread s = Some t" "pagetable_item t = NULL"
    and "free_objects (kernel s) = p # free" "p \<noteq> NULL" "p \<noteq> thread" "page_links s thread \<noteq> None"
    and "0 < unat (max_partitions s)" "unat (max_partitions s) \<le> 16" "right \<in> {0, 4, 6}"
    and "part = \<lparr>part_start = addr, part_size = len, part_attr = the (right_attr right)\<rparr>" "part_bounded part"
    and "mpu_partition_is_valid part" "list_all part_ok (stack_parts t)" "unit_fits (mpu_unit s) (1 + length (stack_parts t))"
  shows "\<exists>s'. do_map_page thread addr len right s = Some s' \<and> page_holds s' p [part] \<and> dlist (page_links s') p [thread]
    \<and> (\<forall>write a. user_may (mpu_unit s') write a =
        (if list_ex (part_has a) (stack_parts t) then True
         else if part_has a part then (if write then right = 6 else right \<noteq> 0)
         else user_may (static_part (mpu_unit s)) write a))"
proof -
  obtain attr where attr: "right_attr right = Some attr" using assms(10) by (auto simp: right_attr_def)
  have part: "part = \<lparr>part_start = addr, part_size = len, part_attr = attr\<rparr>" using assms(11) attr by simp
  note f = right_attr_fields[OF assms(10) attr part]
  obtain s1 where s1: "thread_page_get thread s = Some (p, s1)" "page_holds s1 p []" "dlist (page_links s1) p []"
    "\<forall>q. q \<noteq> p \<longrightarrow> page_links s1 q = page_links s q" "page_threads s1 = page_threads s" "mpu_unit s1 = mpu_unit s"
    "max_partitions s1 = max_partitions s" "current_thread (kernel s1) = thread"
    using thread_page_get_new[OF assms(2-5)] assms(1) by auto
  obtain pg where pg: "page_at p s1 = Some pg" "page_of [] pg" using s1(2) by (auto simp: page_holds_def)
  have wx: "no_wx ([] @ [part])" using f(1) by (simp add: no_wx_def part)
  define s2 where "s2 = page_put p (pg\<lparr>partitions := (partitions pg)[0 := part], partitions_number := partitions_number pg + 1\<rparr>) s1"
  have s2: "add_to_page p part s1 = Some s2"
    using add_to_page_eq[OF pg, of part] wx assms(8,9,12) s1(7) by (simp add: s2_def)
  have h2: "page_holds s2 p [part]" using page_of_add[OF pg(2) assms(12) wx] assms(5) by (simp add: s2_def page_holds_def)
  have "page_thread_at thread s1 = Some t" using assms(2) s1(5) by (simp add: page_thread_at_def split: if_splits)
  then have t2: "page_thread_at thread s2 = Some t" "current_thread (kernel s2) = thread" "page_links s2 = page_links s1" "mpu_unit s2 = mpu_unit s"
    using s1(6,8) by (simp_all add: s2_def)
  have ok: "list_all part_ok ([part] @ stack_parts t)" using assms(13,14) f(2) by (simp add: part_ok_def part)
  obtain s' where s': "add_to_page_table p thread s2 = Some s'" "page_holds s' p [part]" "dlist (page_links s') p [thread]"
    "\<forall>write a. user_may (mpu_unit s') write a = grants (mpu_unit s) ([part] @ stack_parts t) write a"
    using add_to_page_table_grants[OF t2(2,1) h2, of "[]"] t2(3,4) s1(3,4) ok assms(6,7,15) by auto
  have "do_map_page thread addr len right s = Some s'"
    using attr s1(1) s2 part s'(1) by (simp add: do_map_page_def)
  moreover have "grants (mpu_unit s) ([part] @ stack_parts t) w a =
        (if list_ex (part_has a) (stack_parts t) then True
         else if part_has a part then (if w then right = 6 else right \<noteq> 0)
         else user_may (static_part (mpu_unit s)) w a)" for w a
    using f(3)[of w] by (auto simp: grants_def stack_parts_def part_ap_def attr_values MPU_RASR_AP_Msk_def ap_allows_def)
  ultimately show ?thesis using s' by simp
qed

theorem do_map_page_grants_witness:
  "\<exists>s'. do_map_page 8 0x20001000 0x1000 6 (space_ex [64]) = Some s' \<and> page_holds s' 64 [part_ex] \<and> dlist (page_links s') 64 [8]
    \<and> (\<forall>write a. user_may (mpu_unit s') write a =
        (if list_ex (part_has a) (stack_parts page_thread_ex) then True
         else if part_has a part_ex then (if write then (6 :: word_t) = 6 else (6 :: word_t) \<noteq> 0)
         else user_may (static_part (mpu_unit (space_ex [64]))) write a))"
proof (rule do_map_page_grants[where free = "[]"])
  show "page_links (space_ex [64]) 8 \<noteq> None" by (simp add: space_ex_def)
  show "part_ex = \<lparr>part_start = 0x20001000, part_size = 0x1000, part_attr = the (right_attr 6)\<rparr>"
    by (simp add: part_ex_def right_attr_def attr_values)
qed (simp_all add: part_ex_def part_bounded_def mpu_partition_is_valid_def unit_fits_def stack_parts_def page_thread_ex_def mpu_ex_def)

text \<open>
  C40: The right 7, read, write and execute, can never be mapped: whatever the state, \<^verbatim>\<open>do_map_page\<close> and
  \<^verbatim>\<open>do_guard_page\<close> do not return with it, since the partition they build fails the write xor execute assertion.
\<close>

theorem do_map_page_rwx_panics:
  "do_map_page thread addr len 7 s = None \<and> do_guard_page s_thread d_thread addr len 7 s = None"
proof -
  have "add_to_page p \<lparr>part_start = addr, part_size = len, part_attr = MEM_PARTITION_P_RWX_U_RWX\<rparr> s' = None" for p s'
    by (auto simp: add_to_page_def contrast_partition_domain_def contrast_partition_def attr_values PARTITION_IS_EXECUTABLE_def
        PARTITION_IS_WRITABLE_def attr_defs bind_eq_None_conv)
  then show ?thesis
    by (auto simp: do_map_page_def do_guard_page_def right_attr_def Let_def bind_eq_None_conv split: option.splits)
qed


definition space_linked :: space where
  "space_linked = (space_ex [])\<lparr>page_links := [8 \<mapsto> \<lparr>dn_next = 256, dn_prev = 256\<rparr>, 256 \<mapsto> \<lparr>dn_next = 8, dn_prev = 8\<rparr>]\<rparr>"




section \<open>Deviations\<close>

text \<open>
  After a removal the slots have a hole, but the write xor execute check looks at the first \<^verbatim>\<open>partitions_number\<close> slots
  only: here slot 0 is free again, slot 1 holds a writable partition, and the check accepts an executable partition at the
  same address.
\<close>

lemma contrast_misses_hole:
  assumes "pg = \<lparr>partitions = \<lparr>part_start = 0x20000000, part_size = 0, part_attr = 0x110B0000\<rparr> # part_ex # zs, partitions_number = 1\<rparr>"
    and "str = \<lparr>part_start = 0x20001000, part_size = 0x1000, part_attr = 0\<rparr>"
  shows "contrast_partition_domain pg str = Some True \<and> \<not> no_wx [part_ex, str]"
proof -
  have "part_has 0x20001000 part_ex" "part_has 0x20001000 str" "PARTITION_IS_WRITABLE (part_attr part_ex)" "PARTITION_IS_EXECUTABLE (part_attr str)"
    by (simp_all add: assms part_has_def part_ex_def PARTITION_IS_WRITABLE_def PARTITION_IS_EXECUTABLE_def attr_defs)
  then have "\<not> no_wx [part_ex, str]" by (auto simp: no_wx_def)
  moreover have "contrast_partition_domain pg str = Some True"
    by (simp add: assms contrast_partition_domain_def contrast_partition_def part_last_def PARTITION_IS_WRITABLE_def attr_defs)
  ultimately show ?thesis by simp
qed

text \<open>A second \<^verbatim>\<open>do_map_page\<close> of a thread appends its node again: the node ends up linked to itself, out of the list.\<close>

lemma append_linked_node:
  assumes "dlist h p [n]"
  shows "\<exists>h'. sys_dlist_append p n h = Some h' \<and> h' n = Some \<lparr>dn_next = n, dn_prev = n\<rparr>"
proof -
  have "n \<noteq> NULL" "p \<noteq> NULL" "n \<noteq> p" using assms by (auto simp: dlist_def)
  then show ?thesis using assms by (auto simp: sys_dlist_append_def dnode_upd_def dnode_at_def dlist_def split: option.splits)
qed

text \<open>Unmapping the registered page of the running thread reads the page after it was freed.\<close>

lemma do_unmap_page_faults:
  assumes "page_thread_at (current_thread (kernel s)) s = Some t" "d_object_find (pagetable_item t) (kernel s) = Some d"
  shows "do_unmap_page (current_thread (kernel s)) s = None"
proof (cases "d_object_free (pagetable_item t) (kernel s)")
  case (Some k)
  then have "current_thread k = current_thread (kernel s)"
    using assms(2) by (auto simp: d_object_free_def d_object_delete_def drop_object_def Let_def bind_eq_Some_conv split: if_splits)
  moreover have "page_thread_at (current_thread (kernel s)) (s\<lparr>kernel := k, pages := P, page_links := L\<rparr>) = Some t" for P L
    using assms(1) by (simp add: page_thread_at_def split: if_splits)
  ultimately show ?thesis
    using assms Some by (simp add: do_unmap_page_def remove_from_page_table_def arm_core_page_table_remove_def
        arm_core_page_destroy_def page_at_def Let_def)
qed (use assms in \<open>simp add: do_unmap_page_def\<close>)

end
