(* ===== verification/Spec2Isabelle.thy ===== *)
theory Spec2Isabelle
  imports Prelude Sporadic Time_Conv Sys_Dlist Systick Time_List Kernel_Types Prio_Bitmap Dll Ready_Queues
    Thread_State Message_Queues Objects Scheduler Thread_Table Thread_Context Ipc Thread_Life Crc Hex
    Ring_Buffer Base64 Mpu Pages
begin

text \<open>
  Verification of the WellsL4 microkernel (\<^verbatim>\<open>src/wellsl4\<close>) for the Cortex-M4 board it ships for, in the configuration
  \<^verbatim>\<open>src/project/test1/.config.template\<close>: one CPU, one scheduling domain, assertions on, user space with an ARMv7-M
  memory protection unit.  Paths below are relative to \<^verbatim>\<open>src/wellsl4\<close>.

  \<^bold>\<open>The program and how it is modelled.\<close>  Threads run on scheduling contexts with budgets; the scheduler keeps them in
  priority queues and a release queue; they exchange messages and signals through nodes with queues of waiting threads;
  a timer driver drives a list of timer events; pages tell the protection unit what a user thread may access; a library
  provides lists, checksums, encodings and a ring buffer.  Each C struct is a record, each heap a map from addresses to
  records, and each function a definition of the same name in the option monad with the state as last argument and
  result.  \<open>None\<close> is a failed assertion, a fault or a loop that does not end; error codes are values.  Machine integers
  are words of their width.  A section under \<^verbatim>\<open>LOCKED\<close> is its body, since it disables interrupts on the only CPU.

  \<^bold>\<open>Theories, sources and results.\<close>

  \<^item> \<open>Prelude\<close> (\<^verbatim>\<open>inc/types_def.h\<close>, error codes): machine types, the failure monad, facts on words and lists.

  \<^item> \<open>Sporadic\<close> (\<^verbatim>\<open>src/model/sporadic.c\<close>, \<^verbatim>\<open>inc/model/sporadic.h\<close>): the circular buffer of refills.  The operations
    refine list operations, the budget loops end, and budget checks conserve the sum of the refills.

  \<^item> \<open>Time_Conv\<close>, \<open>Systick\<close>, \<open>Time_List\<close> (\<^verbatim>\<open>inc/kernel/time.h\<close>, \<^verbatim>\<open>src/drivers/timer/cortex_m_systick.c\<close>,
    \<^verbatim>\<open>src/kernel/time.c\<close>): the conversions round as they say, the driver programs values in the range of the counter
    and announces the cycles that have passed, and the delta list keeps the expiry times of its events.

  \<^item> \<open>Sys_Dlist\<close> (\<^verbatim>\<open>inc/sys/dlist.h\<close>) and \<open>Dll\<close>: linked lists on a heap refine lists; the locale \<open>node_queue\<close> gives
    first in, first out order.

  \<^item> \<open>Kernel_Types\<close> (\<^verbatim>\<open>inc/kernel_object.h\<close>, \<^verbatim>\<open>src/state/statedata.c\<close>, \<^verbatim>\<open>src/default/default.c\<close>): the kernel state.

  \<^item> \<open>Prio_Bitmap\<close>, \<open>Ready_Queues\<close>, \<open>Thread_State\<close>, \<open>Message_Queues\<close> (\<^verbatim>\<open>inc/kernel/thread.h\<close>, part of
    \<^verbatim>\<open>src/object/ipc.c\<close>): the bitmap refines a set and its search finds the highest priority; the queues refine lists under
    the invariant \<open>sched_inv\<close>; the release queue stays sorted.  The locale \<open>fifo\<close> is interpreted for the ready
    queues and for the message queues.

  \<^item> \<open>Objects\<close> (\<^verbatim>\<open>src/object/objecttype.c\<close>, \<^verbatim>\<open>src/kernel/cspace.c\<close>): allocation keeps the pool well formed.

  \<^item> \<open>Scheduler\<close> (\<^verbatim>\<open>src/kernel/thread.c\<close>, \<^verbatim>\<open>src/arch/arm/aarch32/swap.c\<close>): which thread runs next, round robin
    accounting of time, postponing to the release queue.

  \<^item> \<open>Thread_Table\<close>, \<open>Thread_Context\<close>, \<open>Thread_Life\<close> (\<^verbatim>\<open>src/object/tcb.c\<close>): binary search, insertion and removal in the
    ordered table; initialisation, start, suspension and destruction of threads.

  \<^item> \<open>Ipc\<close> (\<^verbatim>\<open>src/object/ipc.c\<close>, \<^verbatim>\<open>inc/object/ipc.h\<close>, the retry loop of \<^verbatim>\<open>src/kernel/privilege.c\<close>): sending, receiving,
    signals and cancellation.  What mapping items, register exchange and interrupt items of a message do is a parameter,
    \<open>item_env\<close>, and the theorems hold for every value of it.

  \<^item> \<open>Mpu\<close> (\<^verbatim>\<open>src/arch/arm/aarch32/cortex_m/mpu/arm_mpu.c\<close>, \<^verbatim>\<open>arm_mpu_v7m.c\<close>): the driver against the access rule of
    the hardware, \<open>user_may\<close>: programmed partitions decide accesses, and the buffer check is exact when no region overlaps
    the buffer in part.

  \<^item> \<open>Pages\<close> (\<^verbatim>\<open>src/object/anode.c\<close>, \<^verbatim>\<open>arm_mpu_anode.c\<close>): write xor execute on pages without holes, the threads of a page,
    and, across \<open>Objects\<close>, \<open>Sys_Dlist\<close> and \<open>Mpu\<close>, that mapping a page grants exactly the requested rights.

  \<^item> \<open>Crc\<close>, \<open>Hex\<close>, \<open>Base64\<close>, \<open>Ring_Buffer\<close> (\<^verbatim>\<open>src/lib/sys\<close>): the checksums equal bit serial references; encodings round
    trip and stay inside their buffers; the ring buffer refines a bounded queue through the locale \<open>bounded_fifo\<close>.

  \<^bold>\<open>Bounds.\<close>  Loops that may run forever are \<^verbatim>\<open>partial_function (option)\<close>, without fuel; that they return is part of the
  theorems about them.  Other loops recurse on a list or a bounded counter.  Hypotheses that bound lengths come from the
  width of the C types.

  \<^bold>\<open>Deviations of the code\<close> that the model shows are stated as theorems or lemmas beside the component: among them a
  suspended thread that stays queued, a buffer check that skips regions, the write xor execute check after a removal
  (\<open>contrast_misses_hole\<close>), a second mapping that links a node to itself (\<open>append_linked_node\<close>) and the read of a freed
  page (\<open>do_unmap_page_faults\<close>).

  \<^bold>\<open>Not modelled.\<close>  Assembly and exception entry, boot, idle and device code, since they act on registers, stacks and
  linker symbols; the system call bodies, which decode registers and call the modelled functions; the announcement of
  ticks, which calls handlers through pointers; moving, swapping and revoking of kernel objects, capability nodes,
  retyping and the kernel interface page, which rest on generated tables; interrupts; the static protection regions,
  taken from linker symbols; formatted output, the JSON parser, the memory pool and the red black tree of the library, of
  which the modelled parts see only the effect; code for several CPUs and tracing, which this configuration does not
  build; vendor drivers and the event framework beside the kernel.
\<close>

end
